(* ===== verification/Prelude.thy ===== *)
theory Prelude
  imports
    "HOL-Library.Word"
    "HOL-Library.AList"
    "HOL-Library.Sublist"
    "HOL-Library.Char_ord"
    "HOL-Library.List_Lexorder"
begin

text \<open>
  Shared vocabulary of the development.  Machine integers are words of the C++ width, a
  \<open>std::string\<close> is a \<open>string\<close> whose characters are its bytes (ordered as
  \<open>std::string::compare\<close> orders them, by unsigned byte, through \<open>Char_ord\<close> and
  \<open>List_Lexorder\<close>), a \<open>std::vector<uint8_t>\<close> is a list of 8-bit words.  The rest of
  the theory models the parts of \<open>std::string\<close> the sources use (\<open>find\<close>,
  \<open>substr\<close>, \<open>to_string\<close>, \<open>stoull\<close>) and proves the lemmas about them that the
  hand-written parsers of the repository need.
\<close>

unbundle bit_operations_syntax

type_synonym u8 = "8 word"
type_synonym u32 = "32 word"
type_synonym u64 = "64 word"
type_synonym bytes = "u8 list"

named_theorems str_simps \<open>search, slicing and numeral lemmas on byte strings\<close>

section \<open>Substring search: std::string::find and substr\<close>

text \<open>\<open>find_sub nd s\<close> is the least index at which \<open>nd\<close> occurs in \<open>s\<close>.\<close>

primrec find_sub :: "'a list \<Rightarrow> 'a list \<Rightarrow> nat option" where
  "find_sub nd [] = (if nd = [] then Some 0 else None)"
| "find_sub nd (c # cs) =
     (if prefix nd (c # cs) then Some 0 else map_option Suc (find_sub nd cs))"

text \<open>\<open>str_find s nd pos\<close> is \<open>s.find(nd, pos)\<close>; \<open>None\<close> is \<open>npos\<close>.\<close>

definition str_find :: "'a list \<Rightarrow> 'a list \<Rightarrow> nat \<Rightarrow> nat option" where
  "str_find s nd pos =
     (if pos \<le> length s then map_option (\<lambda>i. pos + i) (find_sub nd (drop pos s)) else None)"

text \<open>\<open>find_pred P s pos\<close> is \<open>find_first_of\<close> / \<open>find_first_not_of\<close> with the class
  of characters given as a predicate.\<close>

primrec find_if :: "('a \<Rightarrow> bool) \<Rightarrow> 'a list \<Rightarrow> nat option" where
  "find_if P [] = None"
| "find_if P (c # cs) = (if P c then Some 0 else map_option Suc (find_if P cs))"

definition find_pred :: "('a \<Rightarrow> bool) \<Rightarrow> 'a list \<Rightarrow> nat \<Rightarrow> nat option" where
  "find_pred P s pos = map_option (\<lambda>i. pos + i) (find_if P (drop pos s))"

text \<open>\<open>substr s pos n\<close>; the sources call it with \<open>pos\<close> inside the string only.\<close>

definition substr :: "'a list \<Rightarrow> nat \<Rightarrow> nat \<Rightarrow> 'a list" where
  "substr s pos n = take n (drop pos s)"

lemma find_sub_Some:
  "find_sub nd s = Some i \<Longrightarrow> i + length nd \<le> length s \<and> prefix nd (drop i s)"
proof (induction s arbitrary: i)
  case Nil
  then show ?case by (auto split: if_splits)
next
  case (Cons c cs)
  then show ?case
    by (cases "prefix nd (c # cs)") (auto dest: prefix_length_le)
qed

lemma find_sub_first: "find_sub nd s = Some i \<Longrightarrow> j < i \<Longrightarrow> \<not> prefix nd (drop j s)"
proof (induction s arbitrary: i j)
  case Nil
  then show ?case by (auto split: if_splits)
next
  case (Cons c cs)
  then show ?case
    by (cases j) (auto split: if_splits)
qed

lemma find_sub_None: "find_sub nd s = None \<longleftrightarrow> \<not> sublist nd s"
proof (induction s)
  case Nil
  then show ?case by simp
next
  case (Cons c cs)
  then show ?case
    by (auto simp: sublist_Cons_right)
qed

lemma find_sub_self [str_simps]: "find_sub nd (nd @ s) = Some 0"
proof -
  have "prefix nd (nd @ s)" by simp
  then show ?thesis by (cases "nd @ s") auto
qed

lemma find_sub_char [str_simps]:
  "c \<notin> set xs \<Longrightarrow> find_sub [c] (xs @ c # ys) = Some (length xs)"
  by (induction xs) auto

lemma find_sub_char_None [str_simps]: "find_sub [c] xs = None \<longleftrightarrow> c \<notin> set xs"
  by (induction xs) auto

text \<open>A needle that starts with a character absent from \<open>xs\<close> is not found inside \<open>xs\<close>.\<close>

lemma find_sub_skip [str_simps]:
  "c \<notin> set xs \<Longrightarrow> find_sub (c # nd) (xs @ ys) = map_option (\<lambda>i. length xs + i) (find_sub (c # nd) ys)"
proof (induction xs)
  case Nil
  then show ?case by (simp add: option.map_ident)
next
  case (Cons x xs)
  then show ?case by (auto simp: option.map_comp comp_def)
qed

lemma str_find_Some:
  assumes "str_find s nd pos = Some i"
  shows "pos \<le> i" and "i + length nd \<le> length s" and "prefix nd (drop i s)"
proof -
  from assms obtain k where pos: "pos \<le> length s"
    and k: "find_sub nd (drop pos s) = Some k" and i: "i = pos + k"
    by (auto simp: str_find_def split: if_splits)
  from find_sub_Some [OF k] have kl: "k + length nd \<le> length s - pos"
    and pr: "prefix nd (drop k (drop pos s))" by auto
  show "pos \<le> i" by (simp add: i)
  show "i + length nd \<le> length s" using kl pos by (simp add: i)
  show "prefix nd (drop i s)" using pr by (simp add: i add.commute)
qed

lemma str_find_0: "str_find s nd 0 = find_sub nd s"
  by (cases "find_sub nd s") (simp_all add: str_find_def)

lemma str_find_at:
  "pos = length xs \<Longrightarrow> str_find (xs @ ys) nd pos = map_option (\<lambda>i. length xs + i) (find_sub nd ys)"
  by (simp add: str_find_def)

lemma find_if_Some: "find_if P s = Some i \<Longrightarrow> i < length s \<and> P (s ! i)"
  by (induction s arbitrary: i) (auto split: if_splits)

lemma substr_append [str_simps]:
  "substr (xs @ ys @ zs) (length xs) (length ys) = ys"
  by (simp add: substr_def)

text \<open>\<open>std::filesystem::path::operator/\<close> on a directory and a name.\<close>

definition path_append :: "string \<Rightarrow> string \<Rightarrow> string" where
  "path_append dir name =
     (if dir = [] \<or> last dir = CHR ''/'' then dir @ name else dir @ [CHR ''/''] @ name)"

text \<open>\<open>std::tolower\<close> in the C locale.\<close>

definition tolower :: "char \<Rightarrow> char" where
  "tolower c = (if 65 \<le> (of_char c :: nat) \<and> (of_char c :: nat) \<le> 90 then char_of ((of_char c :: nat) + 32) else c)"

text \<open>\<open>std::isspace\<close> in the C locale.\<close>

definition is_space :: "char \<Rightarrow> bool" where
  "is_space c \<longleftrightarrow> c = CHR '' '' \<or> (9 \<le> (of_char c :: nat) \<and> (of_char c :: nat) \<le> 13)"

section \<open>Decimal numerals: std::to_string and std::stoull\<close>

definition digit_char :: "nat \<Rightarrow> char" where
  "digit_char d = char_of (48 + d)"

lemma digit_char_simps [simp]:
  "digit_char 0 = CHR ''0''" "digit_char 1 = CHR ''1''" "digit_char 2 = CHR ''2''"
  "digit_char 3 = CHR ''3''" "digit_char 4 = CHR ''4''" "digit_char 5 = CHR ''5''"
  "digit_char 6 = CHR ''6''" "digit_char 7 = CHR ''7''" "digit_char 8 = CHR ''8''"
  "digit_char 9 = CHR ''9''" "digit_char (Suc 0) = CHR ''1''"
  by (simp_all add: digit_char_def char_of_def bit_0)

definition is_digit :: "char \<Rightarrow> bool" where
  "is_digit c \<longleftrightarrow> 48 \<le> (of_char c :: nat) \<and> (of_char c :: nat) \<le> 57"

fun dec :: "nat \<Rightarrow> string" where
  "dec n = (if n < 10 then [digit_char n] else dec (n div 10) @ [digit_char (n mod 10)])"

declare dec.simps [simp del]

definition undec :: "string \<Rightarrow> nat" where
  "undec s = foldl (\<lambda>n c. 10 * n + (of_char c - 48)) 0 s"

lemma of_char_digit: "d < 10 \<Longrightarrow> (of_char (digit_char d) :: nat) = 48 + d"
  by (simp add: digit_char_def)

lemma is_digit_digit_char: "d < 10 \<Longrightarrow> is_digit (digit_char d)"
  by (simp add: is_digit_def of_char_digit)

lemma dec_digits [str_simps]: "c \<in> set (dec n) \<Longrightarrow> is_digit c"
proof (induction n rule: dec.induct)
  case (1 n)
  then show ?case
    by (cases "n < 10") (auto simp: dec.simps [of n] is_digit_digit_char)
qed

lemma dec_nonempty [str_simps]: "dec n \<noteq> []"
  by (subst dec.simps) simp

lemma undec_snoc: "undec (s @ [c]) = 10 * undec s + (of_char c - 48)"
  by (simp add: undec_def)

lemma undec_dec [str_simps]: "undec (dec n) = n"
proof (induction n rule: dec.induct)
  case (1 n)
  show ?case
  proof (cases "n < 10")
    case True
    then show ?thesis
      using undec_snoc [of "[]" "digit_char n"]
      by (simp add: dec.simps [of n] of_char_digit undec_def)
  next
    case False
    have "n mod 10 < 10" by simp
    then show ?thesis
      using False 1 by (simp add: dec.simps [of n] undec_snoc of_char_digit)
  qed
qed

lemma dec_inject: "dec m = dec n \<longleftrightarrow> m = n"
  by (metis undec_dec)

text \<open>\<open>std::stoull\<close> on a non-empty run of digits: out of range above \<open>2^64 - 1\<close>.\<close>

definition stoull :: "string \<Rightarrow> u64 option" where
  "stoull s = (if undec s < 2 ^ 64 then Some (word_of_nat (undec s)) else None)"

lemma stoull_dec [str_simps]: "stoull (dec (unat w)) = Some w"
proof -
  have "unat w < 2 ^ 64" using unsigned_less [of w] by simp
  then show ?thesis by (simp add: stoull_def undec_dec)
qed

text \<open>A time as \<open>gmtime_r\<close> gives it, with the microseconds; and a number padded with zeros.\<close>

record utc_time =
  tm_year :: nat
  tm_mon :: nat
  tm_mday :: nat
  tm_hour :: nat
  tm_min :: nat
  tm_sec :: nat
  tm_usec :: nat

definition pad0 :: "nat \<Rightarrow> nat \<Rightarrow> string" where
  "pad0 width n = replicate (width - length (dec n)) (CHR ''0'') @ dec n"

text \<open>\<open>takeWhile\<close> with its length, as the sources' index loops compute it.\<close>

lemma takeWhile_append_stop:
  "(\<And>x. x \<in> set xs \<Longrightarrow> P x) \<Longrightarrow> ys = [] \<or> \<not> P (hd ys) \<Longrightarrow> takeWhile P (xs @ ys) = xs"
  by (cases ys) auto

lemma takeWhile_upto [simp]: "c \<notin> set xs \<Longrightarrow> takeWhile (\<lambda>x. x \<noteq> c) (xs @ c # ys) = xs"
  by (induction xs) auto

lemma takeWhile_all: "c \<notin> set xs \<Longrightarrow> takeWhile (\<lambda>x. x \<noteq> c) xs = xs"
  by (induction xs) auto

lemma split_at_char:
  assumes "c \<in> set s"
  obtains xs ys where "s = xs @ c # ys" "c \<notin> set xs" "find_sub [c] s = Some (length xs)"
proof -
  obtain xs ys where s: "s = xs @ c # ys" "c \<notin> set xs" using split_list_first [OF assms] by blast
  then have "find_sub [c] s = Some (length xs)" by (simp only: find_sub_char not_False_eq_True)
  with s show ?thesis by (rule that)
qed

text \<open>The text before the first \<open>c\<close>, the idiom \<open>s.substr(0, s.find(c))\<close>.\<close>

lemma find_char_cases:
  obtains (found) n where "find_sub [c] s = Some n" "c \<in> set s" "take n s = takeWhile (\<lambda>x. x \<noteq> c) s"
  | (absent) "find_sub [c] s = None" "c \<notin> set s" "takeWhile (\<lambda>x. x \<noteq> c) s = s"
proof (cases "c \<in> set s")
  case True
  then obtain xs ys where s: "s = xs @ c # ys" "c \<notin> set xs" "find_sub [c] s = Some (length xs)"
    by (rule split_at_char)
  have "take (length xs) s = takeWhile (\<lambda>x. x \<noteq> c) s" by (simp only: s takeWhile_upto not_False_eq_True) simp
  with s True show ?thesis by (intro found) auto
next
  case False
  then show ?thesis by (intro absent) (simp_all only: find_sub_char_None takeWhile_all not_False_eq_True)
qed

section \<open>Association lists standing for std::unordered_map where the code iterates\<close>

lemma alist_update_map_of [simp]: "map_of (AList.update k v al) = (map_of al)(k \<mapsto> v)"
  by (rule update_conv')

lemma alist_delete_map_of [simp]: "map_of (AList.delete k al) = (map_of al)(k := None)"
  by (rule delete_conv')

lemma set_update_distinct:
  "distinct (map fst al) \<Longrightarrow> set (AList.update k v al) = insert (k, v) {p \<in> set al. fst p \<noteq> k}"
  by (induction al) (auto simp: image_iff)

lemma set_delete_key: "set (AList.delete k al) = {p \<in> set al. fst p \<noteq> k}"
  by (induction al) auto

lemma map_of_mem: "map_of al k = Some v \<Longrightarrow> (k, v) \<in> set al"
  by (rule map_of_SomeD)

section \<open>Words\<close>

lemma unat_lt_2_64: "unat (w :: u64) < 2 ^ 64"
  using unsigned_less [of w] by simp

lemma unat_lt_2_32: "unat (w :: u32) < 2 ^ 32"
  using unsigned_less [of w] by simp

lemma unat_Suc_u64: "unat (w :: u64) < 2 ^ 64 - 1 \<Longrightarrow> unat (w + 1) = Suc (unat w)"
  by (simp add: unat_word_ariths)

end
