(* ===== verification/DirectMQ_Protocol.thy ===== *)
theory DirectMQ_Protocol
  imports Prelude
begin

text \<open>
  The wire protocol of DC-to-DC replication
  (\<^verbatim>\<open>Enterprise/Replication/DirectMQProtocol.cpp\<close>): length-prefixed frames and
  eight-byte acknowledgements, in big-endian byte order.  \<open>frameMessage\<close> throws on an
  oversized payload (\<open>Inl\<close>), the parsers return a \<open>parse_result\<close> whose \<open>pr_ok\<close>
  flag says whether the buffer was accepted.
\<close>

section \<open>Constants and results\<close>

definition kMaxPayloadSize :: u32 where
  "kMaxPayloadSize = 64 * 1024 * 1024"

record parse_result =
  pr_ok :: bool
  pr_payload :: bytes
  pr_statusCode :: u32
  pr_errorMessage :: string

definition parse_result_init :: parse_result where
  "parse_result_init = \<lparr>pr_ok = False, pr_payload = [], pr_statusCode = 0, pr_errorMessage = []\<rparr>"

section \<open>Big-endian 32-bit integers\<close>

definition writeBE32 :: "bytes \<Rightarrow> nat \<Rightarrow> u32 \<Rightarrow> bytes" where
  "writeBE32 buf offset value =
     buf[offset + 0 := ucast (drop_bit 24 value AND 0xFF),
         offset + 1 := ucast (drop_bit 16 value AND 0xFF),
         offset + 2 := ucast (drop_bit 8 value AND 0xFF),
         offset + 3 := ucast (value AND 0xFF)]"

definition readBE32 :: "bytes \<Rightarrow> nat \<Rightarrow> u32" where
  "readBE32 buf offset =
     push_bit 24 (ucast (buf ! (offset + 0))) OR
     push_bit 16 (ucast (buf ! (offset + 1))) OR
     push_bit 8 (ucast (buf ! (offset + 2))) OR
     ucast (buf ! (offset + 3))"

section \<open>Frames\<close>

definition frameMessage :: "bytes \<Rightarrow> string + bytes" where
  "frameMessage payload =
     (if length payload > unat kMaxPayloadSize
      then Inl (''DirectMQProtocol::frameMessage: payload exceeds maximum size of '' @
                dec (unat kMaxPayloadSize) @ '' bytes'')
      else let len = (of_nat (length payload) :: u32);
               frame = replicate (4 + unat len) 0;
               frame = writeBE32 frame 0 len
           in Inr (if len > 0 then take 4 frame @ take (unat len) payload else frame))"

definition parseFrame :: "bytes \<Rightarrow> parse_result" where
  "parseFrame buffer =
     (let result = parse_result_init in
      if length buffer < 4
      then result\<lparr>pr_errorMessage :=
             ''Buffer too short for frame header (need 4 bytes, got '' @ dec (length buffer) @ '')''\<rparr>
      else let len = readBE32 buffer 0 in
        if len > kMaxPayloadSize
        then result\<lparr>pr_errorMessage :=
               ''Declared payload length '' @ dec (unat len) @ '' exceeds maximum '' @
               dec (unat kMaxPayloadSize)\<rparr>
        else if length buffer < unat (4 + len)
        then result\<lparr>pr_errorMessage :=
               ''Buffer too short for payload (need '' @ dec (unat (4 + len)) @ '' bytes, got '' @
               dec (length buffer) @ '')''\<rparr>
        else result\<lparr>pr_ok := True, pr_payload := take (unat len) (drop 4 buffer)\<rparr>)"

definition buildAck :: "u32 \<Rightarrow> bytes" where
  "buildAck statusCode =
     (let ack = replicate 8 0;
          ack = writeBE32 ack 0 4
      in writeBE32 ack 4 statusCode)"

definition parseAck :: "bytes \<Rightarrow> parse_result" where
  "parseAck buffer =
     (let result = parse_result_init in
      if length buffer < 8
      then result\<lparr>pr_errorMessage :=
             ''ACK buffer too short (need 8 bytes, got '' @ dec (length buffer) @ '')''\<rparr>
      else let payloadLen = readBE32 buffer 0 in
        if payloadLen \<noteq> 4
        then result\<lparr>pr_errorMessage := ''ACK payload length must be 4, got '' @ dec (unat payloadLen)\<rparr>
        else result\<lparr>pr_ok := True, pr_statusCode := readBE32 buffer 4\<rparr>)"

section \<open>The integer codec\<close>

lemma be32_bytes_join:
  fixes v :: u32
  shows "push_bit 24 (ucast (ucast (drop_bit 24 v AND 0xFF) :: u8)) OR
         push_bit 16 (ucast (ucast (drop_bit 16 v AND 0xFF) :: u8)) OR
         push_bit 8 (ucast (ucast (drop_bit 8 v AND 0xFF) :: u8)) OR
         ucast (ucast (v AND 0xFF) :: u8) = v" (is "?l = _")
proof (rule bit_word_eqI)
  have m: "(0xFF :: u32) = mask 8" by (simp add: mask_eq_exp_minus_1)
  fix n assume "n < LENGTH(32)"
  then have "n < 32" by simp
  then show "bit ?l n = bit v n" unfolding m
    by (simp only: bit_or_iff bit_push_bit_iff bit_unsigned_iff bit_and_iff bit_drop_bit_eq
          bit_mask_iff comp_def possible_bit_word)
       (cases "n < 8"; cases "n < 16"; cases "n < 24"; auto simp: less_diff_conv2 not_less)
qed

text \<open>The byte at position \<open>8 * i\<close> of the word that four bytes make.\<close>

lemma be32_bytes_split:
  fixes a b c d :: u8
  defines "v \<equiv> push_bit 24 (ucast a) OR push_bit 16 (ucast b) OR push_bit 8 (ucast c) OR (ucast d :: u32)"
  shows "ucast (drop_bit 24 v AND 0xFF) = a" and "ucast (drop_bit 16 v AND 0xFF) = b"
    and "ucast (drop_bit 8 v AND 0xFF) = c" and "ucast (v AND 0xFF) = d"
proof -
  have m: "(0xFF :: u32) = mask 8" by (simp add: mask_eq_exp_minus_1)
  have hi: "\<not> bit x n" if "8 \<le> n" for x :: u8 and n
    using that by (auto dest: bit_imp_le_length)
  note bits = bit_or_iff bit_push_bit_iff bit_unsigned_iff bit_and_iff bit_drop_bit_eq
    bit_mask_iff comp_def possible_bit_word
  show "ucast (drop_bit 24 v AND 0xFF) = a" unfolding m v_def
    by (rule bit_word_eqI, simp only: bits) (auto simp: hi)
  show "ucast (drop_bit 16 v AND 0xFF) = b" unfolding m v_def
    by (rule bit_word_eqI, simp only: bits) (auto simp: hi)
  show "ucast (drop_bit 8 v AND 0xFF) = c" unfolding m v_def
    by (rule bit_word_eqI, simp only: bits) (auto simp: hi)
  show "ucast (v AND 0xFF) = d" unfolding m v_def
    by (rule bit_word_eqI, simp only: bits) (auto simp: hi)
qed

section \<open>The frame header as four bytes\<close>

definition be32 :: "u32 \<Rightarrow> bytes" where
  "be32 v = [ucast (drop_bit 24 v AND 0xFF), ucast (drop_bit 16 v AND 0xFF),
             ucast (drop_bit 8 v AND 0xFF), ucast (v AND 0xFF)]"

lemma length_be32 [simp]: "length (be32 v) = 4"
  by (simp add: be32_def)

lemma writeBE32_header: "writeBE32 (replicate (4 + n) 0) 0 v = be32 v @ replicate n 0"
  by (simp add: writeBE32_def be32_def eval_nat_numeral)

lemma readBE32_header: "readBE32 (be32 v @ rest) 0 = v"
  by (simp add: readBE32_def be32_def be32_bytes_join)

lemma be32_readBE32: "4 \<le> length b \<Longrightarrow> be32 (readBE32 b 0) = take 4 b"
proof -
  assume "4 \<le> length b"
  then obtain b0 b1 b2 b3 r where b: "b = b0 # b1 # b2 # b3 # r"
    by (auto simp: eval_nat_numeral Suc_le_length_iff)
  have r: "readBE32 b 0 = push_bit 24 (ucast b0) OR push_bit 16 (ucast b1) OR push_bit 8 (ucast b2) OR ucast b3"
    by (simp add: b readBE32_def)
  show ?thesis
    unfolding be32_def r be32_bytes_split by (simp add: b)
qed

lemma readBE32_shift: "readBE32 (be32 u @ b) 4 = readBE32 b 0"
  by (simp add: readBE32_def nth_append numeral_2_eq_2)

lemma unat_kMax: "unat kMaxPayloadSize = 67108864"
  by (simp add: kMaxPayloadSize_def)

lemma unat_frame_size: "len \<le> kMaxPayloadSize \<Longrightarrow> unat (4 + len) = 4 + unat len"
  by (simp add: word_le_nat_alt unat_kMax unat_word_ariths)

lemma frameMessage_ok:
  "length p \<le> unat kMaxPayloadSize \<Longrightarrow> frameMessage p = Inr (be32 (of_nat (length p)) @ p)"
  by (cases "p = []")
     (simp_all add: frameMessage_def unat_kMax Let_def writeBE32_header unat_of_nat
        writeBE32_header [of 0, simplified] word_less_nat_alt)

lemma frameMessage_Inr:
  "frameMessage p = Inr f \<longleftrightarrow>
     length p \<le> unat kMaxPayloadSize \<and> f = be32 (of_nat (length p)) @ p"
proof (cases "length p \<le> unat kMaxPayloadSize")
  case True
  then show ?thesis by (auto simp: frameMessage_ok)
next
  case False
  then show ?thesis by (simp add: frameMessage_def)
qed

text \<open>What the parser accepts, and what it returns then.\<close>

lemma parseFrame_ok:
  "pr_ok (parseFrame b) \<longleftrightarrow>
     4 \<le> length b \<and> readBE32 b 0 \<le> kMaxPayloadSize \<and> 4 + unat (readBE32 b 0) \<le> length b"
  by (auto simp: parseFrame_def parse_result_init_def Let_def unat_frame_size)

lemma parseFrame_value:
  "pr_ok (parseFrame b) \<Longrightarrow>
     parseFrame b = \<lparr>pr_ok = True, pr_payload = take (unat (readBE32 b 0)) (drop 4 b),
                     pr_statusCode = 0, pr_errorMessage = []\<rparr>"
  by (auto simp: parseFrame_def parse_result_init_def Let_def split: if_splits)

lemma parseFrame_frame:
  assumes "length p \<le> unat kMaxPayloadSize"
  shows "parseFrame ((be32 (of_nat (length p)) @ p) @ rest) =
     \<lparr>pr_ok = True, pr_payload = p, pr_statusCode = 0, pr_errorMessage = []\<rparr>"
proof -
  have len: "unat (of_nat (length p) :: u32) = length p"
    using assms by (simp add: unat_kMax unat_of_nat)
  let ?b = "be32 (of_nat (length p)) @ p @ rest"
  have "pr_ok (parseFrame ?b)"
    using assms by (simp add: parseFrame_ok readBE32_header word_le_nat_alt len)
  from parseFrame_value [OF this] show ?thesis
    by (simp add: readBE32_header len)
qed

lemma parseFrame_ok_frame:
  assumes "pr_ok (parseFrame b)"
  shows "\<exists>f. frameMessage (pr_payload (parseFrame b)) = Inr f \<and> prefix f b"
proof -
  let ?n = "unat (readBE32 b 0)" and ?p = "take (unat (readBE32 b 0)) (drop 4 b)"
  from assms have b: "4 \<le> length b" "readBE32 b 0 \<le> kMaxPayloadSize" "4 + ?n \<le> length b"
    by (auto simp: parseFrame_ok)
  then have len: "length ?p = ?n" by simp
  have bound: "?n \<le> unat kMaxPayloadSize" using b(2) by (simp add: word_le_nat_alt)
  have "be32 (of_nat ?n) @ ?p = take 4 b @ take ?n (drop 4 b)"
    using b(1) by (simp add: be32_readBE32)
  also have "\<dots> = take (4 + ?n) b" by (simp add: take_add)
  finally have "be32 (of_nat ?n) @ ?p = take (4 + ?n) b" .
  then show ?thesis
    using len bound by (simp add: parseFrame_value [OF assms] frameMessage_ok take_is_prefix)
qed

section \<open>Properties\<close>

text \<open>C10. Decoding inverts encoding: every payload of at most 64 MB is framed, the frame is four
  bytes longer than the payload, and parsing it gives the payload back whatever bytes follow it
  in the receive buffer.\<close>

theorem frame_roundtrip:
  assumes "length payload \<le> unat kMaxPayloadSize"
  shows "\<exists>frame. frameMessage payload = Inr frame \<and> length frame = 4 + length payload \<and>
           (\<forall>rest. parseFrame (frame @ rest) =
              \<lparr>pr_ok = True, pr_payload = payload, pr_statusCode = 0, pr_errorMessage = []\<rparr>)"
  using frameMessage_ok [OF assms] parseFrame_frame [OF assms] by auto

lemma frame_roundtrip_witness:
  "\<exists>frame. frameMessage [1, 2, 3] = Inr frame \<and> length frame = 7 \<and>
     (\<forall>rest. parseFrame (frame @ rest) =
        \<lparr>pr_ok = True, pr_payload = [1, 2, 3], pr_statusCode = 0, pr_errorMessage = []\<rparr>)"
  using frame_roundtrip [of "[1, 2, 3]"] by (simp add: unat_kMax)

text \<open>C22. The parser accepts nothing else: a buffer is accepted exactly when it begins with the
  frame of some payload of at most 64 MB, so truncated buffers and length prefixes above the
  limit are rejected and no payload has two encodings.\<close>

theorem parseFrame_accepts_iff:
  "pr_ok (parseFrame buffer) \<longleftrightarrow> (\<exists>payload frame. frameMessage payload = Inr frame \<and> prefix frame buffer)"
proof
  assume "pr_ok (parseFrame buffer)"
  then show "\<exists>payload frame. frameMessage payload = Inr frame \<and> prefix frame buffer"
    by (blast dest: parseFrame_ok_frame)
next
  assume "\<exists>payload frame. frameMessage payload = Inr frame \<and> prefix frame buffer"
  then obtain p rest where "length p \<le> unat kMaxPayloadSize"
    and "buffer = (be32 (of_nat (length p)) @ p) @ rest"
    by (auto simp: frameMessage_Inr prefix_def)
  then show "pr_ok (parseFrame buffer)" by (simp only: parseFrame_frame parse_result.simps)
qed

lemma buildAck_bytes: "buildAck c = be32 4 @ be32 c"
  by (simp add: buildAck_def writeBE32_def be32_def eval_nat_numeral)

text \<open>Acknowledgements round-trip, and \<open>parseAck\<close> accepts exactly the buffers that begin with
  an acknowledgement \<open>buildAck\<close> can produce, reading back its status code.\<close>

theorem ack_roundtrip:
  "parseAck (buildAck c @ rest) =
     \<lparr>pr_ok = True, pr_payload = [], pr_statusCode = c, pr_errorMessage = []\<rparr> \<and>
   (pr_ok (parseAck b) \<longleftrightarrow> prefix (buildAck (readBE32 b 4)) b)"
proof
  show "parseAck (buildAck c @ rest) =
     \<lparr>pr_ok = True, pr_payload = [], pr_statusCode = c, pr_errorMessage = []\<rparr>"
    by (simp add: buildAck_bytes parseAck_def parse_result_init_def readBE32_header readBE32_shift)
  have ok: "pr_ok (parseAck b) \<longleftrightarrow> 8 \<le> length b \<and> readBE32 b 0 = 4"
    by (auto simp: parseAck_def parse_result_init_def Let_def)
  have tail: "readBE32 b 4 = readBE32 (drop 4 b) 0" if "8 \<le> length b"
    using that by (simp add: readBE32_def)
  show "pr_ok (parseAck b) \<longleftrightarrow> prefix (buildAck (readBE32 b 4)) b"
  proof
    assume "pr_ok (parseAck b)"
    then have len: "8 \<le> length b" and four: "be32 4 = take 4 b"
      using be32_readBE32 [of b] by (auto simp: ok)
    have "be32 (readBE32 b 4) = take 4 (drop 4 b)"
      using len be32_readBE32 [of "drop 4 b"] by (simp add: tail)
    then have "buildAck (readBE32 b 4) = take (4 + 4) b"
      by (simp only: buildAck_bytes four take_add)
    then show "prefix (buildAck (readBE32 b 4)) b" by (simp only: take_is_prefix)
  next
    assume "prefix (buildAck (readBE32 b 4)) b"
    then obtain r where "b = be32 4 @ be32 (readBE32 b 4) @ r"
      by (auto simp: buildAck_bytes prefix_def)
    then have "8 \<le> length b \<and> readBE32 b 0 = 4"
      by (metis (no_types) length_append length_be32 readBE32_header le_add1 add.assoc numeral_Bit0)
    then show "pr_ok (parseAck b)" by (simp add: ok)
  qed
qed

end
