(* ===== verification/Sequence_Numbers.thy ===== *)
theory Sequence_Numbers
  imports Prelude
begin

text \<open>
  Sequence numbers of DC-to-DC replication: the per-shard generator on the source
  (\<^verbatim>\<open>SequenceNumberGenerator.cpp\<close>), the tracker of applied numbers on the target
  (\<^verbatim>\<open>SequenceNumberTracker.cpp\<close>) and the idempotency check built on the tracker
  (\<^verbatim>\<open>IdempotencyChecker.cpp\<close>).  The generator is shared by the tail threads, so beside its
  sequential operations the theory has its atomic steps as a relation over an arbitrary number
  of threads.
\<close>

section \<open>SequenceNumberGenerator\<close>

text \<open>The map holds \<open>shared_ptr\<close>s to atomic counters: a counter is a cell with an address, the
  map gives a shard's address.  A thread that has fetched the pointer keeps the cell alive even
  when the map is cleared.\<close>

record generator =
  gen_counters :: "string \<rightharpoonup> nat"
  gen_cells :: "nat \<Rightarrow> u64"
  gen_fresh :: nat

definition generator_init :: generator where
  "generator_init = \<lparr>gen_counters = Map.empty, gen_cells = (\<lambda>_. 0), gen_fresh = 0\<rparr>"

text \<open>The slow path: \<open>emplace\<close> under the write lock leaves an existing entry alone.\<close>

definition emplace_counter :: "generator \<Rightarrow> string \<Rightarrow> nat \<times> generator" where
  "emplace_counter g shardId =
     (case gen_counters g shardId of
        Some a \<Rightarrow> (a, g)
      | None \<Rightarrow> let a = gen_fresh g in
          (a, g\<lparr>gen_counters := (gen_counters g)(shardId \<mapsto> a),
                gen_cells := (gen_cells g)(a := 0), gen_fresh := Suc a\<rparr>))"

definition getOrCreate :: "generator \<Rightarrow> string \<Rightarrow> nat \<times> generator" where
  "getOrCreate g shardId =
     (case gen_counters g shardId of
        Some a \<Rightarrow> (a, g)
      | None \<Rightarrow> emplace_counter g shardId)"

definition fetch_add :: "generator \<Rightarrow> nat \<Rightarrow> u64 \<times> generator" where
  "fetch_add g a = (gen_cells g a, g\<lparr>gen_cells := (gen_cells g)(a := gen_cells g a + 1)\<rparr>)"

definition nextSequence :: "generator \<Rightarrow> string \<Rightarrow> u64 \<times> generator" where
  "nextSequence g shardId =
     (let (a, g1) = getOrCreate g shardId;
          (old, g2) = fetch_add g1 a
      in (old + 1, g2))"

definition currentSequence :: "generator \<Rightarrow> string \<Rightarrow> u64" where
  "currentSequence g shardId =
     (case gen_counters g shardId of None \<Rightarrow> 0 | Some a \<Rightarrow> gen_cells g a)"

definition generator_reset :: "generator \<Rightarrow> generator" where
  "generator_reset g = g\<lparr>gen_counters := Map.empty\<rparr>"

section \<open>Concurrent calls of nextSequence\<close>

text \<open>Where a thread is inside \<open>nextSequence\<close>: outside; past the fast path, which missed; or
  holding the counter of a shard.  \<open>issued\<close> is the history of returned numbers.\<close>

datatype gen_pc = GIdle | GSlow string | GHave string nat

record gen_sys =
  sys_gen :: generator
  sys_pc :: "nat \<Rightarrow> gen_pc"
  sys_issued :: "(string \<times> nat \<times> u64) list"

definition gen_sys_init :: gen_sys where
  "gen_sys_init = \<lparr>sys_gen = generator_init, sys_pc = (\<lambda>_. GIdle), sys_issued = []\<rparr>"

inductive gen_step :: "gen_sys \<Rightarrow> gen_sys \<Rightarrow> bool" where
  fast_hit: "sys_pc \<sigma> t = GIdle \<Longrightarrow> gen_counters (sys_gen \<sigma>) s = Some a \<Longrightarrow>
     gen_step \<sigma> (\<sigma>\<lparr>sys_pc := (sys_pc \<sigma>)(t := GHave s a)\<rparr>)"
| fast_miss: "sys_pc \<sigma> t = GIdle \<Longrightarrow> gen_counters (sys_gen \<sigma>) s = None \<Longrightarrow>
     gen_step \<sigma> (\<sigma>\<lparr>sys_pc := (sys_pc \<sigma>)(t := GSlow s)\<rparr>)"
| slow_path: "sys_pc \<sigma> t = GSlow s \<Longrightarrow> emplace_counter (sys_gen \<sigma>) s = (a, g') \<Longrightarrow>
     gen_step \<sigma> (\<sigma>\<lparr>sys_pc := (sys_pc \<sigma>)(t := GHave s a), sys_gen := g'\<rparr>)"
| increment: "sys_pc \<sigma> t = GHave s a \<Longrightarrow> fetch_add (sys_gen \<sigma>) a = (old, g') \<Longrightarrow>
     gen_step \<sigma> (\<sigma>\<lparr>sys_pc := (sys_pc \<sigma>)(t := GIdle), sys_gen := g',
                    sys_issued := sys_issued \<sigma> @ [(s, a, old + 1)]\<rparr>)"

text \<open>Reachable states; \<open>gen_reach False\<close> is the runs in which nobody calls \<open>reset\<close>.\<close>

inductive gen_reach :: "bool \<Rightarrow> gen_sys \<Rightarrow> bool" where
  start: "gen_reach r gen_sys_init"
| step: "gen_reach r \<sigma> \<Longrightarrow> gen_step \<sigma> \<sigma>' \<Longrightarrow> gen_reach r \<sigma>'"
| reset: "gen_reach True \<sigma> \<Longrightarrow> gen_reach True (\<sigma>\<lparr>sys_gen := generator_reset (sys_gen \<sigma>)\<rparr>)"

definition issued_by :: "gen_sys \<Rightarrow> nat \<Rightarrow> u64 list" where
  "issued_by \<sigma> a = [v. (s, a', v) \<leftarrow> sys_issued \<sigma>, a' = a]"

definition issued_for :: "gen_sys \<Rightarrow> string \<Rightarrow> u64 list" where
  "issued_for \<sigma> s = [v. (s', a, v) \<leftarrow> sys_issued \<sigma>, s' = s]"

text \<open>\<open>count_up n\<close> is \<open>1, 2, \<dots>, n\<close> as 64-bit words.\<close>

definition count_up :: "nat \<Rightarrow> u64 list" where
  "count_up n = map word_of_nat [1..<Suc n]"

lemma count_up_Suc: "count_up (Suc n) = count_up n @ [word_of_nat n + 1]"
  by (simp add: count_up_def add.commute)

lemma length_count_up [simp]: "length (count_up n) = n"
  by (simp add: count_up_def)

lemma distinct_count_up: "n < 2 ^ 64 \<Longrightarrow> distinct (count_up n)"
  by (auto simp: count_up_def distinct_map inj_on_def word_of_nat_eq_iff take_bit_nat_eq_self)

subsection \<open>The invariant of concurrent generation\<close>

text \<open>Every cell has issued \<open>1, \<dots>, n\<close> and holds \<open>n\<close>; addresses in use are allocated, and
  an unallocated address has issued nothing.\<close>

definition cell_inv :: "gen_sys \<Rightarrow> bool" where
  "cell_inv \<sigma> \<longleftrightarrow>
     (\<forall>a < gen_fresh (sys_gen \<sigma>). issued_by \<sigma> a = count_up (length (issued_by \<sigma> a)) \<and>
          gen_cells (sys_gen \<sigma>) a = word_of_nat (length (issued_by \<sigma> a))) \<and>
     (\<forall>a \<ge> gen_fresh (sys_gen \<sigma>). issued_by \<sigma> a = []) \<and>
     (\<forall>s a. gen_counters (sys_gen \<sigma>) s = Some a \<longrightarrow> a < gen_fresh (sys_gen \<sigma>)) \<and>
     (\<forall>t s a. sys_pc \<sigma> t = GHave s a \<longrightarrow> a < gen_fresh (sys_gen \<sigma>))"

text \<open>Without resets a shard keeps one cell, and no two shards share one.\<close>

definition shard_inv :: "gen_sys \<Rightarrow> bool" where
  "shard_inv \<sigma> \<longleftrightarrow>
     (\<forall>s a v. (s, a, v) \<in> set (sys_issued \<sigma>) \<longrightarrow> gen_counters (sys_gen \<sigma>) s = Some a) \<and>
     (\<forall>t s a. sys_pc \<sigma> t = GHave s a \<longrightarrow> gen_counters (sys_gen \<sigma>) s = Some a) \<and>
     (\<forall>s s' a. gen_counters (sys_gen \<sigma>) s = Some a \<longrightarrow> gen_counters (sys_gen \<sigma>) s' = Some a \<longrightarrow> s = s')"

lemma issued_by_frame [simp]:
  "issued_by (\<sigma>\<lparr>sys_pc := p\<rparr>) a = issued_by \<sigma> a"
  "issued_by (\<sigma>\<lparr>sys_gen := g\<rparr>) a = issued_by \<sigma> a"
  "issued_by (\<sigma>\<lparr>sys_pc := p, sys_gen := g\<rparr>) a = issued_by \<sigma> a"
  by (simp_all add: issued_by_def)

lemma issued_by_snoc [simp]:
  "issued_by (\<sigma>\<lparr>sys_pc := p, sys_gen := g, sys_issued := sys_issued \<sigma> @ [(s, a', v)]\<rparr>) a =
     issued_by \<sigma> a @ (if a' = a then [v] else [])"
  by (simp add: issued_by_def)

lemma cell_inv_init: "cell_inv gen_sys_init"
  by (simp add: cell_inv_def gen_sys_init_def generator_init_def issued_by_def)

lemma emplace_counter_cases:
  assumes "emplace_counter g s = (a, g')"
  obtains "gen_counters g s = Some a" "g' = g"
  | "gen_counters g s = None" "a = gen_fresh g"
    "g' = g\<lparr>gen_counters := (gen_counters g)(s \<mapsto> a), gen_cells := (gen_cells g)(a := 0),
           gen_fresh := Suc a\<rparr>"
  using assms by (auto simp: emplace_counter_def Let_def split: option.splits)

lemma cell_inv_step: "gen_step \<sigma> \<sigma>' \<Longrightarrow> cell_inv \<sigma> \<Longrightarrow> cell_inv \<sigma>'"
proof (induction rule: gen_step.induct)
  case (slow_path \<sigma> t s a g')
  from slow_path.hyps(2) show ?case
    by (rule emplace_counter_cases)
       (use slow_path.prems in \<open>auto simp: cell_inv_def less_Suc_eq count_up_def
          intro: less_SucI split: if_splits\<close>)
next
  case (increment \<sigma> t s a old g')
  from increment.prems increment.hyps(1) have a: "a < gen_fresh (sys_gen \<sigma>)"
    and iss: "issued_by \<sigma> a = count_up (length (issued_by \<sigma> a))"
    and old: "gen_cells (sys_gen \<sigma>) a = word_of_nat (length (issued_by \<sigma> a))"
    by (auto simp: cell_inv_def)
  from increment.hyps(2) have g': "old = gen_cells (sys_gen \<sigma>) a"
    "g' = (sys_gen \<sigma>)\<lparr>gen_cells := (gen_cells (sys_gen \<sigma>))(a := gen_cells (sys_gen \<sigma>) a + 1)\<rparr>"
    by (auto simp: fetch_add_def)
  have new: "issued_by \<sigma> a @ [old + 1] = count_up (Suc (length (issued_by \<sigma> a)))"
    using iss by (simp add: count_up_Suc g' old)
  show ?case
    using increment.prems a new old
    by (auto simp: cell_inv_def g' add.commute)
qed (auto simp: cell_inv_def)

lemma cell_inv_reach: "gen_reach r \<sigma> \<Longrightarrow> cell_inv \<sigma>"
proof (induction rule: gen_reach.induct)
  case (reset \<sigma>)
  then show ?case by (auto simp: cell_inv_def generator_reset_def)
qed (auto intro: cell_inv_init cell_inv_step)

lemma shard_inv_step: "gen_step \<sigma> \<sigma>' \<Longrightarrow> cell_inv \<sigma> \<Longrightarrow> shard_inv \<sigma> \<Longrightarrow> shard_inv \<sigma>'"
proof (induction rule: gen_step.induct)
  case (slow_path \<sigma> t s a g')
  from slow_path.hyps(2) show ?case
  proof (rule emplace_counter_cases)
    assume "gen_counters (sys_gen \<sigma>) s = Some a" "g' = sys_gen \<sigma>"
    with slow_path.prems(2) show ?thesis by (auto simp: shard_inv_def)
  next
    assume n: "gen_counters (sys_gen \<sigma>) s = None" and a: "a = gen_fresh (sys_gen \<sigma>)"
      and g': "g' = (sys_gen \<sigma>)\<lparr>gen_counters := (gen_counters (sys_gen \<sigma>))(s \<mapsto> a),
        gen_cells := (gen_cells (sys_gen \<sigma>))(a := 0), gen_fresh := Suc a\<rparr>"
    have "gen_counters (sys_gen \<sigma>) s' \<noteq> Some a" for s'
      using slow_path.prems(1) by (auto simp: cell_inv_def a)
    with slow_path.prems(2) n show ?thesis
      by (force simp: shard_inv_def g')
  qed
next
  case (increment \<sigma> t s a old g')
  then show ?case by (clarsimp simp: shard_inv_def fetch_add_def)
qed (auto simp: shard_inv_def)

lemma shard_inv_reach: "gen_reach r \<sigma> \<Longrightarrow> \<not> r \<Longrightarrow> cell_inv \<sigma> \<and> shard_inv \<sigma>"
proof (induction rule: gen_reach.induct)
  case (start r)
  then show ?case
    by (simp add: cell_inv_init) (simp add: shard_inv_def gen_sys_init_def generator_init_def)
next
  case (step r \<sigma> \<sigma>')
  then show ?case by (blast intro: cell_inv_step shard_inv_step)
qed simp

lemma issued_for_by:
  assumes "shard_inv \<sigma>" and "gen_counters (sys_gen \<sigma>) s = Some a"
  shows "issued_for \<sigma> s = issued_by \<sigma> a"
proof -
  have "s' = s \<longleftrightarrow> a' = a" if "(s', a', v) \<in> set (sys_issued \<sigma>)" for s' a' v
    using assms that unfolding shard_inv_def by (metis option.inject)
  then have "[v. (s', a', v) \<leftarrow> iss, s' = s] = [v. (s', a', v) \<leftarrow> iss, a' = a]"
    if "set iss \<subseteq> set (sys_issued \<sigma>)" for iss
    using that by (induction iss) auto
  then show ?thesis by (simp add: issued_for_def issued_by_def)
qed

lemma issued_for_unknown:
  assumes "shard_inv \<sigma>" and "gen_counters (sys_gen \<sigma>) s = None"
  shows "issued_for \<sigma> s = []"
  using assms by (force simp: issued_for_def shard_inv_def)

lemma issued_counts_up:
  assumes "gen_reach False \<sigma>"
  shows "issued_for \<sigma> s = count_up (length (issued_for \<sigma> s)) \<and>
         currentSequence (sys_gen \<sigma>) s = word_of_nat (length (issued_for \<sigma> s))"
proof (cases "gen_counters (sys_gen \<sigma>) s")
  case None
  then show ?thesis
    using shard_inv_reach [OF assms]
    by (simp add: issued_for_unknown currentSequence_def count_up_def)
next
  case (Some a)
  then show ?thesis
    using shard_inv_reach [OF assms]
    by (auto simp: issued_for_by currentSequence_def cell_inv_def)
qed

section \<open>SequenceNumberTracker\<close>

text \<open>The tracker's map is iterated when a checkpoint is written, so it is an association list
  with distinct keys whose order stands for the iteration order of the \<open>unordered_map\<close>.\<close>

type_synonym tracker = "(string \<times> u64) list"

definition isAlreadyApplied :: "tracker \<Rightarrow> string \<Rightarrow> u64 \<Rightarrow> bool" where
  "isAlreadyApplied tr shardId seq =
     (case map_of tr shardId of None \<Rightarrow> False | Some l \<Rightarrow> seq \<le> l)"

definition markApplied :: "tracker \<Rightarrow> string \<Rightarrow> u64 \<Rightarrow> tracker" where
  "markApplied tr shardId seq =
     (case map_of tr shardId of
        None \<Rightarrow> AList.update shardId seq tr
      | Some l \<Rightarrow> AList.update shardId (max l seq) tr)"

definition lastAppliedSequence :: "tracker \<Rightarrow> string \<Rightarrow> u64" where
  "lastAppliedSequence tr shardId = (case map_of tr shardId of None \<Rightarrow> 0 | Some l \<Rightarrow> l)"

definition getState :: "tracker \<Rightarrow> (string \<times> u64) list" where
  "getState tr = tr"

definition restoreState :: "(string \<times> u64) list \<Rightarrow> tracker \<Rightarrow> tracker" where
  "restoreState state tr = state"

definition tracker_reset :: "tracker \<Rightarrow> tracker" where
  "tracker_reset tr = []"

definition tracker_ok :: "tracker \<Rightarrow> bool" where
  "tracker_ok tr \<longleftrightarrow> distinct (map fst tr)"

lemma markApplied_ok: "tracker_ok tr \<Longrightarrow> tracker_ok (markApplied tr s q)"
  by (auto simp: markApplied_def tracker_ok_def distinct_update split: option.splits)

section \<open>The tracker's contract, and IdempotencyChecker over it\<close>

datatype operation = Insert | Update | Delete

record direct_message =
  shard_id :: string
  msg_sequence :: u64
  msg_operation :: operation
  msg_payload :: bytes

datatype check_result = Accept | Reject | OutOfOrder

text \<open>The checker holds a reference to a tracker and calls two of its queries; they are the first
  two arguments here.\<close>

definition check_with ::
  "('t \<Rightarrow> string \<Rightarrow> u64 \<Rightarrow> bool) \<Rightarrow> ('t \<Rightarrow> string \<Rightarrow> u64) \<Rightarrow> 't \<Rightarrow> direct_message \<Rightarrow> check_result" where
  "check_with applied lastSeq tr msg =
     (if applied tr (shard_id msg) (msg_sequence msg) then Reject
      else let lastApplied = lastSeq tr (shard_id msg);
               expectedNext = lastApplied + 1
           in if msg_sequence msg > expectedNext then OutOfOrder else Accept)"

definition accept_with :: "('t \<Rightarrow> string \<Rightarrow> u64 \<Rightarrow> 't) \<Rightarrow> 't \<Rightarrow> direct_message \<Rightarrow> 't" where
  "accept_with mark tr msg = mark tr (shard_id msg) (msg_sequence msg)"

definition IdempotencyChecker_check :: "tracker \<Rightarrow> direct_message \<Rightarrow> check_result" where
  "IdempotencyChecker_check = check_with isAlreadyApplied lastAppliedSequence"

definition IdempotencyChecker_accept :: "tracker \<Rightarrow> direct_message \<Rightarrow> tracker" where
  "IdempotencyChecker_accept = accept_with markApplied"

text \<open>The usage the class documents: apply and accept on \<open>Accept\<close> and on \<open>OutOfOrder\<close>.  The
  result is the tracker and the messages applied, in order.\<close>

fun replay_with ::
  "('t \<Rightarrow> direct_message \<Rightarrow> check_result) \<Rightarrow> ('t \<Rightarrow> direct_message \<Rightarrow> 't) \<Rightarrow>
   't \<Rightarrow> direct_message list \<Rightarrow> 't \<times> direct_message list" where
  "replay_with check acc tr [] = (tr, [])"
| "replay_with check acc tr (m # ms) =
     (let result = check tr m in
      if result = Accept \<or> result = OutOfOrder
      then let (tr', out) = replay_with check acc (acc tr m) ms in (tr', m # out)
      else replay_with check acc tr ms)"

definition replay :: "tracker \<Rightarrow> direct_message list \<Rightarrow> tracker \<times> direct_message list" where
  "replay = replay_with IdempotencyChecker_check IdempotencyChecker_accept"

text \<open>What the checker relies on: marking takes the maximum for its shard and leaves the others
  alone, and a positive number is applied exactly when it is at most the last one.\<close>

locale sequence_tracker =
  fixes applied :: "'t \<Rightarrow> string \<Rightarrow> u64 \<Rightarrow> bool"
    and lastSeq :: "'t \<Rightarrow> string \<Rightarrow> u64"
    and mark :: "'t \<Rightarrow> string \<Rightarrow> u64 \<Rightarrow> 't"
  assumes last_mark: "lastSeq (mark t s q) s' = (if s' = s then max (lastSeq t s) q else lastSeq t s')"
    and applied_iff: "0 < q \<Longrightarrow> applied t s q \<longleftrightarrow> q \<le> lastSeq t s"
begin

lemma check_cases:
  "0 < msg_sequence m \<Longrightarrow>
     check_with applied lastSeq t m =
       (if msg_sequence m \<le> lastSeq t (shard_id m) then Reject
        else if msg_sequence m = lastSeq t (shard_id m) + 1 then Accept else OutOfOrder)"
proof -
  assume pos: "0 < msg_sequence m"
  show ?thesis
  proof (cases "msg_sequence m \<le> lastSeq t (shard_id m)")
    case True
    then show ?thesis by (simp add: check_with_def applied_iff [OF pos])
  next
    case False
    then have "lastSeq t (shard_id m) + 1 \<le> msg_sequence m"
      by (simp add: inc_le not_le)
    with False show ?thesis
      by (auto simp: check_with_def applied_iff [OF pos] Let_def)
  qed
qed

lemma last_accept:
  "lastSeq (accept_with mark t m) s =
     (if s = shard_id m then max (lastSeq t s) (msg_sequence m) else lastSeq t s)"
  by (simp add: accept_with_def last_mark)

abbreviation run where
  "run \<equiv> replay_with (check_with applied lastSeq) (accept_with mark)"

abbreviation seqs where
  "seqs s ms \<equiv> [msg_sequence m. m \<leftarrow> ms, shard_id m = s]"

text \<open>Whatever arrives, in whatever order and however often, what is applied is strictly
  increasing in each shard and above what the tracker had.\<close>

lemma run_increasing:
  "\<forall>m \<in> set ms. 0 < msg_sequence m \<Longrightarrow>
     sorted_wrt (<) (lastSeq t s # seqs s (snd (run t ms)))"
proof (induction ms arbitrary: t)
  case Nil
  then show ?case by simp
next
  case (Cons m ms)
  let ?t = "accept_with mark t m"
  have IH: "sorted_wrt (<) (lastSeq u s # seqs s (snd (run u ms)))" for u
    using Cons by simp
  show ?case
  proof (cases "check_with applied lastSeq t m = Reject")
    case True
    then show ?thesis using IH [of t] by simp
  next
    case False
    then have run: "snd (run t (m # ms)) = m # snd (run ?t ms)"
      by (cases "check_with applied lastSeq t m") (auto simp: Let_def split_beta)
    have new: "lastSeq t (shard_id m) < msg_sequence m"
      using False Cons.prems by (auto simp: check_cases split: if_splits)
    show ?thesis
      unfolding run using IH [of ?t] new by (force simp: last_accept max_def split: if_splits intro: less_trans)
  qed
qed

lemma rejected_after_accept:
  "shard_id m' = shard_id m \<Longrightarrow> 0 < msg_sequence m' \<Longrightarrow> msg_sequence m' \<le> msg_sequence m \<Longrightarrow>
     check_with applied lastSeq (accept_with mark t m) m' = Reject"
  by (simp add: check_cases last_accept max.coboundedI2)

end

interpretation tracker: sequence_tracker isAlreadyApplied lastAppliedSequence markApplied
proof unfold_locales
  show "lastAppliedSequence (markApplied t s q) s' =
      (if s' = s then max (lastAppliedSequence t s) q else lastAppliedSequence t s')" for t s q s'
    by (auto simp: lastAppliedSequence_def markApplied_def max_def split: option.splits)
  show "isAlreadyApplied t s q \<longleftrightarrow> q \<le> lastAppliedSequence t s" if "0 < q" for t s q
    using that by (auto simp: isAlreadyApplied_def lastAppliedSequence_def split: option.splits)
qed

lemmas checker_defs = IdempotencyChecker_check_def IdempotencyChecker_accept_def replay_def

lemma in_count_up:
  assumes "n < 2 ^ 64" shows "k \<in> set (count_up n) \<longleftrightarrow> 0 < k \<and> unat k \<le> n"
proof
  assume "k \<in> set (count_up n)"
  then obtain i where i: "1 \<le> i" "i \<le> n" "k = word_of_nat i" by (auto simp: count_up_def)
  then have "unat k = i" using assms by (simp add: unsigned_of_nat take_bit_nat_eq_self)
  then show "0 < k \<and> unat k \<le> n" using i by (simp add: word_less_nat_alt)
next
  assume k: "0 < k \<and> unat k \<le> n"
  then have "unat k \<in> set [1..<Suc n]" by (auto simp: word_less_nat_alt)
  moreover have "k = word_of_nat (unat k)" by simp
  ultimately show "k \<in> set (count_up n)" unfolding count_up_def by (metis image_eqI list.set_map)
qed

lemma replay_append:
  "replay tr (ms @ ms') =
     (let (tr1, out) = replay tr ms; (tr2, out') = replay tr1 ms' in (tr2, out @ out'))"
proof (induction ms arbitrary: tr)
  case (Cons m ms)
  show ?case
    by (simp add: replay_def Let_def split_beta Cons [unfolded replay_def Let_def split_beta])
qed (simp add: replay_def)

text \<open>The tracker keeps one entry for each shard, and only for shards of messages it saw.\<close>

lemma markApplied_keys: "fst ` set (markApplied tr s q) = insert s (fst ` set tr)"
  by (auto simp: markApplied_def dom_update image_iff split: option.splits simp flip: dom_map_of_conv_image_fst)

lemma replay_tracker:
  "tracker_ok tr \<Longrightarrow> tracker_ok (fst (replay tr ms)) \<and> fst ` set (fst (replay tr ms)) \<subseteq> fst ` set tr \<union> shard_id ` set ms"
proof (induction ms arbitrary: tr)
  case (Cons m ms)
  have ok: "tracker_ok (IdempotencyChecker_accept tr m)"
    using Cons.prems by (simp add: IdempotencyChecker_accept_def accept_with_def markApplied_ok)
  have keys: "fst ` set (IdempotencyChecker_accept tr m) = insert (shard_id m) (fst ` set tr)"
    by (simp add: IdempotencyChecker_accept_def accept_with_def markApplied_keys)
  show ?case
  proof (cases "IdempotencyChecker_check tr m = Reject")
    case True
    then have "fst (replay tr (m # ms)) = fst (replay tr ms)" by (simp add: replay_def)
    then show ?thesis using Cons.IH [OF Cons.prems] by auto
  next
    case False
    then have "IdempotencyChecker_check tr m = Accept \<or> IdempotencyChecker_check tr m = OutOfOrder"
      by (cases "IdempotencyChecker_check tr m") auto
    then have "fst (replay tr (m # ms)) = fst (replay (IdempotencyChecker_accept tr m) ms)"
      by (auto simp: replay_def Let_def split_beta)
    then show ?thesis using Cons.IH [OF ok] keys by auto
  qed
qed (simp add: replay_def)

section \<open>Properties\<close>

text \<open>C8. Under every interleaving of any number of threads calling \<open>nextSequence\<close> (fast path,
  slow path and increment as separate atomic steps, nobody resetting), the numbers a shard has
  been given are \<open>1, 2, \<dots>, n\<close> in the order of the increments: no number is lost or given twice,
  also when several threads create the shard's counter at the same time; and
  \<open>currentSequence\<close> reads the last one.\<close>

theorem concurrent_sequences_gap_free:
  assumes "gen_reach False \<sigma>"
  shows "issued_for \<sigma> s = count_up (length (issued_for \<sigma> s)) \<and>
         currentSequence (sys_gen \<sigma>) s = word_of_nat (length (issued_for \<sigma> s)) \<and>
         (length (issued_for \<sigma> s) < 2 ^ 64 \<longrightarrow> distinct (issued_for \<sigma> s))"
  using issued_counts_up [OF assms, of s] by (metis distinct_count_up)

text \<open>Two threads race to create the counter of one shard: both miss the fast path, both take the
  slow path and share the cell that the first one allocated.\<close>

definition race_run :: gen_sys where
  "race_run = \<lparr>sys_gen = \<lparr>gen_counters = [''s'' \<mapsto> 0], gen_cells = (\<lambda>_. 0)(0 := 2), gen_fresh = 1\<rparr>,
               sys_pc = (\<lambda>_. GIdle), sys_issued = [(''s'', 0, 1), (''s'', 0, 2)]\<rparr>"

lemma race_reachable: "gen_reach False race_run"
proof -
  let ?s = "''s''"
  let ?g0 = generator_init
  let ?g1 = "\<lparr>gen_counters = [?s \<mapsto> 0], gen_cells = (\<lambda>_. 0), gen_fresh = 1\<rparr> :: generator"
  let ?g2 = "?g1\<lparr>gen_cells := (\<lambda>_. 0)(0 := 1)\<rparr>"
  let ?g3 = "?g1\<lparr>gen_cells := (\<lambda>_. 0)(0 := 2)\<rparr>"
  let ?S = "\<lambda>g p i. \<lparr>sys_gen = g, sys_pc = p, sys_issued = i\<rparr>"
  let ?p = "\<lambda>a b. ((\<lambda>_. GIdle)(0 := a, 1 := b)) :: nat \<Rightarrow> gen_pc"
  have zero: "(\<lambda>_. 0 :: u64)(0 := 0) = (\<lambda>_. 0)" by auto
  have "gen_reach False gen_sys_init" by (rule gen_reach.start)
  moreover have "gen_step gen_sys_init (?S ?g0 (?p (GSlow ?s) GIdle) [])"
    using fast_miss [of gen_sys_init 0 ?s] by (simp add: gen_sys_init_def generator_init_def fun_upd_idem)
  ultimately have 1: "gen_reach False (?S ?g0 (?p (GSlow ?s) GIdle) [])" by (rule gen_reach.step)
  have "gen_step (?S ?g0 (?p (GSlow ?s) GIdle) []) (?S ?g0 (?p (GSlow ?s) (GSlow ?s)) [])"
    using fast_miss [of "?S ?g0 (?p (GSlow ?s) GIdle) []" 1 ?s] by (simp add: generator_init_def)
  with 1 have 2: "gen_reach False (?S ?g0 (?p (GSlow ?s) (GSlow ?s)) [])" by (rule gen_reach.step)
  have "gen_step (?S ?g0 (?p (GSlow ?s) (GSlow ?s)) []) (?S ?g1 (?p (GHave ?s 0) (GSlow ?s)) [])"
    using slow_path [of "?S ?g0 (?p (GSlow ?s) (GSlow ?s)) []" 0 ?s 0 ?g1]
    by (simp add: generator_init_def emplace_counter_def fun_upd_twist zero)
  with 2 have 3: "gen_reach False (?S ?g1 (?p (GHave ?s 0) (GSlow ?s)) [])" by (rule gen_reach.step)
  have "gen_step (?S ?g1 (?p (GHave ?s 0) (GSlow ?s)) []) (?S ?g1 (?p (GHave ?s 0) (GHave ?s 0)) [])"
    using slow_path [of "?S ?g1 (?p (GHave ?s 0) (GSlow ?s)) []" 1 ?s 0 ?g1]
    by (simp add: emplace_counter_def)
  with 3 have 4: "gen_reach False (?S ?g1 (?p (GHave ?s 0) (GHave ?s 0)) [])" by (rule gen_reach.step)
  have "gen_step (?S ?g1 (?p (GHave ?s 0) (GHave ?s 0)) []) (?S ?g2 (?p GIdle (GHave ?s 0)) [(?s, 0, 1)])"
    using increment [of "?S ?g1 (?p (GHave ?s 0) (GHave ?s 0)) []" 0 ?s 0 0 ?g2]
    by (simp add: fetch_add_def fun_upd_twist)
  with 4 have 5: "gen_reach False (?S ?g2 (?p GIdle (GHave ?s 0)) [(?s, 0, 1)])" by (rule gen_reach.step)
  have "gen_step (?S ?g2 (?p GIdle (GHave ?s 0)) [(?s, 0, 1)]) race_run"
    using increment [of "?S ?g2 (?p GIdle (GHave ?s 0)) [(?s, 0, 1)]" 1 ?s 0 1 ?g3]
    by (simp add: fetch_add_def race_run_def fun_upd_idem)
  with 5 show ?thesis by (rule gen_reach.step)
qed

lemma concurrent_sequences_gap_free_witness:
  "gen_reach False race_run \<and> issued_for race_run ''s'' = [1, 2] \<and>
   issued_for race_run ''s'' = count_up (length (issued_for race_run ''s'')) \<and>
   currentSequence (sys_gen race_run) ''s'' = 2 \<and> distinct (issued_for race_run ''s'')"
proof -
  have i: "issued_for race_run ''s'' = [1, 2]" by (simp add: race_run_def issued_for_def)
  have len: "length (issued_for race_run ''s'') = 2" by (simp add: i)
  note claim = concurrent_sequences_gap_free [OF race_reachable, of "''s''"]
  from claim len have "currentSequence (sys_gen race_run) ''s'' = 2" by simp
  moreover have "distinct (issued_for race_run ''s'')" by (simp add: i)
  ultimately show ?thesis using race_reachable i claim by blast
qed

text \<open>Replaying any stream of messages through the checker, with duplicates and reorderings,
  applies in each shard a strictly increasing run of sequence numbers above the tracker's last
  one: no message is applied twice.\<close>

theorem replay_applies_increasing:
  assumes "\<forall>m \<in> set ms. 0 < msg_sequence m"
  shows "sorted_wrt (<)
    (lastAppliedSequence tr s # [msg_sequence m. m \<leftarrow> snd (replay tr ms), shard_id m = s])"
  unfolding checker_defs by (rule tracker.run_increasing [OF assms])

lemma replay_applies_increasing_witness:
  "let m = (\<lambda>q. \<lparr>shard_id = ''s'', msg_sequence = q, msg_operation = Insert, msg_payload = []\<rparr>);
       out = snd (replay [] [m 1, m 2, m 1, m 4, m 3, m 5])
   in map msg_sequence out = [1, 2, 4, 5] \<and>
      sorted_wrt (<) (lastAppliedSequence [] ''s'' # [msg_sequence m. m \<leftarrow> out, shard_id m = ''s''])"
proof -
  let ?m = "\<lambda>q. \<lparr>shard_id = ''s'', msg_sequence = q, msg_operation = Insert, msg_payload = []\<rparr>"
  let ?ms = "[?m 1, ?m 2, ?m 1, ?m 4, ?m 3, ?m 5]"
  have pos: "\<forall>m \<in> set ?ms. 0 < msg_sequence m" by simp
  have "map msg_sequence (snd (replay [] ?ms)) = [1, 2, 4, 5]"
    by (simp add: checker_defs check_with_def accept_with_def isAlreadyApplied_def
        lastAppliedSequence_def markApplied_def max_def word_le_nat_alt word_less_nat_alt)
  with replay_applies_increasing [OF pos, of "[]" "''s''"] show ?thesis
    by (simp add: Let_def)
qed

text \<open>Accepting a message that arrived ahead of a gap, which the documented usage does, makes
  every message of the gap a duplicate: whatever is still missing below it can no longer be
  applied.\<close>

theorem accept_closes_gap:
  assumes "shard_id m' = shard_id m" and "0 < msg_sequence m'" and "msg_sequence m' \<le> msg_sequence m"
  shows "IdempotencyChecker_check (IdempotencyChecker_accept tr m) m' = Reject"
  unfolding checker_defs by (rule tracker.rejected_after_accept [OF assms])

lemma accept_closes_gap_witness:
  "let m = (\<lambda>q. \<lparr>shard_id = ''s'', msg_sequence = q, msg_operation = Insert, msg_payload = []\<rparr>)
   in IdempotencyChecker_check [(''s'', 1)] (m 2) = Accept \<and>
      IdempotencyChecker_check [(''s'', 1)] (m 3) = OutOfOrder \<and>
      IdempotencyChecker_check (IdempotencyChecker_accept [(''s'', 1)] (m 3)) (m 2) = Reject"
proof -
  let ?m = "\<lambda>q. \<lparr>shard_id = ''s'', msg_sequence = q, msg_operation = Insert, msg_payload = []\<rparr>"
  have "IdempotencyChecker_check [(''s'', 1)] (?m 2) = Accept \<and>
      IdempotencyChecker_check [(''s'', 1)] (?m 3) = OutOfOrder"
    by (simp add: checker_defs check_with_def isAlreadyApplied_def lastAppliedSequence_def
        word_le_nat_alt word_less_nat_alt)
  with accept_closes_gap [of "?m 2" "?m 3" "[(''s'', 1)]"] show ?thesis
    by (simp add: Let_def)
qed

end
