(* ===== verification/Replication_Applier.thy ===== *)
theory Replication_Applier
  imports Sequence_Numbers
begin

text \<open>
  The target side of DC-to-DC replication
  (\<^verbatim>\<open>Enterprise/Replication/ReplicationApplier.cpp\<close>): duplicates are dropped, messages
  ahead of a gap are buffered and drained when the gap closes.  Every public operation runs under
  one mutex, so a run is a sequence of operations.  The write callback is an argument that threads
  a state of its own (\<open>ap_world\<close>) and answers a return code; the satellite check is a
  predicate.  \<open>ap_written\<close> is a history variable: the messages whose write returned 0, in
  order.
\<close>

section \<open>Data\<close>

datatype replication_operation = INSERT | UPDATE | REMOVE | TRUNCATE

record apply_message =
  am_shardId :: string
  am_sequence :: u64
  am_operation :: replication_operation
  am_payload :: bytes
  am_documentKey :: string
  am_documentRev :: string

type_synonym 'w write_callback =
  "'w \<Rightarrow> string \<Rightarrow> replication_operation \<Rightarrow> bytes \<Rightarrow> string \<Rightarrow> int \<times> 'w"

type_synonym shard_buffer = "(u64 \<times> apply_message) list"

record 'w applier =
  ap_lastApplied :: "string \<rightharpoonup> u64"
  ap_buffer :: "(string \<times> shard_buffer) list"
  ap_totalApplied :: u64
  ap_totalDuplicates :: u64
  ap_totalSatelliteSkipped :: u64
  ap_world :: 'w
  ap_written :: "apply_message list"

definition applier_init :: "'w \<Rightarrow> 'w applier" where
  "applier_init w = \<lparr>ap_lastApplied = Map.empty, ap_buffer = [], ap_totalApplied = 0,
     ap_totalDuplicates = 0, ap_totalSatelliteSkipped = 0, ap_world = w, ap_written = []\<rparr>"

section \<open>Operations\<close>

definition applier_lastAppliedSequence :: "'w applier \<Rightarrow> string \<Rightarrow> u64" where
  "applier_lastAppliedSequence st shardId =
     (case ap_lastApplied st shardId of None \<Rightarrow> 0 | Some l \<Rightarrow> l)"

definition bufferedCount :: "'w applier \<Rightarrow> u64" where
  "bufferedCount st = foldl (\<lambda>count (shard, buf). count + of_nat (length buf)) 0 (ap_buffer st)"

text \<open>A write: the callback's answer, and the message in the history when it succeeded.\<close>

definition call_write :: "'w write_callback \<Rightarrow> 'w applier \<Rightarrow> apply_message \<Rightarrow> int \<times> 'w applier" where
  "call_write wcb st msg =
     (let (rc, w) = wcb (ap_world st) (am_shardId msg) (am_operation msg) (am_payload msg)
                        (am_documentKey msg)
      in (rc, if rc = 0 then st\<lparr>ap_world := w, ap_written := ap_written st @ [msg]\<rparr>
              else st\<lparr>ap_world := w\<rparr>))"

lemma length_delete_less:
  "map_of al k = Some v \<Longrightarrow> length (AList.delete k al) < length al"
proof (induction al)
  case (Cons x al)
  then show ?case using length_delete_le [of k al] by (cases x) (auto split: if_splits)
qed simp

text \<open>The loop of \<open>drainBuffered\<close>; \<open>_lastApplied[shardId]\<close> creates a missing entry.\<close>

function drain_loop ::
  "'w write_callback \<Rightarrow> string \<Rightarrow> 'w applier \<Rightarrow> shard_buffer \<Rightarrow> u64 \<Rightarrow> 'w applier \<times> shard_buffer \<times> u64" where
  "drain_loop wcb shardId st shardBuf drained =
     (if shardBuf = [] then (st, shardBuf, drained)
      else let cur = applier_lastAppliedSequence st shardId;
               st = st\<lparr>ap_lastApplied := (ap_lastApplied st)(shardId \<mapsto> cur)\<rparr>;
               nextSeq = cur + 1
        in case map_of shardBuf nextSeq of
             None \<Rightarrow> (st, shardBuf, drained)
           | Some msg \<Rightarrow>
              (let (rc, st) = call_write wcb st msg
               in if rc \<noteq> 0 then (st, shardBuf, drained)
                  else drain_loop wcb shardId
                    (st\<lparr>ap_lastApplied := (ap_lastApplied st)(shardId \<mapsto> nextSeq),
                        ap_totalApplied := ap_totalApplied st + 1\<rparr>)
                    (AList.delete nextSeq shardBuf) (drained + 1)))"
  by pat_completeness auto
termination
  by (relation "measure (\<lambda>(wcb, s, st, buf, n). length buf)") (auto simp: length_delete_less)

declare drain_loop.simps [simp del]

definition drainBuffered :: "'w write_callback \<Rightarrow> 'w applier \<Rightarrow> string \<Rightarrow> u64 \<times> 'w applier" where
  "drainBuffered wcb st shardId =
     (case map_of (ap_buffer st) shardId of
        None \<Rightarrow> (0, st)
      | Some shardBuf \<Rightarrow>
         (let (st, shardBuf, drained) = drain_loop wcb shardId st shardBuf 0
          in (drained,
              st\<lparr>ap_buffer := (if shardBuf = [] then AList.delete shardId (ap_buffer st)
                               else AList.update shardId shardBuf (ap_buffer st))\<rparr>)))"

definition applyLocked ::
  "'w write_callback \<Rightarrow> (string \<Rightarrow> bool) \<Rightarrow> 'w applier \<Rightarrow> apply_message \<Rightarrow> int \<times> 'w applier" where
  "applyLocked wcb satelliteCb st message =
     (if satelliteCb (am_shardId message)
      then (0, st\<lparr>ap_totalSatelliteSkipped := ap_totalSatelliteSkipped st + 1\<rparr>)
      else let lastSeq = applier_lastAppliedSequence st (am_shardId message) in
        if am_sequence message \<le> lastSeq
        then (0, st\<lparr>ap_totalDuplicates := ap_totalDuplicates st + 1\<rparr>)
        else let expectedSeq = lastSeq + 1 in
          if am_sequence message \<noteq> expectedSeq
          then (0, st\<lparr>ap_buffer := AList.update (am_shardId message)
                 (AList.update (am_sequence message) message
                   (case map_of (ap_buffer st) (am_shardId message) of None \<Rightarrow> [] | Some b \<Rightarrow> b))
                 (ap_buffer st)\<rparr>)
          else let (rc, st) = call_write wcb st message in
            if rc \<noteq> 0 then (rc, st)
            else let st = st\<lparr>ap_lastApplied := (ap_lastApplied st)(am_shardId message \<mapsto> am_sequence message),
                             ap_totalApplied := ap_totalApplied st + 1\<rparr>
                 in (0, snd (drainBuffered wcb st (am_shardId message))))"

definition applyMessage ::
  "'w write_callback \<Rightarrow> (string \<Rightarrow> bool) \<Rightarrow> 'w applier \<Rightarrow> apply_message \<Rightarrow> int \<times> 'w applier" where
  "applyMessage wcb satelliteCb st message = applyLocked wcb satelliteCb st message"

fun apply_loop ::
  "'w write_callback \<Rightarrow> (string \<Rightarrow> bool) \<Rightarrow> 'w applier \<Rightarrow> apply_message list \<Rightarrow> 'w applier" where
  "apply_loop wcb satelliteCb st [] = st"
| "apply_loop wcb satelliteCb st (msg # msgs) =
     (let (rc, st) = applyLocked wcb satelliteCb st msg
      in if rc \<noteq> 0 then st else apply_loop wcb satelliteCb st msgs)"

definition applyBatch ::
  "'w write_callback \<Rightarrow> (string \<Rightarrow> bool) \<Rightarrow> 'w applier \<Rightarrow> apply_message list \<Rightarrow> u64 \<times> 'w applier" where
  "applyBatch wcb satelliteCb st messages =
     (let appliedBefore = ap_totalApplied st;
          st' = apply_loop wcb satelliteCb st messages
      in (ap_totalApplied st' - appliedBefore, st'))"

text \<open>A run: the public operations in the order in which they take the mutex.\<close>

datatype applier_op = ApplyOne apply_message | ApplyMany "apply_message list" | Drain string

fun applier_step ::
  "'w write_callback \<Rightarrow> (string \<Rightarrow> bool) \<Rightarrow> 'w applier \<Rightarrow> applier_op \<Rightarrow> 'w applier" where
  "applier_step wcb sat st (ApplyOne m) = snd (applyMessage wcb sat st m)"
| "applier_step wcb sat st (ApplyMany ms) = snd (applyBatch wcb sat st ms)"
| "applier_step wcb sat st (Drain s) = snd (drainBuffered wcb st s)"

definition applier_run ::
  "'w write_callback \<Rightarrow> (string \<Rightarrow> bool) \<Rightarrow> 'w applier \<Rightarrow> applier_op list \<Rightarrow> 'w applier" where
  "applier_run wcb sat st ops = foldl (applier_step wcb sat) st ops"

section \<open>Invariant\<close>

definition written_seqs :: "'w applier \<Rightarrow> string \<Rightarrow> u64 list" where
  "written_seqs st s = [am_sequence m. m \<leftarrow> ap_written st, am_shardId m = s]"

text \<open>A shard's buffer: keyed by the messages' own sequence numbers, none of them 0.\<close>

definition buffer_ok :: "string \<Rightarrow> shard_buffer \<Rightarrow> bool" where
  "buffer_ok s buf \<longleftrightarrow> distinct (map fst buf) \<and>
     (\<forall>(q, m) \<in> set buf. q = am_sequence m \<and> am_shardId m = s \<and> 0 < q)"

definition progress_ok :: "'w applier \<Rightarrow> bool" where
  "progress_ok st \<longleftrightarrow>
     (\<forall>s. written_seqs st s = count_up (unat (applier_lastAppliedSequence st s))) \<and>
     ap_totalApplied st = of_nat (length (ap_written st))"

definition applier_inv :: "'w applier \<Rightarrow> bool" where
  "applier_inv st \<longleftrightarrow> progress_ok st \<and> distinct (map fst (ap_buffer st)) \<and>
     (\<forall>(s, buf) \<in> set (ap_buffer st). buffer_ok s buf)"

lemma last_seq_upd [simp]:
  "applier_lastAppliedSequence (st\<lparr>ap_lastApplied := (ap_lastApplied st)(s \<mapsto> q)\<rparr>) s' =
     (if s' = s then q else applier_lastAppliedSequence st s')"
  by (simp add: applier_lastAppliedSequence_def)

text \<open>The buffer of a shard; a missing one is empty.\<close>

definition shard_buf :: "'w applier \<Rightarrow> string \<Rightarrow> shard_buffer" where
  "shard_buf st s = (case map_of (ap_buffer st) s of None \<Rightarrow> [] | Some b \<Rightarrow> b)"

lemma buffer_ok_Nil [simp]: "buffer_ok s []"
  by (simp add: buffer_ok_def)

lemma buffer_ok_update:
  "buffer_ok s buf \<Longrightarrow> am_shardId m = s \<Longrightarrow> 0 < am_sequence m \<Longrightarrow>
     buffer_ok s (AList.update (am_sequence m) m buf)"
  by (auto simp: buffer_ok_def distinct_update set_update_distinct)

lemma buffer_ok_delete: "buffer_ok s buf \<Longrightarrow> buffer_ok s (AList.delete q buf)"
  by (auto simp: buffer_ok_def distinct_delete set_delete_key)

lemma buffer_okD:
  "buffer_ok s buf \<Longrightarrow> map_of buf q = Some m \<Longrightarrow> am_sequence m = q \<and> am_shardId m = s \<and> 0 < q"
  by (auto simp: buffer_ok_def dest!: map_of_mem)

lemma shard_buf_ok: "applier_inv st \<Longrightarrow> buffer_ok s (shard_buf st s)"
  by (auto simp: applier_inv_def shard_buf_def dest!: map_of_mem split: option.splits)

text \<open>The parts of the state a write leaves alone, and the effect of a successful write followed
  by the update of the shard's number and of the total.\<close>

lemma call_write_frame:
  assumes "call_write wcb st m = (rc, st')"
  shows "ap_lastApplied st' = ap_lastApplied st" and "ap_buffer st' = ap_buffer st"
    and "ap_totalApplied st' = ap_totalApplied st"
    and "ap_written st' = ap_written st @ (if rc = 0 then [m] else [])"
  using assms by (auto simp: call_write_def Let_def split: prod.splits if_splits)

lemma progress_ok_cong:
  "progress_ok st \<Longrightarrow> ap_lastApplied st' = ap_lastApplied st \<Longrightarrow> ap_written st' = ap_written st \<Longrightarrow>
     ap_totalApplied st' = ap_totalApplied st \<Longrightarrow> progress_ok st'"
  by (simp add: progress_ok_def applier_lastAppliedSequence_def written_seqs_def)

text \<open>The entry that \<open>operator[]\<close> creates reads as the missing one did.\<close>

lemma progress_ok_touch:
  "progress_ok st \<Longrightarrow> progress_ok
     (st\<lparr>ap_lastApplied := (ap_lastApplied st)(s \<mapsto> applier_lastAppliedSequence st s)\<rparr>)"
  by (auto simp: progress_ok_def written_seqs_def)

lemma unat_next:
  assumes "(l :: u64) + 1 \<noteq> 0" shows "unat (l + 1) = Suc (unat l)"
  using assms by (metis add.commute unatSuc)

lemma progress_ok_write:
  assumes "progress_ok st" and "call_write wcb st m = (rc, st')" and "rc = 0"
    and "am_shardId m = s" and "am_sequence m = q" and "q = applier_lastAppliedSequence st s + 1" and "0 < q"
  shows "progress_ok (st'\<lparr>ap_lastApplied := (ap_lastApplied st')(s \<mapsto> q),
                          ap_totalApplied := ap_totalApplied st' + 1\<rparr>)"
proof -
  note fr = call_write_frame [OF assms(2)]
  have "unat q = Suc (unat (applier_lastAppliedSequence st s))"
    using assms(6,7) unat_next by simp
  then show ?thesis using assms fr
    by (auto simp: progress_ok_def written_seqs_def applier_lastAppliedSequence_def count_up_Suc
        simp flip: word_of_nat_eq_iff)
qed

text \<open>One turn of the drain loop, with the cases of the code.\<close>

lemma drain_loop_cases:
  assumes "drain_loop wcb s st buf n = r"
  defines "q \<equiv> applier_lastAppliedSequence st s + 1"
  defines "st1 \<equiv> st\<lparr>ap_lastApplied := (ap_lastApplied st)(s \<mapsto> applier_lastAppliedSequence st s)\<rparr>"
  obtains (empty) "buf = []" "r = (st, buf, n)"
  | (gap) "buf \<noteq> []" "map_of buf q = None" "r = (st1, buf, n)"
  | (failed) m rc st2 where "map_of buf q = Some m" "call_write wcb st1 m = (rc, st2)" "rc \<noteq> 0"
      "r = (st2, buf, n)"
  | (written) m st2 where "map_of buf q = Some m" "call_write wcb st1 m = (0, st2)"
      "r = drain_loop wcb s (st2\<lparr>ap_lastApplied := (ap_lastApplied st2)(s \<mapsto> q),
              ap_totalApplied := ap_totalApplied st2 + 1\<rparr>) (AList.delete q buf) (n + 1)"
proof (cases "buf = [] \<or> map_of buf q = None")
  case True
  have r: "r = (if buf = [] then (st, buf, n) else (st1, buf, n))"
    using True assms(1) unfolding q_def st1_def
    by (subst (asm) drain_loop.simps) (auto simp: Let_def)
  show ?thesis
  proof (cases "buf = []")
    case True
    with r show ?thesis by (intro empty) auto
  next
    case False
    with True r show ?thesis by (intro gap) auto
  qed
next
  case False
  then obtain m where m: "map_of buf q = Some m" "buf \<noteq> []" by auto
  obtain rc st2 where w: "call_write wcb st1 m = (rc, st2)" by (cases "call_write wcb st1 m")
  have r: "r = (if rc \<noteq> 0 then (st2, buf, n)
      else drain_loop wcb s (st2\<lparr>ap_lastApplied := (ap_lastApplied st2)(s \<mapsto> q),
              ap_totalApplied := ap_totalApplied st2 + 1\<rparr>) (AList.delete q buf) (n + 1))"
    using assms(1) m w unfolding q_def st1_def
    by (subst (asm) drain_loop.simps) (simp add: Let_def)
  show ?thesis
  proof (cases "rc = 0")
    case True
    with w m r show ?thesis by (intro written) auto
  next
    case False
    with w m r show ?thesis by (intro failed) auto
  qed
qed

lemma drain_loop_inv:
  "drain_loop wcb s st buf n = (st', buf', n') \<Longrightarrow> progress_ok st \<Longrightarrow> buffer_ok s buf \<Longrightarrow>
     progress_ok st' \<and> buffer_ok s buf' \<and> ap_buffer st' = ap_buffer st"
proof (induction "length buf" arbitrary: st buf n rule: less_induct)
  case less
  let ?l = "applier_lastAppliedSequence st s"
  let ?st1 = "st\<lparr>ap_lastApplied := (ap_lastApplied st)(s \<mapsto> ?l)\<rparr>"
  have p1: "progress_ok ?st1" by (rule progress_ok_touch [OF less.prems(2)])
  from less.prems(1) show ?case
  proof (cases rule: drain_loop_cases)
    case empty
    then show ?thesis using less.prems by simp
  next
    case gap
    then show ?thesis using p1 less.prems by simp
  next
    case (failed m rc st2)
    note fr = call_write_frame [OF failed(2)]
    have "progress_ok st2" by (rule progress_ok_cong [OF p1]) (use fr failed(3) in simp_all)
    then show ?thesis using failed fr less.prems by simp
  next
    case (written m st2)
    note ok = buffer_okD [OF less.prems(3) written(1)]
    note fr = call_write_frame [OF written(2)]
    let ?st3 = "st2\<lparr>ap_lastApplied := (ap_lastApplied st2)(s \<mapsto> ?l + 1),
                   ap_totalApplied := ap_totalApplied st2 + 1\<rparr>"
    have "progress_ok ?st3"
      by (rule progress_ok_write [OF p1 written(2)]) (use ok in \<open>auto\<close>)
    moreover have "length (AList.delete (?l + 1) buf) < length buf"
      by (rule length_delete_less [OF written(1)])
    ultimately show ?thesis
      using less.hyps [of "AList.delete (?l + 1) buf" ?st3] written(3) fr
        buffer_ok_delete [OF less.prems(3)] by simp
  qed
qed

lemma drain_loop_frame:
  "drain_loop wcb s st buf n = (st', buf', n') \<Longrightarrow> ap_buffer st' = ap_buffer st \<and>
     (\<forall>s'. s' \<noteq> s \<longrightarrow> ap_lastApplied st' s' = ap_lastApplied st s')"
proof (induction "length buf" arbitrary: st buf n rule: less_induct)
  case less
  from less.prems(1) show ?case
  proof (cases rule: drain_loop_cases)
    case (failed m rc st2)
    then show ?thesis using call_write_frame(1,2) [OF failed(2)] by simp
  next
    case (written m st2)
    then show ?thesis using call_write_frame(1,2) [OF written(2)]
        less.hyps [OF length_delete_less [OF written(1)] written(3) [symmetric]] by simp
  qed simp_all
qed

lemma drainBuffered_other:
  assumes "s' \<noteq> s" and "st' = snd (drainBuffered wcb st s)"
  shows "ap_lastApplied st' s' = ap_lastApplied st s' \<and>
         map_of (ap_buffer st') s' = map_of (ap_buffer st) s'"
proof (cases "map_of (ap_buffer st) s")
  case None
  then show ?thesis using assms by (simp add: drainBuffered_def)
next
  case (Some buf)
  obtain st2 buf' n where d: "drain_loop wcb s st buf 0 = (st2, buf', n)"
    by (cases "drain_loop wcb s st buf 0") auto
  show ?thesis using drain_loop_frame [OF d] assms Some d by (simp add: drainBuffered_def)
qed

lemma applier_inv_buffer:
  assumes "progress_ok st" and "distinct (map fst (ap_buffer st))"
    and "\<forall>(s, buf) \<in> set (ap_buffer st). buffer_ok s buf" and "buffer_ok s b"
  shows "applier_inv (st\<lparr>ap_buffer := AList.update s b (ap_buffer st)\<rparr>)"
    and "applier_inv (st\<lparr>ap_buffer := AList.delete s (ap_buffer st)\<rparr>)"
  using assms progress_ok_cong [OF assms(1), of "st\<lparr>ap_buffer := AList.update s b (ap_buffer st)\<rparr>"]
    progress_ok_cong [OF assms(1), of "st\<lparr>ap_buffer := AList.delete s (ap_buffer st)\<rparr>"]
  by (auto simp: applier_inv_def distinct_update distinct_delete set_update_distinct set_delete_key)

lemma drainBuffered_inv:
  assumes "applier_inv st" shows "applier_inv (snd (drainBuffered wcb st s))"
proof (cases "map_of (ap_buffer st) s")
  case None
  then show ?thesis using assms by (simp add: drainBuffered_def)
next
  case (Some buf)
  obtain st' buf' n where d: "drain_loop wcb s st buf 0 = (st', buf', n)"
    by (cases "drain_loop wcb s st buf 0") auto
  have b: "buffer_ok s buf" using shard_buf_ok [OF assms, of s] Some by (simp add: shard_buf_def)
  from assms have "progress_ok st" by (simp add: applier_inv_def)
  from drain_loop_inv [OF d this b] have d': "progress_ok st'" "buffer_ok s buf'"
    "ap_buffer st' = ap_buffer st" by auto
  have "distinct (map fst (ap_buffer st'))" "\<forall>(s, buf) \<in> set (ap_buffer st'). buffer_ok s buf"
    using assms by (simp_all add: d'(3) applier_inv_def)
  from applier_inv_buffer [OF d'(1) this d'(2)] show ?thesis
    by (simp add: drainBuffered_def Some d)
qed

lemma applyLocked_inv:
  assumes inv: "applier_inv st" shows "applier_inv (snd (applyLocked wcb sat st m))"
proof -
  let ?s = "am_shardId m" and ?q = "am_sequence m"
  let ?l = "applier_lastAppliedSequence st ?s"
  have prog: "progress_ok st" using inv by (simp add: applier_inv_def)
  have pos: "0 < ?q" if "\<not> ?q \<le> ?l" using that by (metis word_gt_0 word_zero_le)
  consider "sat ?s" | "\<not> sat ?s" "?q \<le> ?l" | "\<not> sat ?s" "\<not> ?q \<le> ?l" "?q \<noteq> ?l + 1"
    | "\<not> sat ?s" "\<not> ?q \<le> ?l" "?q = ?l + 1" by blast
  then show ?thesis
  proof cases
    case 3
    have "buffer_ok ?s (AList.update ?q m (shard_buf st ?s))"
      using buffer_ok_update [OF shard_buf_ok [OF inv] refl] pos 3 by blast
    then show ?thesis using applier_inv_buffer(1) [of st ?s] inv 3
      by (simp add: applyLocked_def Let_def shard_buf_def applier_inv_def)
  next
    case 4
    obtain rc st2 where w: "call_write wcb st m = (rc, st2)" by (cases "call_write wcb st m")
    note fr = call_write_frame [OF w]
    show ?thesis
    proof (cases "rc = 0")
      case True
      have "progress_ok (st2\<lparr>ap_lastApplied := (ap_lastApplied st2)(?s \<mapsto> ?q),
          ap_totalApplied := ap_totalApplied st2 + 1\<rparr>)"
        by (rule progress_ok_write [OF prog w True refl refl]) (use 4 pos in auto)
      then have "applier_inv (st2\<lparr>ap_lastApplied := (ap_lastApplied st2)(?s \<mapsto> ?q),
          ap_totalApplied := ap_totalApplied st2 + 1\<rparr>)"
        using inv fr by (simp add: applier_inv_def)
      from drainBuffered_inv [OF this, of wcb ?s] show ?thesis
        using 4 w True by (simp add: applyLocked_def Let_def)
    next
      case False
      have "progress_ok st2" by (rule progress_ok_cong [OF prog]) (use fr False in simp_all)
      then show ?thesis using 4 w False inv fr by (simp add: applyLocked_def Let_def applier_inv_def)
    qed
  qed (use inv in \<open>simp_all add: applyLocked_def Let_def applier_inv_def progress_ok_def
        written_seqs_def applier_lastAppliedSequence_def\<close>)
qed

lemma apply_loop_inv: "applier_inv st \<Longrightarrow> applier_inv (apply_loop wcb sat st ms)"
proof (induction ms arbitrary: st)
  case (Cons m ms)
  then show ?case using applyLocked_inv [of st wcb sat m]
    by (cases "applyLocked wcb sat st m") auto
qed simp

lemma applier_step_inv: "applier_inv st \<Longrightarrow> applier_inv (applier_step wcb sat st opn)"
  by (cases opn) (simp_all add: applyMessage_def applyBatch_def Let_def applyLocked_inv apply_loop_inv
      drainBuffered_inv)

lemma applier_init_inv: "applier_inv (applier_init w)"
  by (simp add: applier_inv_def progress_ok_def applier_init_def written_seqs_def
      applier_lastAppliedSequence_def count_up_def)

lemma applier_run_inv: "applier_inv st \<Longrightarrow> applier_inv (applier_run wcb sat st ops)"
  unfolding applier_run_def by (induction ops arbitrary: st) (simp_all add: applier_step_inv)

subsection \<open>Completeness when every write succeeds\<close>

text \<open>What a shard has received (0 is never applied) is what is applied plus what is buffered, and
  the buffer lies strictly above the next number.\<close>

definition reliable :: "'w write_callback \<Rightarrow> bool" where
  "reliable wcb \<longleftrightarrow> (\<forall>w s opn p k. fst (wcb w s opn p k) = 0)"

definition covers :: "u64 set \<Rightarrow> u64 \<Rightarrow> u64 set \<Rightarrow> bool" where
  "covers R l K \<longleftrightarrow> R - {0} = {0<..l} \<union> K \<and> (\<forall>k \<in> K. l < k)"

definition settled :: "u64 set \<Rightarrow> u64 \<Rightarrow> u64 set \<Rightarrow> bool" where
  "settled R l K \<longleftrightarrow> covers R l K \<and> l + 1 \<notin> K"

definition buf_keys :: "'w applier \<Rightarrow> string \<Rightarrow> u64 set" where
  "buf_keys st s = fst ` set (shard_buf st s)"

lemma call_write_reliable:
  "reliable wcb \<Longrightarrow> call_write wcb st m = (rc, st') \<Longrightarrow> rc = 0"
  by (auto simp: call_write_def reliable_def Let_def split_beta)

lemma greaterThanAtMost_next:
  assumes "(l :: u64) < l + 1" shows "{0<..l + 1} = insert (l + 1) {0<..l}"
proof -
  have "x \<le> l + 1 \<longleftrightarrow> x = l + 1 \<or> x \<le> l" for x
    using unat_next [of l] assms by (auto simp: word_le_nat_alt word_less_nat_alt word_unat_eq_iff)
  moreover have "0 < l + 1" using assms by (rule le_less_trans [OF word_zero_le])
  ultimately show ?thesis by auto
qed

lemma covers_next:
  assumes "covers R l K" and "l + 1 \<in> K"
  shows "covers R (l + 1) (K - {l + 1})"
proof -
  from assms have lt: "l < l + 1" by (auto simp: covers_def)
  have "l + 1 < k" if "k \<in> K - {l + 1}" for k
    using that assms(1) by (metis Diff_iff covers_def inc_le insertI1 le_neq_trans)
  with assms show ?thesis by (auto simp: covers_def greaterThanAtMost_next [OF lt])
qed

lemma drain_loop_covers:
  "drain_loop wcb s st buf n = (st', buf', n') \<Longrightarrow> reliable wcb \<Longrightarrow>
     covers R (applier_lastAppliedSequence st s) (fst ` set buf) \<Longrightarrow>
     settled R (applier_lastAppliedSequence st' s) (fst ` set buf')"
proof (induction "length buf" arbitrary: st buf n rule: less_induct)
  case less
  let ?l = "applier_lastAppliedSequence st s"
  from less.prems(1) show ?case
  proof (cases rule: drain_loop_cases)
    case empty
    then show ?thesis using less.prems by (simp add: settled_def)
  next
    case gap
    then show ?thesis using less.prems
      by (simp add: settled_def map_of_eq_None_iff)
  next
    case (failed m rc st2)
    then show ?thesis using call_write_reliable [OF less.prems(2) failed(2)] by simp
  next
    case (written m st2)
    let ?st3 = "st2\<lparr>ap_lastApplied := (ap_lastApplied st2)(s \<mapsto> ?l + 1),
                   ap_totalApplied := ap_totalApplied st2 + 1\<rparr>"
    have fr: "ap_lastApplied st2 = (ap_lastApplied st)(s \<mapsto> ?l)"
      using call_write_frame(1) [OF written(2)] by simp
    have mem: "?l + 1 \<in> fst ` set buf" using map_of_mem [OF written(1)] by force
    have keys: "fst ` set (AList.delete (?l + 1) buf) = fst ` set buf - {?l + 1}"
      by (auto simp: set_delete_key image_iff)
    have l3: "applier_lastAppliedSequence ?st3 s' = (if s' = s then ?l + 1 else applier_lastAppliedSequence st s')" for s'
      by (simp add: applier_lastAppliedSequence_def fr)
    have "covers R (applier_lastAppliedSequence ?st3 s) (fst ` set (AList.delete (?l + 1) buf))"
      unfolding keys l3 using covers_next [OF less.prems(3) mem] by simp
    from less.hyps [OF length_delete_less [OF written(1)] written(3) [symmetric] less.prems(2) this]
    show ?thesis by (simp add: l3)
  qed
qed

lemma dom_update_keys: "fst ` set (AList.update k v al) = insert k (fst ` set al)"
  by (induction al) auto

lemma drainBuffered_settled:
  assumes "reliable wcb" and "covers R (applier_lastAppliedSequence st s) (buf_keys st s)"
  defines "st' \<equiv> snd (drainBuffered wcb st s)"
  shows "settled R (applier_lastAppliedSequence st' s) (buf_keys st' s)"
proof (cases "map_of (ap_buffer st) s")
  case None
  then show ?thesis using assms(2)
    by (simp add: st'_def drainBuffered_def settled_def buf_keys_def shard_buf_def)
next
  case (Some buf)
  obtain st2 buf' n where d: "drain_loop wcb s st buf 0 = (st2, buf', n)"
    by (cases "drain_loop wcb s st buf 0") auto
  have cov: "covers R (applier_lastAppliedSequence st s) (fst ` set buf)"
    using assms(2) Some by (simp add: buf_keys_def shard_buf_def)
  have st': "st' = st2\<lparr>ap_buffer := (if buf' = [] then AList.delete s (ap_buffer st2)
                                    else AList.update s buf' (ap_buffer st2))\<rparr>"
    by (simp add: st'_def drainBuffered_def Some d)
  show ?thesis using drain_loop_covers [OF d assms(1) cov]
    by (cases "buf' = []") (simp_all add: st' buf_keys_def shard_buf_def applier_lastAppliedSequence_def)
qed

lemma drainBuffered_other_settled:
  assumes "s' \<noteq> s"
  shows "applier_lastAppliedSequence (snd (drainBuffered wcb st s)) s' = applier_lastAppliedSequence st s'"
    and "buf_keys (snd (drainBuffered wcb st s)) s' = buf_keys st s'"
  using drainBuffered_other [OF assms refl, of wcb st]
  by (simp_all add: applier_lastAppliedSequence_def buf_keys_def shard_buf_def)

definition all_settled :: "(string \<Rightarrow> bool) \<Rightarrow> (string \<Rightarrow> u64 set) \<Rightarrow> 'w applier \<Rightarrow> bool" where
  "all_settled sat R st \<longleftrightarrow>
     (\<forall>s. \<not> sat s \<longrightarrow> settled (R s) (applier_lastAppliedSequence st s) (buf_keys st s))"

lemma settled_insert:
  assumes "settled R l K"
  shows "q \<le> l \<Longrightarrow> settled (insert q R) l K"
    and "l < q \<Longrightarrow> q \<noteq> l + 1 \<Longrightarrow> settled (insert q R) l (insert q K)"
    and "l < q \<Longrightarrow> q = l + 1 \<Longrightarrow> covers (insert q R) q K"
proof -
  note s = assms [unfolded settled_def covers_def]
  show "settled (insert q R) l K" if "q \<le> l"
    using s that by (auto simp: settled_def covers_def word_gt_0)
  have q0: "q \<noteq> 0" if "l < q" using that by auto
  show "settled (insert q R) l (insert q K)" if "l < q" "q \<noteq> l + 1"
    using s that q0 by (auto simp: settled_def covers_def)
  show "covers (insert q R) q K" if q: "l < q" "q = l + 1"
  proof -
    have "l + 1 < k" if "k \<in> K" for k
      using that s by (metis inc_le le_neq_trans)
    with s q q0 show ?thesis
      using greaterThanAtMost_next [of l] by (auto simp: covers_def)
  qed
qed

lemma applyLocked_settled:
  assumes "reliable wcb" and "all_settled sat R st"
  shows "fst (applyLocked wcb sat st m) = 0 \<and>
    all_settled sat (R(am_shardId m := insert (am_sequence m) (R (am_shardId m))))
      (snd (applyLocked wcb sat st m))"
proof -
  let ?s = "am_shardId m" and ?q = "am_sequence m"
  let ?l = "applier_lastAppliedSequence st ?s"
  have set: "settled (R s) (applier_lastAppliedSequence st s) (buf_keys st s)" if "\<not> sat s" for s
    using assms(2) that by (simp add: all_settled_def)
  consider "sat ?s" | "\<not> sat ?s" "?q \<le> ?l" | "\<not> sat ?s" "\<not> ?q \<le> ?l" "?q \<noteq> ?l + 1"
    | "\<not> sat ?s" "\<not> ?q \<le> ?l" "?q = ?l + 1" by blast
  then show ?thesis
  proof cases
    case 1
    then show ?thesis using set
      by (auto simp: applyLocked_def all_settled_def applier_lastAppliedSequence_def buf_keys_def shard_buf_def)
  next
    case 2
    then show ?thesis using set settled_insert(1) [OF set [of ?s]]
      by (auto simp: applyLocked_def all_settled_def applier_lastAppliedSequence_def buf_keys_def
          shard_buf_def Let_def)
  next
    case 3
    let ?st' = "snd (applyLocked wcb sat st m)"
    have st': "?st' = st\<lparr>ap_buffer := AList.update ?s (AList.update ?q m (shard_buf st ?s)) (ap_buffer st)\<rparr>"
      and rc: "fst (applyLocked wcb sat st m) = 0"
      using 3 by (simp_all add: applyLocked_def Let_def shard_buf_def)
    have last: "applier_lastAppliedSequence ?st' s = applier_lastAppliedSequence st s" for s
      by (simp add: st' applier_lastAppliedSequence_def)
    have keys: "buf_keys ?st' s = (if s = ?s then insert ?q (buf_keys st s) else buf_keys st s)" for s
      by (simp add: st' buf_keys_def shard_buf_def dom_update_keys)
    show ?thesis using set settled_insert(2) [OF set [of ?s], of ?q] 3 rc
      by (simp add: all_settled_def last keys)
  next
    case 4
    obtain rc st2 where w: "call_write wcb st m = (rc, st2)" by (cases "call_write wcb st m")
    have rc: "rc = 0" by (rule call_write_reliable [OF assms(1) w])
    note fr = call_write_frame [OF w]
    let ?st3 = "st2\<lparr>ap_lastApplied := (ap_lastApplied st2)(?s \<mapsto> ?q), ap_totalApplied := ap_totalApplied st2 + 1\<rparr>"
    have st': "applyLocked wcb sat st m = (0, snd (drainBuffered wcb ?st3 ?s))"
      using 4 w rc by (simp add: applyLocked_def Let_def)
    have last: "applier_lastAppliedSequence ?st3 s = (if s = ?s then ?q else applier_lastAppliedSequence st s)" for s
      by (simp add: applier_lastAppliedSequence_def fr)
    have keys: "buf_keys ?st3 s = buf_keys st s" for s
      by (simp add: buf_keys_def shard_buf_def fr)
    have cov: "covers (insert ?q (R ?s)) (applier_lastAppliedSequence ?st3 ?s) (buf_keys ?st3 ?s)"
      unfolding last keys using settled_insert(3) [OF set [of ?s], of ?q] 4(1,3) 4(2) [unfolded not_le]
      by simp
    show ?thesis
      using set drainBuffered_settled [OF assms(1) cov]
      by (auto simp: st' all_settled_def last keys drainBuffered_other_settled)
  qed
qed

text \<open>The sequence numbers a run of operations delivers to a shard.\<close>

fun op_messages :: "applier_op \<Rightarrow> apply_message list" where
  "op_messages (ApplyOne m) = [m]"
| "op_messages (ApplyMany ms) = ms"
| "op_messages (Drain s) = []"

definition delivered :: "applier_op list \<Rightarrow> string \<Rightarrow> u64 set" where
  "delivered ops s = set [am_sequence m. m \<leftarrow> concat (map op_messages ops), am_shardId m = s]"

definition add_received :: "(string \<Rightarrow> u64 set) \<Rightarrow> apply_message list \<Rightarrow> string \<Rightarrow> u64 set" where
  "add_received R ms s = R s \<union> {am_sequence m | m. m \<in> set ms \<and> am_shardId m = s}"

lemma add_received_Nil: "add_received R [] = R"
  by (auto simp: add_received_def)

lemma add_received_Cons:
  "add_received R (m # ms) =
     add_received (R(am_shardId m := insert (am_sequence m) (R (am_shardId m)))) ms"
  by (auto simp: add_received_def fun_eq_iff)

lemma apply_loop_settled:
  "reliable wcb \<Longrightarrow> all_settled sat R st \<Longrightarrow>
     all_settled sat (add_received R ms) (apply_loop wcb sat st ms)"
proof (induction ms arbitrary: R st)
  case Nil
  then show ?case by (simp add: add_received_def)
next
  case (Cons m ms)
  note one = applyLocked_settled [OF Cons.prems, of m]
  show ?case
    using conjunct1 [OF one] Cons.IH [OF Cons.prems(1) conjunct2 [OF one]]
    by (simp del: fun_upd_apply add: split_beta Let_def add_received_Cons)
qed

lemma applier_step_settled:
  assumes "reliable wcb" and "all_settled sat R st"
  shows "all_settled sat (add_received R (op_messages opn)) (applier_step wcb sat st opn)"
proof (cases opn)
  case (ApplyOne m)
  then show ?thesis using applyLocked_settled [OF assms, of m]
    by (simp add: applyMessage_def add_received_Cons add_received_Nil)
next
  case (ApplyMany ms)
  then show ?thesis using apply_loop_settled [OF assms] by (simp add: applyBatch_def Let_def)
next
  case (Drain s)
  let ?st' = "snd (drainBuffered wcb st s)"
  have "settled (R s') (applier_lastAppliedSequence ?st' s') (buf_keys ?st' s')" if "\<not> sat s'" for s'
  proof -
    have set: "settled (R s') (applier_lastAppliedSequence st s') (buf_keys st s')"
      using assms(2) that by (simp add: all_settled_def)
    then have cov: "covers (R s') (applier_lastAppliedSequence st s') (buf_keys st s')"
      by (simp add: settled_def)
    show ?thesis
      using drainBuffered_settled [OF assms(1) cov] set
      by (cases "s' = s") (simp_all add: drainBuffered_other_settled)
  qed
  then show ?thesis using Drain by (simp add: all_settled_def add_received_def)
qed

lemma applier_run_settled:
  "reliable wcb \<Longrightarrow> all_settled sat R st \<Longrightarrow>
     all_settled sat (add_received R (concat (map op_messages ops))) (applier_run wcb sat st ops)"
proof (induction ops arbitrary: R st)
  case Nil
  then show ?case by (simp add: applier_run_def add_received_Nil)
next
  case (Cons x ops)
  have "add_received (add_received R ms) ms' = add_received R (ms @ ms')" for ms ms'
    by (auto simp: add_received_def fun_eq_iff)
  then show ?case
    using Cons.IH [OF Cons.prems(1) applier_step_settled [OF Cons.prems]]
    by (simp add: applier_run_def)
qed

lemma all_settled_init: "all_settled sat (\<lambda>_. {}) (applier_init w)"
  by (auto simp: all_settled_def settled_def covers_def applier_init_def buf_keys_def shard_buf_def
      applier_lastAppliedSequence_def)

lemma less_next:
  assumes "(l :: u64) < n" shows "l < l + 1 \<and> l + 1 \<le> n"
proof -
  have "l + 1 \<noteq> 0"
  proof
    assume "l + 1 = 0"
    then have "l = - 1" by (simp add: eq_neg_iff_add_eq_0)
    with assms show False using word_order.extremum [of n] by simp
  qed
  from unat_next [OF this] inc_le [OF assms] show ?thesis by (simp add: word_less_nat_alt)
qed

lemma settled_prefix:
  assumes "settled R l K" shows "(\<forall>k. 0 < k \<and> k \<le> n \<longrightarrow> k \<in> R) \<longleftrightarrow> n \<le> l"
proof
  note s = assms [unfolded settled_def covers_def]
  assume all: "\<forall>k. 0 < k \<and> k \<le> n \<longrightarrow> k \<in> R"
  show "n \<le> l"
  proof (rule ccontr)
    assume "\<not> n \<le> l"
    then have lt: "l < l + 1" and le: "l + 1 \<le> n" using less_next [of l n] by (auto simp: not_le)
    then have "l + 1 \<in> R - {0}" using all le_less_trans [OF word_zero_le lt] by auto
    then have "l + 1 \<in> {0<..l} \<union> K" using s by simp
    with s lt show False by auto
  qed
next
  note s = assms [unfolded settled_def covers_def]
  assume "n \<le> l"
  then show "\<forall>k. 0 < k \<and> k \<le> n \<longrightarrow> k \<in> R"
    using s by (metis (no_types, lifting) DiffD1 UnI1 greaterThanAtMost_iff order_trans)
qed

lemma run_settled:
  assumes "reliable wcb" and "\<not> sat s"
  shows "settled (delivered ops s) (applier_lastAppliedSequence (applier_run wcb sat (applier_init w) ops) s)
      (buf_keys (applier_run wcb sat (applier_init w) ops) s)"
proof -
  have "add_received (\<lambda>_. {}) (concat (map op_messages ops)) s = delivered ops s"
    by (auto simp: add_received_def delivered_def)
  with applier_run_settled [OF assms(1) all_settled_init, of sat ops w] assms(2)
  show ?thesis by (auto simp: all_settled_def)
qed

text \<open>When the numbers \<open>1, \<dots>, n\<close> of a shard are delivered, in whatever order and batches, they are
  what is written, in their order.\<close>

lemma delivered_then_written:
  assumes "n < 2 ^ 64" and "reliable wcb" and "\<not> sat s" and "delivered ops s = set (count_up n)"
  shows "written_seqs (applier_run wcb sat (applier_init w) ops) s = count_up n"
proof -
  let ?st = "applier_run wcb sat (applier_init w) ops"
  let ?l = "applier_lastAppliedSequence ?st s"
  have wr: "written_seqs ?st s = count_up (unat ?l)"
    using applier_run_inv [OF applier_init_inv, of wcb sat w ops] by (simp add: applier_inv_def progress_ok_def)
  have settled: "settled (set (count_up n)) ?l (buf_keys ?st s)"
    using run_settled [where sat = sat and s = s, OF assms(2,3), of ops w] assms(4) by simp
  have in_n: "k \<in> set (count_up n) \<longleftrightarrow> 0 < k \<and> unat k \<le> n" for k
    by (rule in_count_up [OF assms(1)])
  have n: "unat (word_of_nat n :: u64) = n" using assms(1) by (simp add: unsigned_of_nat take_bit_nat_eq_self)
  have "word_of_nat n \<le> ?l" using settled_prefix [OF settled, of "word_of_nat n"] in_n by (simp add: word_le_nat_alt n)
  moreover have "?l \<le> word_of_nat n"
    using settled_prefix [OF settled, of ?l] in_n [of ?l] by (cases "?l = 0") (auto simp: word_le_nat_alt n word_neq_0_conv)
  ultimately have "unat ?l = n" using n by (metis order_antisym)
  then show ?thesis using wr by simp
qed

section \<open>Properties\<close>

text \<open>C7. Exactly once and in order: whatever the write callback answers, whichever shards are
  satellites and whatever operations arrive (duplicates, reorderings, batches, external drains),
  the sequence numbers written to a shard are \<open>1, 2, \<dots>, lastAppliedSequence\<close> in this order,
  and \<open>totalApplied\<close> counts the writes.\<close>

theorem applier_exactly_once:
  "written_seqs (applier_run wcb sat (applier_init w) ops) s =
     count_up (unat (applier_lastAppliedSequence (applier_run wcb sat (applier_init w) ops) s)) \<and>
   distinct (written_seqs (applier_run wcb sat (applier_init w) ops) s) \<and>
   ap_totalApplied (applier_run wcb sat (applier_init w) ops) =
     of_nat (length (ap_written (applier_run wcb sat (applier_init w) ops)))"
  using applier_run_inv [OF applier_init_inv, of wcb sat w ops] distinct_count_up [OF unat_lt_2_64]
  by (simp add: applier_inv_def progress_ok_def)

text \<open>Nothing is held back: when the callback always succeeds, the applied prefix of a
  shard that is not a satellite is exactly the gap-free prefix of the numbers delivered, in
  whatever order and batches they came.\<close>

theorem applier_complete:
  assumes "reliable wcb" and "\<not> sat s"
  shows "(\<forall>k. 0 < k \<and> k \<le> n \<longrightarrow> k \<in> delivered ops s) \<longleftrightarrow>
         n \<le> applier_lastAppliedSequence (applier_run wcb sat (applier_init w) ops) s"
  by (rule settled_prefix [OF run_settled [where sat = sat and s = s, OF assms]])

definition sample_message :: "u64 \<Rightarrow> apply_message" where
  "sample_message q = \<lparr>am_shardId = ''s'', am_sequence = q, am_operation = INSERT, am_payload = [],
     am_documentKey = ''k'', am_documentRev = ''r''\<rparr>"

lemma applier_complete_witness:
  "reliable (\<lambda>w s opn p k. (0, w)) \<and> \<not> (\<lambda>_. False) ''s'' \<and>
   (3 :: u64) \<le> applier_lastAppliedSequence (applier_run (\<lambda>w s opn p k. (0, w)) (\<lambda>_. False)
      (applier_init ()) [ApplyOne (sample_message 3), ApplyMany [sample_message 2, sample_message 1]]) ''s''"
proof -
  let ?ops = "[ApplyOne (sample_message 3), ApplyMany [sample_message 2, sample_message 1]]"
  have r: "reliable (\<lambda>w s opn p k. (0, w))" by (simp add: reliable_def)
  have d: "delivered ?ops ''s'' = {1, 2, 3}" by (auto simp: delivered_def sample_message_def)
  have "\<forall>k. 0 < k \<and> k \<le> (3 :: u64) \<longrightarrow> k \<in> delivered ?ops ''s''"
  proof (intro allI impI)
    fix k :: u64 assume k: "0 < k \<and> k \<le> 3"
    then have "unat k = 1 \<or> unat k = 2 \<or> unat k = 3"
      by (auto simp: word_le_nat_alt word_less_nat_alt)
    then have "k = 1 \<or> k = 2 \<or> k = 3" by (auto simp: word_unat_eq_iff)
    then show "k \<in> delivered ?ops ''s''" by (auto simp: d)
  qed
  then show ?thesis
    using applier_complete [OF r, of "\<lambda>_. False" "''s''" 3 ?ops "()"] r by blast
qed

text \<open>A failed write during a drain leaves its message in the buffer.  When the message is then
  delivered again and applied directly, the copy in the buffer is below the next number for ever:
  \<open>bufferedCount\<close> keeps counting it although nothing is missing.\<close>

lemma stale_buffer_entry:
  "let wcb = (\<lambda>(n :: nat) s opn p k. (if n = 1 then 7 else 0, Suc n));
       st = applier_run wcb (\<lambda>_. False) (applier_init 0)
              [ApplyOne (sample_message 2), ApplyOne (sample_message 1), ApplyOne (sample_message 2)]
   in applier_lastAppliedSequence st ''s'' = 2 \<and> bufferedCount st = 1"
  by (simp add: Let_def applier_run_def applyMessage_def applyLocked_def applier_init_def
      applier_lastAppliedSequence_def call_write_def sample_message_def drainBuffered_def
      drain_loop.simps bufferedCount_def word_le_nat_alt)

end
