(* ===== verification/Sharding_Graph.thy ===== *)
theory Sharding_Graph
  imports Prelude
begin

text \<open>
  Sharding by smart-graph attribute (\<^verbatim>\<open>Enterprise/Sharding/ShardingStrategyEE.cpp\<close>), the
  validation of smart keys and edges (\<^verbatim>\<open>Enterprise/VocBase/SmartGraphSchema.cpp\<close>), the
  provider that decides whether a vertex is local and the path validator of disjoint traversals
  (\<^verbatim>\<open>Enterprise/Graph\<close>).  A modulus of zero shards is a division by zero in the code:
  it is \<open>None\<close> here.
\<close>

section \<open>Prefix and hash\<close>

definition extractSmartPrefix :: "string \<Rightarrow> string" where
  "extractSmartPrefix key = (case str_find key '':'' 0 of None \<Rightarrow> key | Some pos \<Rightarrow> substr key 0 pos)"

definition kFnvOffsetBasis :: u32 where "kFnvOffsetBasis = 2166136261"
definition kFnvPrime :: u32 where "kFnvPrime = 16777619"

definition fnv_step :: "u32 \<Rightarrow> char \<Rightarrow> u32" where
  "fnv_step hash c = (hash XOR of_char c) * kFnvPrime"

definition computeShardIndex :: "string \<Rightarrow> u32 \<Rightarrow> u32 option" where
  "computeShardIndex value numberOfShards =
     (if numberOfShards = 0 then None
      else Some (foldl fnv_step kFnvOffsetBasis value mod numberOfShards))"

section \<open>Sharding strategies\<close>

definition kEnterpriseHashSmartEdge :: string where
  "kEnterpriseHashSmartEdge = ''enterprise-hash-smart-edge''"
definition kEnterpriseHexSmartVertex :: string where
  "kEnterpriseHexSmartVertex = ''enterprise-hex-smart-vertex''"
definition kEnterpriseSmartEdgeCompat :: string where
  "kEnterpriseSmartEdgeCompat = ''enterprise-smart-edge-compat''"

datatype sharding_strategy = HashSmartEdge | HexSmartVertex | SmartEdgeCompat

definition strategy_name :: "sharding_strategy \<Rightarrow> string" where
  "strategy_name s = (case s of HashSmartEdge \<Rightarrow> kEnterpriseHashSmartEdge
     | HexSmartVertex \<Rightarrow> kEnterpriseHexSmartVertex | SmartEdgeCompat \<Rightarrow> kEnterpriseSmartEdgeCompat)"

definition usesDefaultShardKeys :: "sharding_strategy \<Rightarrow> bool" where
  "usesDefaultShardKeys s = (case s of HashSmartEdge \<Rightarrow> False | HexSmartVertex \<Rightarrow> False
     | SmartEdgeCompat \<Rightarrow> False)"

definition hash_edge_shard :: "string \<Rightarrow> u32 \<Rightarrow> u32 option" where
  "hash_edge_shard key numberOfShards =
     (let prefix = extractSmartPrefix key in computeShardIndex prefix numberOfShards)"

definition hex_vertex_shard :: "string \<Rightarrow> u32 \<Rightarrow> u32 option" where
  "hex_vertex_shard key numberOfShards =
     (let prefix = extractSmartPrefix key in computeShardIndex prefix numberOfShards)"

definition compat_edge_shard :: "string \<Rightarrow> u32 \<Rightarrow> u32 option" where
  "compat_edge_shard key numberOfShards =
     (let prefix = extractSmartPrefix key in computeShardIndex prefix numberOfShards)"

section \<open>SmartGraphSchema\<close>

record validation_result =
  vr_ok :: bool
  vr_errorMessage :: string

definition validation_success :: validation_result where
  "validation_success = \<lparr>vr_ok = True, vr_errorMessage = []\<rparr>"

definition validation_error :: "string \<Rightarrow> validation_result" where
  "validation_error msg = \<lparr>vr_ok = False, vr_errorMessage = msg\<rparr>"

abbreviation (input) sq :: string where "sq \<equiv> [CHR 0x27]"

definition extractSmartValue :: "string \<Rightarrow> string" where
  "extractSmartValue key = (case str_find key '':'' 0 of None \<Rightarrow> [] | Some pos \<Rightarrow> substr key 0 pos)"

definition buildSmartKey :: "string \<Rightarrow> string \<Rightarrow> string" where
  "buildSmartKey smartValue localKey = smartValue @ '':'' @ localKey"

definition buildSmartEdgeKey :: "string \<Rightarrow> string \<Rightarrow> string \<Rightarrow> string" where
  "buildSmartEdgeKey fromSmart toSmart edgeKey = fromSmart @ '':'' @ toSmart @ '':'' @ edgeKey"

definition parseCollectionName :: "string \<Rightarrow> string" where
  "parseCollectionName handle = (case str_find handle ''/'' 0 of None \<Rightarrow> [] | Some pos \<Rightarrow> substr handle 0 pos)"

definition extractPrefixFromKeyOrHandle :: "string \<Rightarrow> string" where
  "extractPrefixFromKeyOrHandle value =
     (let key = (case str_find value ''/'' 0 of None \<Rightarrow> value | Some slashPos \<Rightarrow> drop (slashPos + 1) value)
      in extractSmartValue key)"

definition validateDocument :: "string \<Rightarrow> string \<Rightarrow> string \<Rightarrow> validation_result" where
  "validateDocument key smartAttributeValue smartAttributeName =
     (if smartAttributeValue = []
      then validation_error (''missing smartGraphAttribute '' @ sq @ smartAttributeName @ sq)
      else case str_find key '':'' 0 of
        None \<Rightarrow> validation_error (''key '' @ sq @ key @ sq @
                  '' does not contain '' @ sq @ '':'' @ sq @ '' separator required for SmartGraph'')
      | Some colonPos \<Rightarrow>
          (let prefix = substr key 0 colonPos in
           if prefix \<noteq> smartAttributeValue
           then validation_error (''key prefix '' @ sq @ prefix @ sq @
                  '' does not match smartGraphAttribute value '' @ sq @ smartAttributeValue @ sq)
           else validation_success))"

definition validateEdge :: "string \<Rightarrow> string \<Rightarrow> bool \<Rightarrow> string set \<Rightarrow> validation_result" where
  "validateEdge fromKey toKey isDisjoint satelliteCollections =
     (if \<not> isDisjoint then validation_success
      else let fromColl = parseCollectionName fromKey; toColl = parseCollectionName toKey;
               fromIsSatellite = (fromColl \<noteq> [] \<and> fromColl \<in> satelliteCollections);
               toIsSatellite = (toColl \<noteq> [] \<and> toColl \<in> satelliteCollections)
           in if fromIsSatellite \<or> toIsSatellite then validation_success
              else let fromPrefix = extractPrefixFromKeyOrHandle fromKey;
                       toPrefix = extractPrefixFromKeyOrHandle toKey
                   in if fromPrefix \<noteq> toPrefix
                      then validation_error
                        (''disjoint SmartGraph edge crosses partitions: from prefix '' @ sq @
                         fromPrefix @ sq @ '' != to prefix '' @ sq @ toPrefix @ sq)
                      else validation_success)"

definition canModifySmartGraphAttribute :: bool where "canModifySmartGraphAttribute = False"

text \<open>The three physical collections behind a smart edge collection.\<close>

record virtual_smart_edge_collection =
  vc_name :: string
  vc_localName :: string
  vc_fromName :: string
  vc_toName :: string

definition VirtualClusterSmartEdgeCollection :: "string \<Rightarrow> virtual_smart_edge_collection" where
  "VirtualClusterSmartEdgeCollection name = \<lparr>vc_name = name, vc_localName = name @ ''_local'',
     vc_fromName = name @ ''_from'', vc_toName = name @ ''_to''\<rparr>"

definition subCollectionNames :: "virtual_smart_edge_collection \<Rightarrow> string list" where
  "subCollectionNames c = [vc_localName c, vc_fromName c, vc_toName c]"

section \<open>SmartGraphProvider, SmartGraphStep and the path validator\<close>

record vertex_ref =
  vx_collection :: string
  vx_key :: string

definition vertex_id :: "vertex_ref \<Rightarrow> string" where
  "vertex_id v = vx_collection v @ ''/'' @ vx_key v"

record smart_graph_provider =
  sp_collectionToShard :: "string \<rightharpoonup> string"
  sp_numberOfShards :: u32

definition provider_shard :: "smart_graph_provider \<Rightarrow> string \<Rightarrow> string \<Rightarrow> string option" where
  "provider_shard p collection key =
     (let prefix = extractSmartPrefix key
      in case computeShardIndex prefix (sp_numberOfShards p) of
           None \<Rightarrow> None
         | Some shardIndex \<Rightarrow> Some (collection @ ''_s'' @ dec (unat shardIndex)))"

definition isResponsible :: "smart_graph_provider \<Rightarrow> vertex_ref \<Rightarrow> bool option" where
  "isResponsible p vertex =
     (case provider_shard p (vx_collection vertex) (vx_key vertex) of
        None \<Rightarrow> None
      | Some expectedShard \<Rightarrow>
          (case sp_collectionToShard p (vx_collection vertex) of
             None \<Rightarrow> Some False
           | Some local \<Rightarrow> Some (local = expectedShard)))"

definition startVertex :: "smart_graph_provider \<Rightarrow> vertex_ref \<Rightarrow> bool option" where
  "startVertex p vertex = isResponsible p vertex"

record smart_graph_step =
  step_vertexId :: string
  step_shardId :: string
  step_depth :: u64
  step_isLocal :: bool

definition step_getSmartPrefix :: "smart_graph_step \<Rightarrow> string" where
  "step_getSmartPrefix st =
     (case str_find (step_vertexId st) ''/'' 0 of
        None \<Rightarrow> extractSmartPrefix (step_vertexId st)
      | Some pos \<Rightarrow> extractSmartPrefix (drop (pos + 1) (step_vertexId st)))"

definition step_isValid :: "smart_graph_step \<Rightarrow> bool" where
  "step_isValid st \<longleftrightarrow> step_vertexId st \<noteq> []"

text \<open>What a server that cannot expand a vertex itself would call: the helper of the enumerator and the
  communicator, with the bodies that they have.\<close>

definition smartSearch :: "smart_graph_provider \<Rightarrow> smart_graph_step \<Rightarrow> u64 \<Rightarrow> bool" where
  "smartSearch provider currentStep depth = step_isLocal currentStep"

definition sendTraversalRequest :: "string \<Rightarrow> string \<Rightarrow> string \<Rightarrow> u64 \<Rightarrow> bool" where
  "sendTraversalRequest serverId shardId startVertexId depth = False"

definition hasPendingResults :: bool where
  "hasPendingResults = False"

definition hasDepthSpecificLookup :: "smart_graph_provider \<Rightarrow> bool" where
  "hasDepthSpecificLookup provider = False"

record path_validator_options =
  pv_isDisjoint :: bool
  pv_isSatelliteLeader :: bool
  pv_clusterOneShardRuleEnabled :: bool

definition checkValidDisjointPath :: "string \<Rightarrow> string \<Rightarrow> path_validator_options \<Rightarrow> validation_result" where
  "checkValidDisjointPath startVertexKey currentVertexKey options =
     (if \<not> pv_isDisjoint options then validation_success
      else let startPrefix = extractSmartPrefix startVertexKey;
               currentPrefix = extractSmartPrefix currentVertexKey
           in if startPrefix \<noteq> currentPrefix
              then validation_error (''Disjoint SmartGraph violation: vertex '' @ sq @ currentVertexKey @ sq @
                     '' has smart prefix '' @ sq @ currentPrefix @ sq @ '' but expected '' @ sq @ startPrefix @ sq)
              else validation_success)"

section \<open>Prefixes\<close>

lemma vr_simps [simp]:
  "vr_ok validation_success" "\<not> vr_ok (validation_error m)"
  by (simp_all add: validation_success_def validation_error_def)

lemma extractSmartPrefix_eq: "extractSmartPrefix key = takeWhile (\<lambda>c. c \<noteq> CHR '':'') key"
  by (cases rule: find_char_cases [of "CHR '':''" key])
    (simp_all add: extractSmartPrefix_def str_find_0 substr_def takeWhile_all)

lemma extractSmartValue_eq:
  "extractSmartValue key = (if CHR '':'' \<in> set key then extractSmartPrefix key else [])"
  by (cases rule: find_char_cases [of "CHR '':''" key])
    (simp_all add: extractSmartValue_def extractSmartPrefix_def str_find_0)

lemma prefix_of_smart_key [simp]:
  "CHR '':'' \<notin> set v \<Longrightarrow> extractSmartPrefix (v @ CHR '':'' # k) = v"
  by (simp add: extractSmartPrefix_eq)

lemma validateDocument_ok:
  "vr_ok (validateDocument key v name) \<longleftrightarrow> v \<noteq> [] \<and> CHR '':'' \<in> set key \<and> extractSmartPrefix key = v"
  by (cases rule: find_char_cases [of "CHR '':''" key])
    (auto simp: validateDocument_def extractSmartPrefix_def str_find_0 Let_def split: if_splits)

lemma handle_key:
  assumes "CHR ''/'' \<notin> set c" shows "extractPrefixFromKeyOrHandle (c @ ''/'' @ k) = extractSmartValue k"
    and "parseCollectionName (c @ ''/'' @ k) = c"
  using assms by (simp_all add: extractPrefixFromKeyOrHandle_def parseCollectionName_def str_find_0
      find_sub_char substr_def)

lemma validateEdge_ok:
  "vr_ok (validateEdge f t True sats) \<longleftrightarrow>
     parseCollectionName f \<noteq> [] \<and> parseCollectionName f \<in> sats \<or>
     parseCollectionName t \<noteq> [] \<and> parseCollectionName t \<in> sats \<or>
     extractPrefixFromKeyOrHandle f = extractPrefixFromKeyOrHandle t"
  by (simp add: validateEdge_def Let_def)

section \<open>The strategies' contract\<close>

text \<open>A smart strategy answers for every positive number of shards, in range, and by the smart
  prefix alone.\<close>

locale smart_strategy =
  fixes responsible :: "string \<Rightarrow> u32 \<Rightarrow> u32 option"
  assumes total: "0 < n \<Longrightarrow> \<exists>i < n. responsible key n = Some i"
    and by_prefix: "responsible key n = computeShardIndex (extractSmartPrefix key) n"
begin

lemma same_prefix: "extractSmartPrefix k = extractSmartPrefix k' \<Longrightarrow> responsible k n = responsible k' n"
  by (simp add: by_prefix)

lemma of_smart_key: "CHR '':'' \<notin> set v \<Longrightarrow> responsible (v @ '':'' @ k) n = computeShardIndex v n"
  by (simp add: by_prefix prefix_of_smart_key)

end

lemma computeShardIndex_total: "0 < n \<Longrightarrow> \<exists>i < n. computeShardIndex v n = Some i"
  by (auto simp: computeShardIndex_def word_mod_less_divisor)

interpretation hash_edge: smart_strategy hash_edge_shard
  by unfold_locales (simp_all add: hash_edge_shard_def computeShardIndex_total)

interpretation hex_vertex: smart_strategy hex_vertex_shard
  by unfold_locales (simp_all add: hex_vertex_shard_def computeShardIndex_total)

interpretation compat_edge: smart_strategy compat_edge_shard
  by unfold_locales (simp_all add: compat_edge_shard_def computeShardIndex_total)

lemma prefix_no_colon: "CHR '':'' \<notin> set (extractSmartPrefix key)"
  by (auto simp: extractSmartPrefix_eq dest: set_takeWhileD)

lemma provider_responsible:
  "isResponsible p v = Some True \<longleftrightarrow>
     (\<exists>i. computeShardIndex (extractSmartPrefix (vx_key v)) (sp_numberOfShards p) = Some i \<and>
          sp_collectionToShard p (vx_collection v) = Some (vx_collection v @ ''_s'' @ dec (unat i)))"
  by (auto simp: isResponsible_def provider_shard_def Let_def split: option.splits)

section \<open>Properties\<close>

text \<open>C24. Co-location: every document that passes \<open>validateDocument\<close> with one value of the
  smart attribute, and every edge whose key was built from that value, is placed by the three
  strategies on one and the same shard, for any positive number of shards; the index is in range.\<close>

theorem smart_documents_colocated:
  assumes "vr_ok (validateDocument key v attr)" and "0 < n"
  shows "\<exists>i < n. (\<forall>k. vr_ok (validateDocument k v attr) \<longrightarrow> hex_vertex_shard k n = Some i) \<and>
           (\<forall>w e. hash_edge_shard (buildSmartEdgeKey v w e) n = Some i \<and>
                  compat_edge_shard (buildSmartEdgeKey v w e) n = Some i)"
proof -
  from assms(1) have v: "extractSmartPrefix key = v" by (simp add: validateDocument_ok)
  then have c: "CHR '':'' \<notin> set v" using prefix_no_colon [of key] by simp
  obtain i where i: "i < n" "computeShardIndex v n = Some i"
    using computeShardIndex_total [OF assms(2)] by blast
  have "hex_vertex_shard k n = Some i" if "vr_ok (validateDocument k v attr)" for k
    using that i hex_vertex.by_prefix [of k n] by (simp add: validateDocument_ok)
  moreover have "hash_edge_shard (buildSmartEdgeKey v w e) n = Some i \<and>
      compat_edge_shard (buildSmartEdgeKey v w e) n = Some i" for w e
    using hash_edge.of_smart_key [OF c] compat_edge.of_smart_key [OF c] i
    by (simp add: buildSmartEdgeKey_def)
  ultimately show ?thesis using i by blast
qed

lemma smart_documents_colocated_witness:
  "vr_ok (validateDocument ''eu:alice'' ''eu'' ''region'') \<and>
   (\<exists>i < 4. hex_vertex_shard ''eu:alice'' 4 = Some i \<and>
      hash_edge_shard (buildSmartEdgeKey ''eu'' ''us'' ''e1'') 4 = Some i)"
proof -
  have ok: "vr_ok (validateDocument ''eu:alice'' ''eu'' ''region'')"
    by (simp add: validateDocument_ok extractSmartPrefix_eq)
  have "(0 :: u32) < 4" by simp
  from smart_documents_colocated [OF ok this] ok show ?thesis by blast
qed

text \<open>A disjoint traversal never leaves the server: when the start vertex is local, every
  vertex of its collection that the path validator lets through is local too; and the vertices
  of that collection a server is responsible for are exactly those whose prefix has the start
  vertex's shard index.\<close>

theorem disjoint_traversal_stays_local:
  assumes "startVertex p v = Some True" and "vx_collection w = vx_collection v"
  shows "(pv_isDisjoint opts \<longrightarrow> vr_ok (checkValidDisjointPath (vx_key v) (vx_key w) opts) \<longrightarrow>
           isResponsible p w = Some True) \<and>
         (isResponsible p w = Some True \<longleftrightarrow>
           computeShardIndex (extractSmartPrefix (vx_key w)) (sp_numberOfShards p) =
           computeShardIndex (extractSmartPrefix (vx_key v)) (sp_numberOfShards p))"
proof -
  from assms(1) obtain i where
    i: "computeShardIndex (extractSmartPrefix (vx_key v)) (sp_numberOfShards p) = Some i"
       "sp_collectionToShard p (vx_collection v) = Some (vx_collection v @ ''_s'' @ dec (unat i))"
    by (auto simp: startVertex_def provider_responsible)
  have iff: "isResponsible p w = Some True \<longleftrightarrow>
      computeShardIndex (extractSmartPrefix (vx_key w)) (sp_numberOfShards p) =
      computeShardIndex (extractSmartPrefix (vx_key v)) (sp_numberOfShards p)"
    by (auto simp: provider_responsible i assms(2) dec_inject word_unat_eq_iff [where 'a = 32])
  have "pv_isDisjoint opts \<longrightarrow> vr_ok (checkValidDisjointPath (vx_key v) (vx_key w) opts) \<longrightarrow>
      isResponsible p w = Some True"
    by (auto simp: iff checkValidDisjointPath_def Let_def split: if_splits)
  with iff show ?thesis by blast
qed

lemma disjoint_traversal_stays_local_witness:
  "let p = \<lparr>sp_collectionToShard = [''c'' \<mapsto> ''c_s0''], sp_numberOfShards = 1\<rparr>;
       v = \<lparr>vx_collection = ''c'', vx_key = ''eu:a''\<rparr>; w = \<lparr>vx_collection = ''c'', vx_key = ''eu:b''\<rparr>
   in startVertex p v = Some True \<and> isResponsible p w = Some True"
proof -
  let ?p = "\<lparr>sp_collectionToShard = [''c'' \<mapsto> ''c_s0''], sp_numberOfShards = 1\<rparr>"
  let ?v = "\<lparr>vx_collection = ''c'', vx_key = ''eu:a''\<rparr>" and ?w = "\<lparr>vx_collection = ''c'', vx_key = ''eu:b''\<rparr>"
  let ?o = "\<lparr>pv_isDisjoint = True, pv_isSatelliteLeader = False, pv_clusterOneShardRuleEnabled = False\<rparr>"
  have s: "startVertex ?p ?v = Some True"
    by (simp add: startVertex_def isResponsible_def provider_shard_def computeShardIndex_def dec.simps)
  have "vr_ok (checkValidDisjointPath (vx_key ?v) (vx_key ?w) ?o)"
    by (simp add: checkValidDisjointPath_def extractSmartPrefix_eq)
  with disjoint_traversal_stays_local [OF s, of ?w ?o] s show ?thesis by (simp add: Let_def)
qed

text \<open>An edge that \<open>validateEdge\<close> accepts in a disjoint graph, between two documents with
  smart keys in collections that are not satellites, joins two vertices of one shard, and the
  path validator accepts the step.\<close>

theorem valid_disjoint_edge_same_shard:
  assumes "vr_ok (validateEdge (c @ ''/'' @ k) (c' @ ''/'' @ k') True sats)"
    and "CHR ''/'' \<notin> set c" and "CHR ''/'' \<notin> set c'" and "c \<notin> sats" and "c' \<notin> sats"
    and "CHR '':'' \<in> set k" and "CHR '':'' \<in> set k'"
  shows "hex_vertex_shard k n = hex_vertex_shard k' n \<and> vr_ok (checkValidDisjointPath k k' opts)"
proof -
  from assms(1,4,5) have e: "extractSmartPrefix k = extractSmartPrefix k'"
    unfolding validateEdge_ok handle_key [OF assms(2)] handle_key [OF assms(3)] extractSmartValue_eq
    using assms(6,7) by auto
  show ?thesis using hex_vertex.same_prefix [OF e, of n] by (simp add: checkValidDisjointPath_def Let_def e)
qed

lemma valid_disjoint_edge_same_shard_witness:
  "vr_ok (validateEdge ''c/eu:a'' ''c/eu:b'' True {''sat''}) \<and>
   hex_vertex_shard ''eu:a'' 8 = hex_vertex_shard ''eu:b'' 8"
proof -
  have "vr_ok (validateEdge (''c'' @ ''/'' @ ''eu:a'') (''c'' @ ''/'' @ ''eu:b'') True {''sat''})"
    by (simp add: validateEdge_def extractPrefixFromKeyOrHandle_def extractSmartValue_def
        parseCollectionName_def str_find_def substr_def Let_def)
  from valid_disjoint_edge_same_shard [OF this, of 8] this show ?thesis by simp
qed

text \<open>Without the separator the two validators disagree: \<open>validateEdge\<close> compares two empty
  prefixes, the path validator the whole keys.\<close>

lemma unprefixed_edge_disagreement:
  "vr_ok (validateEdge ''c/alice'' ''c/bob'' True {}) \<and>
   \<not> vr_ok (checkValidDisjointPath ''alice'' ''bob''
       \<lparr>pv_isDisjoint = True, pv_isSatelliteLeader = False, pv_clusterOneShardRuleEnabled = False\<rparr>)"
  by (simp add: validateEdge_def extractPrefixFromKeyOrHandle_def extractSmartValue_def
      parseCollectionName_def str_find_def substr_def checkValidDisjointPath_def extractSmartPrefix_eq Let_def)


text \<open>The enumerator believes the mark of the step: it goes on at a vertex of a shard that is elsewhere,
  and the vertices of other shards are out of reach, no request for them is ever accepted.\<close>

lemma smart_search_ignores_provider:
  "let p = \<lparr>sp_collectionToShard = [''v'' \<mapsto> ''v_s7''], sp_numberOfShards = 1\<rparr>;
       st = \<lparr>step_vertexId = ''v/eu:a'', step_shardId = ''v_s7'', step_depth = 0, step_isLocal = True\<rparr>
   in isResponsible p \<lparr>vx_collection = ''v'', vx_key = ''eu:a''\<rparr> = Some False \<and> smartSearch p st 0 \<and>
      \<not> sendTraversalRequest server shard vertex depth"
  by (simp add: isResponsible_def provider_shard_def computeShardIndex_def dec.simps smartSearch_def
      sendTraversalRequest_def)

end
