(* ===== verification/Satellite_Reads.thy ===== *)
theory Satellite_Reads
  imports Prelude "HOL-Library.Multiset"
begin

text \<open>
  Replica placement of satellite collections
  (\<^verbatim>\<open>Enterprise/Cluster/SatelliteDistribution.cpp\<close>) and the choice of a replica for dirty
  reads (\<^verbatim>\<open>Enterprise/Cluster/ReadFromFollower.cpp\<close>).  The round-robin counter is a
  process-wide atomic; one \<open>fetch_add\<close> per choice, so concurrent choices are a sequence of
  choices and the counter is threaded through them.
\<close>

section \<open>Satellite collections\<close>

record satellite_assignment =
  sa_shardId :: string
  sa_leader :: string
  sa_followers :: "string list"

type_synonym satellite_registry = "string set"

definition registerSatellite :: "satellite_registry \<Rightarrow> string \<Rightarrow> satellite_registry" where
  "registerSatellite r n = insert n r"

definition unregisterSatellite :: "satellite_registry \<Rightarrow> string \<Rightarrow> satellite_registry" where
  "unregisterSatellite r n = r - {n}"

definition isSatelliteCollection :: "satellite_registry \<Rightarrow> string \<Rightarrow> bool" where
  "isSatelliteCollection r n \<longleftrightarrow> n \<in> r"

definition registry_clear :: "satellite_registry \<Rightarrow> satellite_registry" where
  "registry_clear r = {}"

definition kSatelliteReplicationFactor :: u64 where "kSatelliteReplicationFactor = 0"
definition kSatelliteNumberOfShards :: u32 where "kSatelliteNumberOfShards = 1"

definition isSatellite :: "u64 \<Rightarrow> bool" where
  "isSatellite replicationFactor \<longleftrightarrow> replicationFactor = kSatelliteReplicationFactor"

definition effectiveWriteConcern :: "u64 \<Rightarrow> u64" where
  "effectiveWriteConcern numberOfDBServers = numberOfDBServers"

definition assignShards :: "string list \<Rightarrow> string \<Rightarrow> u64 \<Rightarrow> satellite_assignment" where
  "assignShards dbServers shardPrefix shardNumber =
     (let result = \<lparr>sa_shardId = shardPrefix @ dec (unat shardNumber), sa_leader = [], sa_followers = []\<rparr>
      in case dbServers of
           [] \<Rightarrow> result
         | s # ss \<Rightarrow> result\<lparr>sa_leader := s, sa_followers := ss\<rparr>)"

definition isSmartToSatEdge :: "string \<Rightarrow> string \<Rightarrow> satellite_registry \<Rightarrow> bool" where
  "isSmartToSatEdge fromCollection toCollection registry =
     (let fromIsSatellite = isSatelliteCollection registry fromCollection;
          toIsSatellite = isSatelliteCollection registry toCollection
      in fromIsSatellite \<noteq> toIsSatellite)"

definition extractCollectionName :: "string \<Rightarrow> string" where
  "extractCollectionName documentId =
     (case str_find documentId ''/'' 0 of None \<Rightarrow> documentId | Some pos \<Rightarrow> substr documentId 0 pos)"

section \<open>Reading from followers\<close>

datatype staleness_mode = Eventual | Bounded

record staleness_config =
  sc_mode :: staleness_mode
  sc_maxStaleness :: int

record replica_selection =
  rs_serverId :: string
  rs_isFollower :: bool

definition kAllowDirtyRead :: string where "kAllowDirtyRead = ''x-arango-allow-dirty-read''"
definition kPotentialDirtyRead :: string where "kPotentialDirtyRead = ''x-arango-potential-dirty-read''"

definition isDirtyReadAllowed :: "(string \<rightharpoonup> string) \<Rightarrow> bool" where
  "isDirtyReadAllowed headers =
     (case headers kAllowDirtyRead of
        None \<Rightarrow> False
      | Some val \<Rightarrow>
          if length val \<noteq> 4 then False
          else tolower (val ! 0) = CHR ''t'' \<and> tolower (val ! 1) = CHR ''r'' \<and>
               tolower (val ! 2) = CHR ''u'' \<and> tolower (val ! 3) = CHR ''e'')"

definition chooseReplica :: "string \<Rightarrow> string list \<Rightarrow> u64 \<Rightarrow> replica_selection \<times> u64" where
  "chooseReplica leader followers counter =
     (if followers = [] then (\<lparr>rs_serverId = leader, rs_isFollower = False\<rparr>, counter)
      else let totalReplicas = 1 + of_nat (length followers);
               index = counter mod totalReplicas
           in (if index = 0 then \<lparr>rs_serverId = leader, rs_isFollower = False\<rparr>
               else \<lparr>rs_serverId = followers ! unat (index - 1), rs_isFollower = True\<rparr>, counter + 1))"

text \<open>The loop over the shards; the hash set's iteration order is the order of the list.\<close>

fun responsible_loop ::
  "(string \<rightharpoonup> string) \<Rightarrow> (string \<rightharpoonup> string list) \<Rightarrow> string list \<Rightarrow> (string \<rightharpoonup> string) \<times> u64 \<Rightarrow>
   (string \<rightharpoonup> string) \<times> u64" where
  "responsible_loop leaderMap followersMap [] (result, c) = (result, c)"
| "responsible_loop leaderMap followersMap (shard # shards) (result, c) =
     (case leaderMap shard of
        None \<Rightarrow> responsible_loop leaderMap followersMap shards (result, c)
      | Some leader \<Rightarrow>
          (let followers = (case followersMap shard of None \<Rightarrow> [] | Some fs \<Rightarrow> fs);
               (selection, c) = chooseReplica leader followers c
           in responsible_loop leaderMap followersMap shards
                (result(shard \<mapsto> rs_serverId selection), c)))"

definition getResponsibleServersReadFromFollower ::
  "string list \<Rightarrow> (string \<rightharpoonup> string) \<Rightarrow> (string \<rightharpoonup> string) \<Rightarrow> (string \<rightharpoonup> string list) \<Rightarrow> u64 \<Rightarrow>
   (string \<rightharpoonup> string) \<times> u64" where
  "getResponsibleServersReadFromFollower shards result leaderMap followersMap counter =
     responsible_loop leaderMap followersMap shards (Map.empty, counter)"

definition isFollowerEligible :: "int \<Rightarrow> staleness_config \<Rightarrow> bool" where
  "isFollowerEligible reportedLag config =
     (if sc_mode config = Eventual then True
      else if sc_maxStaleness config = 0 then False
      else reportedLag \<le> sc_maxStaleness config)"

definition setDirtyReadResponseHeader :: "(string \<rightharpoonup> string) \<Rightarrow> bool \<Rightarrow> string \<rightharpoonup> string" where
  "setDirtyReadResponseHeader headers followerUsed =
     (if followerUsed then headers(kPotentialDirtyRead \<mapsto> ''true'') else headers)"

section \<open>Round robin\<close>

text \<open>Consecutive choices for one shard.\<close>

fun choose_run :: "string \<Rightarrow> string list \<Rightarrow> nat \<Rightarrow> u64 \<Rightarrow> string list \<times> u64" where
  "choose_run leader followers 0 c = ([], c)"
| "choose_run leader followers (Suc m) c =
     (let (sel, c) = chooseReplica leader followers c;
          (rest, c) = choose_run leader followers m c
      in (rs_serverId sel # rest, c))"

lemma chooseReplica_index:
  assumes "followers \<noteq> []" and "length followers < 2 ^ 64 - 1"
  shows "rs_serverId (fst (chooseReplica leader followers c)) =
           (leader # followers) ! (unat c mod Suc (length followers))"
    and "snd (chooseReplica leader followers c) = c + 1"
proof -
  let ?N = "1 + of_nat (length followers) :: u64"
  have N: "unat ?N = Suc (length followers)"
    using assms(2) by (simp add: unat_word_ariths unat_of_nat)
  have i: "unat (c mod ?N) = unat c mod Suc (length followers)" by (simp add: unat_mod_distrib N)
  show "rs_serverId (fst (chooseReplica leader followers c)) =
           (leader # followers) ! (unat c mod Suc (length followers))"
  proof (cases "c mod ?N = 0")
    case True
    with i show ?thesis using assms(1) by (simp add: chooseReplica_def Let_def)
  next
    case False
    then have pos: "0 < unat (c mod ?N)" by (simp add: unat_gt_0)
    then have "unat (c mod ?N - 1) = unat (c mod ?N) - 1" using False by (simp add: unat_minus_one)
    with False show ?thesis using assms(1) pos by (simp add: chooseReplica_def Let_def nth_Cons' i)
  qed
  show "snd (chooseReplica leader followers c) = c + 1" using assms(1) by (simp add: chooseReplica_def Let_def)
qed

lemma choose_run_eq:
  assumes "followers \<noteq> []" and "length followers < 2 ^ 64 - 1" and "unat c + m \<le> 2 ^ 64"
  shows "fst (choose_run leader followers m c) =
    map (\<lambda>j. (leader # followers) ! ((unat c + j) mod Suc (length followers))) [0..<m]"
  using assms(3)
proof (induction m arbitrary: c)
  case 0
  then show ?case by simp
next
  case (Suc m)
  note one = chooseReplica_index [OF assms(1,2), of leader c]
  have "fst (choose_run leader followers m (c + 1)) =
      map (\<lambda>j. (leader # followers) ! ((unat c + Suc j) mod Suc (length followers))) [0..<m]"
  proof (cases "m = 0")
    case False
    with Suc.prems have "unat (c + 1) = Suc (unat c)" by (intro unat_Suc_u64) simp
    with Suc show ?thesis by simp
  qed simp
  then show ?case using one
    by (simp add: Let_def split_beta map_upt_Suc del: upt_Suc)
qed

lemma rotate_upt:
  "0 < N \<Longrightarrow> map (\<lambda>j. xs ! ((k + j) mod N)) [0..<N] = map (\<lambda>j. xs ! j) (rotate k [0..<N])"
  by (rule nth_equalityI) (simp_all add: nth_rotate)

lemma mset_rotate': "mset (rotate k xs) = mset xs"
  unfolding rotate_drop_take by (metis append_take_drop_id mset_append union_commute)

lemma mset_block:
  assumes "0 < length xs"
  shows "mset (map (\<lambda>j. xs ! ((k + j) mod length xs)) [0..<length xs]) = mset xs"
proof -
  have "mset (map (\<lambda>j. xs ! ((k + j) mod length xs)) [0..<length xs]) =
      mset (map (\<lambda>j. xs ! j) [0..<length xs])"
    by (simp only: rotate_upt [OF assms] mset_map mset_rotate')
  then show ?thesis by (simp only: map_nth)
qed

lemma mset_blocks:
  assumes "0 < length xs"
  shows "mset (map (\<lambda>j. xs ! ((k + j) mod length xs)) [0..<r * length xs]) = repeat_mset r (mset xs)"
proof (induction r)
  case (Suc r)
  have "[0..<Suc r * length xs] = [0..<r * length xs] @ map (\<lambda>j. j + r * length xs) [0..<length xs]"
    unfolding map_add_upt using upt_add_eq_append [of 0 "r * length xs" "length xs"]
    by (simp only: mult_Suc add.commute [of "length xs"] le0)
  moreover have "(k + (j + r * length xs)) mod length xs = (k + j) mod length xs" for j
    by (simp flip: add.assoc)
  ultimately show ?case using Suc mset_block [OF assms, of k] by (simp add: comp_def)
qed simp

section \<open>Properties\<close>

text \<open>C25. Fairness of the round robin: in any \<open>r\<close> full rounds of consecutive choices for a
  shard, from any counter that does not wrap on the way, every replica (the leader and each
  follower) is chosen exactly \<open>r\<close> times.\<close>

theorem replica_choice_fair:
  assumes "followers \<noteq> []" and "unat c + r * Suc (length followers) \<le> 2 ^ 64"
    and "length followers < 2 ^ 64 - 1"
  shows "mset (fst (choose_run leader followers (r * Suc (length followers)) c)) =
         repeat_mset r (mset (leader # followers))"
proof -
  have "fst (choose_run leader followers (r * Suc (length followers)) c) =
      map (\<lambda>j. (leader # followers) ! ((unat c + j) mod Suc (length followers)))
        [0..<r * Suc (length followers)]"
    by (rule choose_run_eq [OF assms(1,3,2)])
  also have "mset \<dots> = repeat_mset r (mset (leader # followers))"
    using mset_blocks [of "leader # followers" "unat c" r] by (simp only: length_Cons zero_less_Suc)
  finally show ?thesis .
qed

lemma replica_choice_fair_witness:
  "mset (fst (choose_run ''L'' [''a'', ''b''] 6 5)) = {# ''L'', ''a'', ''b'', ''L'', ''a'', ''b'' #}"
proof -
  have "mset (fst (choose_run ''L'' [''a'', ''b''] (2 * Suc (length [''a'', ''b''])) 5)) =
      repeat_mset 2 (mset [''L'', ''a'', ''b''])"
    by (rule replica_choice_fair) simp_all
  also have "repeat_mset 2 (mset [''L'', ''a'', ''b'']) =
      mset [''L'', ''a'', ''b''] + mset [''L'', ''a'', ''b'']"
    by (simp only: numeral_2_eq_2 repeat_mset_Suc repeat_mset_0) simp
  also have "2 * Suc (length [''a'', ''b'']) = 6" by simp
  finally show ?thesis by simp
qed

lemma responsible_loop_other:
  "s \<notin> set shards \<Longrightarrow> fst (responsible_loop lm fm shards (res, c)) s = res s"
  by (induction lm fm shards "(res, c)" arbitrary: res c rule: responsible_loop.induct)
    (auto simp: Let_def split_beta split: option.splits)

lemma chooseReplica_mem:
  assumes "length followers < 2 ^ 64 - 1"
  shows "rs_serverId (fst (chooseReplica leader followers c)) \<in> set (leader # followers)"
proof (cases "followers = []")
  case False
  have "unat c mod Suc (length followers) < length (leader # followers)" by simp
  then show ?thesis unfolding chooseReplica_index(1) [OF False assms] by (rule nth_mem)
qed (simp add: chooseReplica_def)

text \<open>What the loop leaves at a shard: untouched, or one of its replicas.\<close>

definition replicas :: "(string \<rightharpoonup> string) \<Rightarrow> (string \<rightharpoonup> string list) \<Rightarrow> string \<Rightarrow> string set" where
  "replicas lm fm s = (case lm s of None \<Rightarrow> {} | Some l \<Rightarrow>
     set (l # (case fm s of None \<Rightarrow> [] | Some fs \<Rightarrow> fs)))"

lemma responsible_loop_at:
  "\<forall>fs \<in> ran fm. length fs < 2 ^ 64 - 1 \<Longrightarrow> distinct shards \<Longrightarrow> s \<in> set shards \<Longrightarrow>
   (case lm s of None \<Rightarrow> fst (responsible_loop lm fm shards (res, c)) s = res s
    | Some l \<Rightarrow> \<exists>srv \<in> replicas lm fm s. fst (responsible_loop lm fm shards (res, c)) s = Some srv)"
proof (induction lm fm shards "(res, c)" arbitrary: res c rule: responsible_loop.induct)
  case (2 lm fm shard shards res c)
  show ?case
  proof (cases "lm shard")
    case None
    then show ?thesis using 2 by (cases "s = shard"; cases "lm s") (auto simp: responsible_loop_other)
  next
    case (Some l)
    let ?fs = "case fm shard of None \<Rightarrow> [] | Some fs \<Rightarrow> fs"
    obtain sel c' where ch: "chooseReplica l ?fs c = (sel, c')" by (cases "chooseReplica l ?fs c")
    have "length ?fs < 2 ^ 64 - 1" using 2(3) by (auto simp: ran_def split: option.splits)
    from chooseReplica_mem [OF this, of l c] have mem: "rs_serverId sel \<in> replicas lm fm shard"
      by (simp add: ch replicas_def Some)
    show ?thesis
    proof (cases "s = shard")
      case True
      with mem Some ch 2(4) show ?thesis by (simp add: responsible_loop_other)
    next
      case False
      then show ?thesis
        using 2(2) [OF Some refl ch [symmetric] refl 2(3)] 2(4,5) Some ch by (cases "lm s") simp_all
    qed
  qed
qed simp

text \<open>Reading from followers answers for exactly the requested shards with a known leader,
  and each is mapped to its leader or one of its own followers, whatever the counter.\<close>

theorem responsible_servers_are_replicas:
  assumes "distinct shards" and "\<forall>fs \<in> ran followersMap. length fs < 2 ^ 64 - 1"
  shows "case fst (getResponsibleServersReadFromFollower shards result leaderMap followersMap c) s of
           None \<Rightarrow> s \<notin> set shards \<or> leaderMap s = None
         | Some srv \<Rightarrow> s \<in> set shards \<and> srv \<in> replicas leaderMap followersMap s"
proof (cases "s \<in> set shards")
  case True
  with responsible_loop_at [OF assms(2,1) True, of leaderMap Map.empty c] show ?thesis
    by (cases "leaderMap s") (auto simp: getResponsibleServersReadFromFollower_def)
next
  case False
  then show ?thesis by (simp add: getResponsibleServersReadFromFollower_def responsible_loop_other)
qed

lemma responsible_servers_are_replicas_witness:
  "let lm = [''s1'' \<mapsto> ''L'']; fm = [''s1'' \<mapsto> [''a'', ''b'']];
       out = fst (getResponsibleServersReadFromFollower [''s1'', ''s2''] Map.empty lm fm 1)
   in out ''s1'' = Some ''a'' \<and> ''a'' \<in> replicas lm fm ''s1''"
proof -
  let ?lm = "[''s1'' \<mapsto> ''L'']" and ?fm = "[''s1'' \<mapsto> [''a'', ''b'']]"
  have out: "fst (getResponsibleServersReadFromFollower [''s1'', ''s2''] Map.empty ?lm ?fm 1) ''s1'' = Some ''a''"
    by (simp add: getResponsibleServersReadFromFollower_def chooseReplica_def Let_def)
  have "distinct [''s1'', ''s2'']" "\<forall>fs \<in> ran ?fm. length fs < 2 ^ 64 - 1" by simp_all
  from responsible_servers_are_replicas [OF this, where result = Map.empty and leaderMap = ?lm and c = 1 and s = "''s1''"]
  have "''a'' \<in> replicas ?lm ?fm ''s1''" unfolding out by simp
  with out show ?thesis by (simp only: Let_def)
qed


section \<open>One counter for all shards\<close>

definition all_replicated :: "(string \<rightharpoonup> string) \<Rightarrow> (string \<rightharpoonup> string list) \<Rightarrow> string list \<Rightarrow> bool" where
  "all_replicated lm fm shards \<longleftrightarrow>
     (\<forall>s \<in> set shards. \<exists>l fs. lm s = Some l \<and> fm s = Some fs \<and> fs \<noteq> [] \<and> length fs < 2 ^ 64 - 1)"

text \<open>In one request the shards take consecutive numbers.\<close>

lemma responsible_loop_nth:
  assumes "all_replicated lm fm shards" and "distinct shards" and "unat c + length shards < 2 ^ 64"
  shows "snd (responsible_loop lm fm shards (res, c)) = c + of_nat (length shards) \<and>
    (\<forall>p l fs. p < length shards \<and> lm (shards ! p) = Some l \<and> fm (shards ! p) = Some fs \<longrightarrow>
      fst (responsible_loop lm fm shards (res, c)) (shards ! p) = Some ((l # fs) ! ((unat c + p) mod Suc (length fs))))"
  using assms
proof (induction shards arbitrary: c res)
  case (Cons s shards)
  obtain l fs where r: "lm s = Some l" "fm s = Some fs" "fs \<noteq> []" "length fs < 2 ^ 64 - 1"
    and rest: "all_replicated lm fm shards" using Cons.prems(1) by (auto simp: all_replicated_def)
  have c1: "unat (c + 1) = Suc (unat c)" using Cons.prems(3) by (simp add: unat_word_ariths)
  then have small: "unat (c + 1) + length shards < 2 ^ 64" using Cons.prems(3) by simp
  define res' where "res' = res(s \<mapsto> rs_serverId (fst (chooseReplica l fs c)))"
  have loop: "responsible_loop lm fm (s # shards) (res, c) = responsible_loop lm fm shards (res', c + 1)"
    by (simp add: r(1,2) split_beta chooseReplica_index(2) [OF r(3,4)] res'_def)
  have d: "s \<notin> set shards" "distinct shards" using Cons.prems(2) by simp_all
  note IH = Cons.IH [OF rest d(2) small, of res']
  have "fst (responsible_loop lm fm (s # shards) (res, c)) ((s # shards) ! p) =
      Some ((l' # fs') ! ((unat c + p) mod Suc (length fs')))"
    if p: "p < length (s # shards)" "lm ((s # shards) ! p) = Some l'" "fm ((s # shards) ! p) = Some fs'" for p l' fs'
  proof (cases p)
    case 0
    then have "l' = l" "fs' = fs" using p(2,3) r(1,2) by simp_all
    then show ?thesis
      using 0 d(1) chooseReplica_index(1) [OF r(3,4), of l c] unfolding loop
      by (simp add: responsible_loop_other res'_def)
  next
    case (Suc q)
    have "q < length shards" "lm (shards ! q) = Some l'" "fm (shards ! q) = Some fs'" using p Suc by simp_all
    then show ?thesis using IH unfolding loop by (simp add: Suc c1)
  qed
  moreover have "snd (responsible_loop lm fm (s # shards) (res, c)) = c + of_nat (length (s # shards))"
    using IH unfolding loop by simp
  ultimately show ?case by blast
qed simp

text \<open>So when the number of shards of a request is a multiple of a shard's number of replicas, every such
  request reads that shard from the same server: two shards with two replicas each, for instance, are
  read from one leader and one follower for ever.\<close>

lemma shared_counter_pins_replica:
  assumes "all_replicated lm fm shards" and "distinct shards" and "unat c + 2 * length shards < 2 ^ 64"
    and "s \<in> set shards" and "fm s = Some fs" and "Suc (length fs) dvd length shards"
    and "getResponsibleServersReadFromFollower shards res lm fm c = (first, c')"
  shows "fst (getResponsibleServersReadFromFollower shards res' lm fm c') s = first s"
proof -
  obtain p where p: "p < length shards" "shards ! p = s" using assms(4) by (auto simp: in_set_conv_nth)
  obtain l where l: "lm s = Some l" using assms(1,4) by (auto simp: all_replicated_def)
  have small: "unat c + length shards < 2 ^ 64" using assms(3) by simp
  have c': "c' = c + of_nat (length shards)"
    using responsible_loop_nth [OF assms(1,2) small, of Map.empty] assms(7)
    by (simp add: getResponsibleServersReadFromFollower_def)
  have n: "unat (of_nat (length shards) :: u64) = length shards" using small by (simp add: unat_of_nat)
  then have c'n: "unat c' = unat c + length shards" unfolding c' using small by (simp add: unat_word_ariths)
  have "first s = Some ((l # fs) ! ((unat c + p) mod Suc (length fs)))"
    using responsible_loop_nth [OF assms(1,2) small, of Map.empty] p l assms(5,7)
    by (auto simp: getResponsibleServersReadFromFollower_def)
  moreover have "fst (getResponsibleServersReadFromFollower shards res' lm fm c') s =
      Some ((l # fs) ! ((unat c' + p) mod Suc (length fs)))"
    unfolding getResponsibleServersReadFromFollower_def
    using responsible_loop_nth [OF assms(1,2), of c' Map.empty] p l assms(3,5) c'n by auto
  moreover have "(unat c' + p) mod Suc (length fs) = (unat c + p) mod Suc (length fs)"
  proof -
    obtain k where "length shards = k * Suc (length fs)" using assms(6) by (metis dvd_def mult.commute)
    then have "unat c' + p = (unat c + p) + k * Suc (length fs)" by (simp add: c'n)
    then show ?thesis by (simp only: mod_mult_self1)
  qed
  ultimately show ?thesis by simp
qed

end
