(* ===== verification/Wal_Tailing.thy ===== *)
theory Wal_Tailing
  imports Sharding_Graph Satellite_Reads
begin

text \<open>
  Reading the write-ahead log of the source cluster: the iterator interface
  (\<^verbatim>\<open>IWALIterator.h\<close>), the tailer that keeps one shard's entries
  (\<^verbatim>\<open>ShardWALTailer.cpp\<close>) and the batcher that groups them
  (\<^verbatim>\<open>MessageBatcher.cpp\<close>).  The iterator is an argument (a record of its virtual
  functions); the locale \<open>wal_iterator\<close> states what they promise and is interpreted on the
  repository's in-memory iterator.  The collection resolver is a function argument; the sequence
  provider and the clock thread a state of their own.
\<close>

section \<open>Entries and the iterator interface\<close>

datatype wal_operation = kInsert | kUpdate | kDelete

record wal_entry =
  we_sequenceNumber :: u64
  we_timestamp :: u64
  we_collectionName :: string
  we_documentKey :: string
  we_operation :: wal_operation
  we_payload :: string

record 'i wal_iterator =
  it_valid :: "'i \<Rightarrow> bool"
  it_entry :: "'i \<Rightarrow> wal_entry"
  it_next :: "'i \<Rightarrow> 'i"
  it_seek :: "'i \<Rightarrow> u64 \<Rightarrow> 'i"

section \<open>ShardWALTailer\<close>

record collection_info =
  ci_replicationFactor :: u64
  ci_numberOfShards :: u32

type_synonym resolver = "string \<Rightarrow> collection_info option"

record 'i tailer =
  tl_shardIndex :: u32
  tl_numberOfShards :: u32
  tl_iterator :: 'i
  tl_stopped :: bool
  tl_lastProcessedSeq :: u64
  tl_infoCache :: "string \<rightharpoonup> collection_info"

definition new_tailer :: "u32 \<Rightarrow> u32 \<Rightarrow> 'i \<Rightarrow> 'i tailer" where
  "new_tailer shardIndex numberOfShards iterator =
     \<lparr>tl_shardIndex = shardIndex, tl_numberOfShards = numberOfShards, tl_iterator = iterator,
      tl_stopped = False, tl_lastProcessedSeq = 0, tl_infoCache = Map.empty\<rparr>"

definition belongsToShard :: "'i tailer \<Rightarrow> wal_entry \<Rightarrow> bool" where
  "belongsToShard t e \<longleftrightarrow>
     (if tl_numberOfShards t \<le> 1 then True
      else computeShardIndex (we_documentKey e) (tl_numberOfShards t) = Some (tl_shardIndex t))"

text \<open>Answer and cache: a hit answers from the cache, a miss resolves and caches, an unknown
  collection is not skipped and not cached.\<close>

definition isSatelliteEntry :: "resolver \<Rightarrow> 'i tailer \<Rightarrow> wal_entry \<Rightarrow> bool \<times> 'i tailer" where
  "isSatelliteEntry res t e =
     (case tl_infoCache t (we_collectionName e) of
        Some info \<Rightarrow> (isSatellite (ci_replicationFactor info), t)
      | None \<Rightarrow>
          (case res (we_collectionName e) of
             None \<Rightarrow> (False, t)
           | Some info \<Rightarrow>
               (isSatellite (ci_replicationFactor info),
                t\<lparr>tl_infoCache := (tl_infoCache t)(we_collectionName e \<mapsto> info)\<rparr>)))"

text \<open>One turn of the loop of \<open>poll\<close>; the \<open>else if\<close> asks again and does nothing with the answer.\<close>

definition poll_step ::
  "'i wal_iterator \<Rightarrow> resolver \<Rightarrow> 'i tailer \<Rightarrow> wal_entry list \<Rightarrow> 'i tailer \<times> wal_entry list" where
  "poll_step it res t result =
     (let current = it_entry it (tl_iterator t);
          (sat, t) = isSatelliteEntry res t current;
          (t, result) =
            (if \<not> sat \<and> belongsToShard t current
             then (t\<lparr>tl_lastProcessedSeq := we_sequenceNumber current\<rparr>, result @ [current])
             else (snd (isSatelliteEntry res t current), result));
          t = (if we_sequenceNumber current > tl_lastProcessedSeq t
               then t\<lparr>tl_lastProcessedSeq := we_sequenceNumber current\<rparr> else t)
      in (t\<lparr>tl_iterator := it_next it (tl_iterator t)\<rparr>, result))"

text \<open>\<open>stop k\<close> tells whether another thread has called \<open>stop()\<close> by the \<open>k\<close>-th turn.  The loop need
  not end for an arbitrary iterator: \<open>None\<close> is a poll that does not return.\<close>

partial_function (option) poll_loop ::
  "'i wal_iterator \<Rightarrow> resolver \<Rightarrow> (nat \<Rightarrow> bool) \<Rightarrow> nat \<Rightarrow> nat \<Rightarrow> 'i tailer \<Rightarrow> wal_entry list \<Rightarrow>
     ('i tailer \<times> wal_entry list) option" where
  "poll_loop it res stop mx k t result =
     (if it_valid it (tl_iterator t) \<and> \<not> (tl_stopped t \<or> stop k) \<and> length result < mx
      then poll_loop it res stop mx (Suc k) (fst (poll_step it res t result)) (snd (poll_step it res t result))
      else Some (t, result))"

definition poll ::
  "'i wal_iterator \<Rightarrow> resolver \<Rightarrow> (nat \<Rightarrow> bool) \<Rightarrow> 'i tailer \<Rightarrow> u32 \<Rightarrow> ('i tailer \<times> wal_entry list) option" where
  "poll it res stop t maxEntries = poll_loop it res stop (unat maxEntries) 0 t []"

definition seekTo :: "'i wal_iterator \<Rightarrow> 'i tailer \<Rightarrow> u64 \<Rightarrow> 'i tailer" where
  "seekTo it t sequenceNumber =
     t\<lparr>tl_iterator := it_seek it (tl_iterator t) sequenceNumber,
       tl_lastProcessedSeq := (if sequenceNumber > 0 then sequenceNumber - 1 else 0)\<rparr>"

definition tailer_stop :: "'i tailer \<Rightarrow> 'i tailer" where
  "tailer_stop t = t\<lparr>tl_stopped := True\<rparr>"

section \<open>MessageBatcher\<close>

record message_batch =
  mb_shardId :: string
  mb_sequenceNumber :: u64
  mb_entries :: "wal_entry list"
  mb_batchTimestamp :: u64

record batcher =
  ba_shardId :: string
  ba_batchSize :: u32
  ba_pending :: "wal_entry list"

type_synonym 'w source = "'w \<Rightarrow> u64 \<times> 'w"

definition new_batcher :: "string \<Rightarrow> u32 \<Rightarrow> batcher" where
  "new_batcher shardId batchSize = \<lparr>ba_shardId = shardId, ba_batchSize = batchSize, ba_pending = []\<rparr>"

definition seal :: "'w source \<Rightarrow> 'w source \<Rightarrow> batcher \<Rightarrow> 'w \<Rightarrow> message_batch \<times> batcher \<times> 'w" where
  "seal clock provider b w =
     (let (now, w) = clock w;
          (q, w) = provider w
      in (\<lparr>mb_shardId = ba_shardId b, mb_sequenceNumber = q, mb_entries = ba_pending b,
           mb_batchTimestamp = now\<rparr>, b\<lparr>ba_pending := []\<rparr>, w))"

definition batcher_add ::
  "'w source \<Rightarrow> 'w source \<Rightarrow> batcher \<Rightarrow> wal_entry \<Rightarrow> 'w \<Rightarrow> message_batch option \<times> batcher \<times> 'w" where
  "batcher_add clock provider b entry w =
     (let b = b\<lparr>ba_pending := ba_pending b @ [entry]\<rparr>
      in if length (ba_pending b) \<ge> unat (ba_batchSize b)
         then let (m, b, w) = seal clock provider b w in (Some m, b, w)
         else (None, b, w))"

definition batcher_flush ::
  "'w source \<Rightarrow> 'w source \<Rightarrow> batcher \<Rightarrow> 'w \<Rightarrow> message_batch option \<times> batcher \<times> 'w" where
  "batcher_flush clock provider b w =
     (if ba_pending b = [] then (None, b, w)
      else let (m, b, w) = seal clock provider b w in (Some m, b, w))"

definition batcher_reset :: "batcher \<Rightarrow> batcher" where
  "batcher_reset b = b\<lparr>ba_pending := []\<rparr>"

definition pendingCount :: "batcher \<Rightarrow> u32" where
  "pendingCount b = of_nat (length (ba_pending b))"

text \<open>A run of adds and flushes, and the batches it emits in order.\<close>

datatype batch_op = Add wal_entry | Flush

fun batcher_step ::
  "'w source \<Rightarrow> 'w source \<Rightarrow> message_batch list \<times> batcher \<times> 'w \<Rightarrow> batch_op \<Rightarrow>
     message_batch list \<times> batcher \<times> 'w" where
  "batcher_step clock provider (out, b, w) (Add e) =
     (let (m, b, w) = batcher_add clock provider b e w
      in (out @ (case m of None \<Rightarrow> [] | Some m \<Rightarrow> [m]), b, w))"
| "batcher_step clock provider (out, b, w) Flush =
     (let (m, b, w) = batcher_flush clock provider b w
      in (out @ (case m of None \<Rightarrow> [] | Some m \<Rightarrow> [m]), b, w))"

section \<open>Batching keeps the entries and their order\<close>

definition added :: "batch_op list \<Rightarrow> wal_entry list" where
  "added ops = concat (map (\<lambda>x. case x of Add e \<Rightarrow> [e] | Flush \<Rightarrow> []) ops)"

definition batches_ok :: "string \<Rightarrow> u32 \<Rightarrow> wal_entry list \<Rightarrow> message_batch list \<Rightarrow> batcher \<Rightarrow> bool" where
  "batches_ok s n es out b \<longleftrightarrow>
     concat (map mb_entries out) @ ba_pending b = es \<and> ba_shardId b = s \<and> ba_batchSize b = n \<and>
     length (ba_pending b) < max 1 (unat n) \<and>
     (\<forall>m \<in> set out. mb_shardId m = s \<and> mb_entries m \<noteq> [] \<and> length (mb_entries m) \<le> max 1 (unat n))"

lemma seal_eq:
  "seal clock provider b w =
     (\<lparr>mb_shardId = ba_shardId b, mb_sequenceNumber = fst (provider (snd (clock w))),
       mb_entries = ba_pending b, mb_batchTimestamp = fst (clock w)\<rparr>,
      b\<lparr>ba_pending := []\<rparr>, snd (provider (snd (clock w))))"
  by (simp add: seal_def split_beta)

lemma batcher_step_ok:
  assumes "batches_ok s n es out b" and "batcher_step clock provider (out, b, w) x = (out', b', w')"
  shows "batches_ok s n (es @ added [x]) out' b'"
proof (cases x)
  case (Add e)
  with assms show ?thesis
    by (auto simp: batches_ok_def batcher_add_def seal_eq Let_def added_def split: if_splits)
next
  case Flush
  with assms show ?thesis
    by (auto simp: batches_ok_def batcher_flush_def seal_eq Let_def added_def split: if_splits)
qed

lemma batcher_run_ok:
  "batches_ok s n es out b \<Longrightarrow> foldl (batcher_step clock provider) (out, b, w) ops = (out', b', w') \<Longrightarrow>
     batches_ok s n (es @ added ops) out' b'"
proof (induction ops arbitrary: es out b w)
  case Nil
  then show ?case by (simp add: added_def)
next
  case (Cons x ops)
  obtain o1 b1 w1 where st: "batcher_step clock provider (out, b, w) x = (o1, b1, w1)"
    by (cases "batcher_step clock provider (out, b, w) x") auto
  have "batches_ok s n ((es @ added [x]) @ added ops) out' b'"
    by (rule Cons.IH [OF batcher_step_ok [OF Cons.prems(1) st]]) (use Cons.prems(2) st in simp)
  then show ?case by (simp add: added_def)
qed

lemma batches_ok_new: "batches_ok s n [] [] (new_batcher s n)"
  by (simp add: batches_ok_def new_batcher_def)

section \<open>The iterator's contract, and polling over it\<close>

definition satellite_collection :: "resolver \<Rightarrow> string \<Rightarrow> bool" where
  "satellite_collection res c = (case res c of None \<Rightarrow> False | Some info \<Rightarrow> isSatellite (ci_replicationFactor info))"

text \<open>The entries a tailer yields, and the cache it may have built.\<close>

definition mine :: "resolver \<Rightarrow> u32 \<Rightarrow> u32 \<Rightarrow> wal_entry \<Rightarrow> bool" where
  "mine res i n e \<longleftrightarrow> \<not> satellite_collection res (we_collectionName e) \<and>
     (n \<le> 1 \<or> computeShardIndex (we_documentKey e) n = Some i)"

definition cache_ok :: "resolver \<Rightarrow> 'i tailer \<Rightarrow> bool" where
  "cache_ok res t \<longleftrightarrow> (\<forall>c info. tl_infoCache t c = Some info \<longrightarrow> res c = Some info)"

lemma isSatelliteEntry_eq:
  assumes "cache_ok res t" and "isSatelliteEntry res t e = (sat, t')"
  shows "sat = satellite_collection res (we_collectionName e)" and "cache_ok res t'"
    and "tl_iterator t' = tl_iterator t" and "tl_shardIndex t' = tl_shardIndex t"
    and "tl_numberOfShards t' = tl_numberOfShards t" and "tl_stopped t' = tl_stopped t"
  using assms by (auto simp: isSatelliteEntry_def cache_ok_def satellite_collection_def split: option.splits if_splits)

lemma poll_step_eq:
  fixes t :: "'i tailer"
  assumes "cache_ok res t" and "poll_step it res t result = (t', result')"
  defines "e \<equiv> it_entry it (tl_iterator t)"
  shows "result' = result @ (if mine res (tl_shardIndex t) (tl_numberOfShards t) e then [e] else [])"
    and "cache_ok res t'" and "tl_iterator t' = it_next it (tl_iterator t)"
    and "tl_shardIndex t' = tl_shardIndex t" and "tl_numberOfShards t' = tl_numberOfShards t"
    and "tl_stopped t' = tl_stopped t"
proof -
  obtain sat t1 where s1: "isSatelliteEntry res t e = (sat, t1)" by (cases "isSatelliteEntry res t e")
  note i1 = isSatelliteEntry_eq [OF assms(1) s1]
  obtain sat2 t2 where s2: "isSatelliteEntry res t1 e = (sat2, t2)" by (cases "isSatelliteEntry res t1 e")
  note i2 = isSatelliteEntry_eq [OF i1(2) s2]
  have co: "cache_ok res (u\<lparr>tl_lastProcessedSeq := q, tl_iterator := i\<rparr>) = cache_ok res u"
    "cache_ok res (u\<lparr>tl_lastProcessedSeq := q\<rparr>) = cache_ok res u"
    "cache_ok res (u\<lparr>tl_iterator := i\<rparr>) = cache_ok res u" for u :: "'i tailer" and q i
    by (simp_all add: cache_ok_def)
  let ?out = "poll_step it res t result"
  have "snd ?out = result @ (if mine res (tl_shardIndex t) (tl_numberOfShards t) e then [e] else []) \<and>
      cache_ok res (fst ?out) \<and> tl_iterator (fst ?out) = it_next it (tl_iterator t) \<and>
      tl_shardIndex (fst ?out) = tl_shardIndex t \<and> tl_numberOfShards (fst ?out) = tl_numberOfShards t \<and>
      tl_stopped (fst ?out) = tl_stopped t"
    using s1 s2 i1 i2 unfolding poll_step_def e_def [symmetric]
    by (simp add: Let_def co mine_def belongsToShard_def)
  with assms(2) show "result' = result @ (if mine res (tl_shardIndex t) (tl_numberOfShards t) e then [e] else [])"
    and "cache_ok res t'" and "tl_iterator t' = it_next it (tl_iterator t)"
    and "tl_shardIndex t' = tl_shardIndex t" and "tl_numberOfShards t' = tl_numberOfShards t"
    and "tl_stopped t' = tl_stopped t" by simp_all
qed

locale wal_reader =
  fixes it :: "'i wal_iterator"
    and whole remaining :: "'i \<Rightarrow> wal_entry list"
    and wf :: "'i \<Rightarrow> bool"
  assumes valid_iff: "it_valid it i \<longleftrightarrow> remaining i \<noteq> []"
    and entry_hd: "remaining i \<noteq> [] \<Longrightarrow> it_entry it i = hd (remaining i)"
    and next_tl: "remaining i \<noteq> [] \<Longrightarrow> remaining (it_next it i) = tl (remaining i)"
    and whole_next: "whole (it_next it i) = whole i"
    and wf_next: "wf i \<Longrightarrow> wf (it_next it i)"
    and wf_seek: "wf (it_seek it i q)"
    and seek_first: "remaining (it_seek it i q) = dropWhile (\<lambda>e. we_sequenceNumber e < q) (whole i)"
begin

text \<open>A poll returns; it yields the tailer's entries of some consumed prefix, and without a stop
  it ends only at the limit or at the end of the log.\<close>

lemma poll_loop_consumes:
  "cache_ok res t \<Longrightarrow> \<exists>t' m. poll_loop it res stop mx k t result =
       Some (t', result @ filter (mine res (tl_shardIndex t) (tl_numberOfShards t)) (take m (remaining (tl_iterator t)))) \<and>
     remaining (tl_iterator t') = drop m (remaining (tl_iterator t)) \<and> whole (tl_iterator t') = whole (tl_iterator t) \<and>
     cache_ok res t' \<and> tl_shardIndex t' = tl_shardIndex t \<and> tl_numberOfShards t' = tl_numberOfShards t \<and>
     tl_stopped t' = tl_stopped t \<and> (wf (tl_iterator t) \<longrightarrow> wf (tl_iterator t')) \<and>
     ((\<forall>j. \<not> stop j) \<and> \<not> tl_stopped t \<longrightarrow> remaining (tl_iterator t') = [] \<or>
        length (result @ filter (mine res (tl_shardIndex t) (tl_numberOfShards t)) (take m (remaining (tl_iterator t)))) \<ge> mx)"
proof (induction "length (remaining (tl_iterator t))" arbitrary: k t result rule: less_induct)
  case less
  let ?r = "remaining (tl_iterator t)"
  let ?keep = "mine res (tl_shardIndex t) (tl_numberOfShards t)"
  show ?case
  proof (cases "it_valid it (tl_iterator t) \<and> \<not> (tl_stopped t \<or> stop k) \<and> length result < mx")
    case False
    have "poll_loop it res stop mx k t result = Some (t, result)"
      by (subst poll_loop.simps) (simp only: False if_False)
    then show ?thesis using False less.prems
      by (intro exI [of _ t] exI [of _ 0]) (auto simp: valid_iff)
  next
    case True
    then have ne: "?r \<noteq> []" by (simp add: valid_iff)
    obtain t1 result1 where st: "poll_step it res t result = (t1, result1)"
      by (cases "poll_step it res t result")
    note s = poll_step_eq [OF less.prems st]
    have r1: "remaining (tl_iterator t1) = tl ?r" using next_tl [OF ne] by (simp add: s)
    have shorter: "length (remaining (tl_iterator t1)) < length ?r" using ne by (simp add: r1)
    have res1: "result1 = result @ (if ?keep (hd ?r) then [hd ?r] else [])"
      using s(1) entry_hd [OF ne] by simp
    have unfold: "poll_loop it res stop mx k t result = poll_loop it res stop mx (Suc k) t1 result1"
      by (subst poll_loop.simps) (simp only: True if_True st fst_conv snd_conv simp_thms)
    from less.hyps [OF shorter s(2), of "Suc k" result1] obtain t' m where
      t': "poll_loop it res stop mx (Suc k) t1 result1 = Some (t', result1 @ filter ?keep (take m (tl ?r)))"
        "remaining (tl_iterator t') = drop m (tl ?r)" "whole (tl_iterator t') = whole (tl_iterator t1)"
        "cache_ok res t'" "tl_shardIndex t' = tl_shardIndex t" "tl_numberOfShards t' = tl_numberOfShards t"
        "tl_stopped t' = tl_stopped t" "wf (tl_iterator t1) \<longrightarrow> wf (tl_iterator t')"
        "(\<forall>j. \<not> stop j) \<and> \<not> tl_stopped t \<longrightarrow> remaining (tl_iterator t') = [] \<or>
           length (result1 @ filter ?keep (take m (tl ?r))) \<ge> mx"
      unfolding r1 s(4-6) by blast
    have tk: "result1 @ filter ?keep (take m (tl ?r)) = result @ filter ?keep (take (Suc m) ?r)"
      using ne by (cases ?r) (simp_all add: res1)
    have dr: "drop m (tl ?r) = drop (Suc m) ?r" by (simp add: drop_Suc)
    note t'' = t' [unfolded tk dr, folded unfold]
    have w: "whole (tl_iterator t') = whole (tl_iterator t)" unfolding t'(3) s(3) by (rule whole_next)
    have wf: "wf (tl_iterator t) \<longrightarrow> wf (tl_iterator t')" using t'(8) wf_next s(3) by simp
    show ?thesis
      by (rule exI [of _ t'], rule exI [of _ "Suc m"]) (intro conjI t'' w wf)
  qed
qed

lemma poll_consumes:
  assumes "cache_ok res t"
  obtains t' m where "poll it res stop t mx =
       Some (t', filter (mine res (tl_shardIndex t) (tl_numberOfShards t)) (take m (remaining (tl_iterator t))))"
    "remaining (tl_iterator t') = drop m (remaining (tl_iterator t))" "whole (tl_iterator t') = whole (tl_iterator t)"
    "cache_ok res t'" "tl_shardIndex t' = tl_shardIndex t" "tl_numberOfShards t' = tl_numberOfShards t"
    "tl_stopped t' = tl_stopped t" "wf (tl_iterator t) \<Longrightarrow> wf (tl_iterator t')"
    "(\<forall>j. \<not> stop j) \<Longrightarrow> \<not> tl_stopped t \<Longrightarrow> remaining (tl_iterator t') \<noteq> [] \<Longrightarrow>
       unat mx \<le> length (filter (mine res (tl_shardIndex t) (tl_numberOfShards t)) (take m (remaining (tl_iterator t))))"
proof -
  let ?keep = "mine res (tl_shardIndex t) (tl_numberOfShards t)"
  from poll_loop_consumes [OF assms, of stop "unat mx" 0 "[]"] obtain t' m where
    p: "poll it res stop t mx = Some (t', filter ?keep (take m (remaining (tl_iterator t))))"
      "remaining (tl_iterator t') = drop m (remaining (tl_iterator t)) \<and> whole (tl_iterator t') = whole (tl_iterator t) \<and>
       cache_ok res t' \<and> tl_shardIndex t' = tl_shardIndex t \<and> tl_numberOfShards t' = tl_numberOfShards t \<and>
       tl_stopped t' = tl_stopped t \<and> (wf (tl_iterator t) \<longrightarrow> wf (tl_iterator t'))"
      "(\<forall>j. \<not> stop j) \<and> \<not> tl_stopped t \<longrightarrow> remaining (tl_iterator t') = [] \<or>
        unat mx \<le> length (filter ?keep (take m (remaining (tl_iterator t))))"
    unfolding poll_def append_Nil by blast
  show ?thesis by (rule that [OF p(1)]) (use p(2,3) in blast)+
qed

end

subsection \<open>The in-memory iterator of the repository\<close>

record mock_wal_iterator =
  mk_entries :: "wal_entry list"
  mk_pos :: nat

definition mock_addEntry :: "mock_wal_iterator \<Rightarrow> wal_entry \<Rightarrow> mock_wal_iterator" where
  "mock_addEntry i e = i\<lparr>mk_entries := mk_entries i @ [e]\<rparr>"

definition mock_iterator :: "mock_wal_iterator wal_iterator" where
  "mock_iterator = \<lparr>
     it_valid = (\<lambda>i. mk_pos i < length (mk_entries i)),
     it_entry = (\<lambda>i. mk_entries i ! mk_pos i),
     it_next = (\<lambda>i. if mk_pos i < length (mk_entries i) then i\<lparr>mk_pos := mk_pos i + 1\<rparr> else i),
     it_seek = (\<lambda>i q. i\<lparr>mk_pos := length (takeWhile (\<lambda>e. we_sequenceNumber e < q) (mk_entries i))\<rparr>)\<rparr>"

abbreviation mock_remaining :: "mock_wal_iterator \<Rightarrow> wal_entry list" where
  "mock_remaining i \<equiv> drop (mk_pos i) (mk_entries i)"

definition mock_ok :: "mock_wal_iterator \<Rightarrow> bool" where
  "mock_ok i \<longleftrightarrow> mk_pos i \<le> length (mk_entries i)"

interpretation mock: wal_reader mock_iterator mk_entries mock_remaining mock_ok
  by unfold_locales (auto simp: mock_iterator_def mock_ok_def hd_drop_conv_nth drop_Suc tl_drop
      dropWhile_eq_drop length_takeWhile_le)

lemma mine_partition:
  assumes "0 < n"
  shows "(\<exists>!i. i < n \<and> mine res i n e) \<longleftrightarrow> \<not> satellite_collection res (we_collectionName e)"
proof (cases "n \<le> 1")
  case True
  with assms have "n = 1" by (auto simp: word_le_nat_alt word_less_nat_alt word_unat_eq_iff)
  then have "i < n \<longleftrightarrow> i = 0" for i
    by (auto simp: word_less_nat_alt word_unat_eq_iff)
  then show ?thesis using True by (auto simp: mine_def)
next
  case False
  obtain j where j: "j < n" "computeShardIndex (we_documentKey e) n = Some j"
    using computeShardIndex_total [OF assms] by blast
  with False show ?thesis by (auto simp: mine_def)
qed

section \<open>Properties\<close>

text \<open>C26. Batching loses, repeats and reorders nothing: after any sequence of adds and flushes the
  entries of the emitted batches, in order, followed by the pending ones, are the entries added;
  every batch carries the shard, is not empty and has at most \<open>batchSize\<close> entries, and fewer than
  \<open>batchSize\<close> are ever left pending (a batch size of 0 behaves as 1).\<close>

theorem batching_preserves_entries:
  assumes "foldl (batcher_step clock provider) ([], new_batcher s n, w) ops = (out, b, w')"
  shows "concat (map mb_entries out) @ ba_pending b = added ops \<and>
         length (ba_pending b) < max 1 (unat n) \<and>
         (\<forall>m \<in> set out. mb_shardId m = s \<and> mb_entries m \<noteq> [] \<and> length (mb_entries m) \<le> max 1 (unat n))"
  using batcher_run_ok [OF batches_ok_new assms] by (simp add: batches_ok_def)

definition sample_entry :: "u64 \<Rightarrow> wal_entry" where
  "sample_entry q = \<lparr>we_sequenceNumber = q, we_timestamp = 0, we_collectionName = ''c'',
     we_documentKey = ''k'', we_operation = kInsert, we_payload = []\<rparr>"

lemma batching_preserves_entries_witness:
  "let run = foldl (batcher_step (\<lambda>w. (0, w)) (\<lambda>w. (w, w + 1))) ([], new_batcher ''s'' 2, 1)
               [Add (sample_entry 1), Add (sample_entry 2), Add (sample_entry 3), Flush];
       out = fst run
   in map mb_sequenceNumber out = [1, 2] \<and>
      concat (map mb_entries out) = [sample_entry 1, sample_entry 2, sample_entry 3]"
proof -
  let ?ops = "[Add (sample_entry 1), Add (sample_entry 2), Add (sample_entry 3), Flush]"
  let ?run = "foldl (batcher_step (\<lambda>w. (0, w)) (\<lambda>w. (w, w + 1))) ([], new_batcher ''s'' 2, 1) ?ops"
  have run: "?run = (fst ?run, fst (snd ?run), snd (snd ?run))" by simp
  have "map mb_sequenceNumber (fst ?run) = [1, 2]" "ba_pending (fst (snd ?run)) = []"
    by (simp_all add: new_batcher_def batcher_add_def batcher_flush_def seal_eq Let_def)
  with batching_preserves_entries [OF run] show ?thesis
    by (simp only: Let_def) (simp add: added_def)
qed

text \<open>C17. The shard tailers partition the log: with \<open>n > 0\<close> shards, a tailer started at the
  beginning of the log and not stopped returns from \<open>poll\<close> with the entries of its shard, in log
  order, and every entry is the entry of exactly one shard, or of none when its collection is a
  satellite.\<close>

theorem tailers_partition_log:
  assumes "0 < n" and "length log < unat mx"
  shows "(\<exists>t'. poll mock_iterator res (\<lambda>_. False) (new_tailer i n \<lparr>mk_entries = log, mk_pos = 0\<rparr>) mx =
            Some (t', filter (mine res i n) log)) \<and>
         ((\<exists>!j. j < n \<and> mine res j n e) \<longleftrightarrow> \<not> satellite_collection res (we_collectionName e))"
proof -
  let ?t = "new_tailer i n \<lparr>mk_entries = log, mk_pos = 0\<rparr>"
  have "cache_ok res ?t" by (simp add: cache_ok_def new_tailer_def)
  from mock.poll_consumes [OF this, of "\<lambda>_. False" mx] obtain t' m where
    p: "poll mock_iterator res (\<lambda>_. False) ?t mx = Some (t', filter (mine res i n) (take m log))"
      "mock_remaining (tl_iterator t') = drop m log"
      "mock_remaining (tl_iterator t') \<noteq> [] \<Longrightarrow> unat mx \<le> length (filter (mine res i n) (take m log))"
    by (simp add: new_tailer_def) blast
  have "length (filter (mine res i n) (take m log)) \<le> length log"
    by (rule order_trans [OF length_filter_le]) simp
  then have "drop m log = []" using p(2,3) assms(2) by fastforce
  then show ?thesis using p(1) mine_partition [OF assms(1)] by auto
qed

lemma tailers_partition_log_witness:
  "\<exists>t'. poll mock_iterator (\<lambda>c. if c = ''sat'' then Some \<lparr>ci_replicationFactor = 0, ci_numberOfShards = 1\<rparr> else None)
     (\<lambda>_. False) (new_tailer 0 1 \<lparr>mk_entries = [sample_entry 1, (sample_entry 2)\<lparr>we_collectionName := ''sat''\<rparr>], mk_pos = 0\<rparr>) 10
     = Some (t', [sample_entry 1])"
proof -
  let ?res = "\<lambda>c. if c = ''sat'' then Some \<lparr>ci_replicationFactor = 0, ci_numberOfShards = 1\<rparr> else None"
  let ?log = "[sample_entry 1, (sample_entry 2)\<lparr>we_collectionName := ''sat''\<rparr>]"
  have f: "filter (mine ?res 0 1) ?log = [sample_entry 1]"
    by (simp add: mine_def satellite_collection_def isSatellite_def kSatelliteReplicationFactor_def sample_entry_def)
  have "(0 :: u32) < 1" "length ?log < unat (10 :: u32)" by simp_all
  from tailers_partition_log [OF this, of ?res 0 "sample_entry 1"] show ?thesis unfolding f by blast
qed

text \<open>The shard a tailer claims is computed from the whole document key, the placement strategies
  hash the smart prefix: for a smart key the two can differ.\<close>

lemma tailer_shard_differs_from_placement:
  "hex_vertex_shard ''eu:a'' 2 = Some 1 \<and>
   \<not> mine (\<lambda>_. None) 1 2 ((sample_entry 1)\<lparr>we_documentKey := ''eu:a''\<rparr>)"
  by (simp add: hex_vertex_shard_def extractSmartPrefix_eq computeShardIndex_def fnv_step_def
      kFnvOffsetBasis_def kFnvPrime_def mine_def satellite_collection_def sample_entry_def
      word_le_nat_alt)

end
