(* ===== verification/Checkpoint_File.thy ===== *)
theory Checkpoint_File
  imports Sequence_Numbers
begin

text \<open>
  Persistence of the tracker (\<^verbatim>\<open>Enterprise/Replication/ReplicationCheckpoint.cpp\<close>):
  the hand-written JSON text, the write-to-temporary-then-rename protocol over a small file
  system, and the hand-written parser that reads the file back.  The outcome of the operating
  system's calls is an argument of the operations.
\<close>

section \<open>File system and results\<close>

text \<open>The regular files the code touches, by path.\<close>

type_synonym file_system = "string \<rightharpoonup> string"

record checkpoint_result =
  cr_success :: bool
  cr_error :: string

definition checkpoint_ok :: checkpoint_result where
  "checkpoint_ok = \<lparr>cr_success = True, cr_error = []\<rparr>"

definition checkpoint_error :: "string \<Rightarrow> checkpoint_result" where
  "checkpoint_error e = \<lparr>cr_success = False, cr_error = e\<rparr>"

section \<open>Saving\<close>

text \<open>One iteration of the loop over the map: the separator unless it is the first entry, then
  the entry.\<close>

fun save_entries :: "bool \<Rightarrow> (string \<times> u64) list \<Rightarrow> string" where
  \<open>save_entries first [] = []\<close>
| \<open>save_entries first ((shardId, seq) # rest) =
     (if \<not> first then '','' else []) @
     ''\<newline>    "'' @ shardId @ ''": '' @ dec (unat seq) @ save_entries False rest\<close>

definition checkpoint_text :: "(string \<times> u64) list \<Rightarrow> string" where
  \<open>checkpoint_text state =
     ''{\<newline>  "version": 1,\<newline>  "shards": {'' @ save_entries True state @ ''\<newline>  }\<newline>}\<newline>''\<close>

text \<open>What the operating system answers: everything works; the temporary file cannot be opened;
  the write breaks off after some bytes; the rename fails with a message.\<close>

datatype save_outcome = AllOk | OpenFails | WriteFails string | RenameFails string

definition checkpoint_save ::
  "save_outcome \<Rightarrow> string \<Rightarrow> tracker \<Rightarrow> file_system \<Rightarrow> checkpoint_result \<times> file_system" where
  "checkpoint_save outcome path tr fs =
     (let state = getState tr;
          text = checkpoint_text state;
          tmpPath = path @ ''.tmp''
      in case outcome of
           OpenFails \<Rightarrow>
             (checkpoint_error (''Failed to open temporary checkpoint file: '' @ tmpPath), fs)
         | WriteFails part \<Rightarrow>
             (checkpoint_error (''Failed to write checkpoint data to: '' @ tmpPath),
              fs(tmpPath \<mapsto> part))
         | RenameFails msg \<Rightarrow>
             (checkpoint_error (''Failed to rename checkpoint file: '' @ msg),
              fs(tmpPath \<mapsto> text))
         | AllOk \<Rightarrow>
             (checkpoint_ok, fs(tmpPath := None, path \<mapsto> text)))"

section \<open>Loading\<close>

definition is_blank :: "char \<Rightarrow> bool" where
  "is_blank c \<longleftrightarrow> c = CHR '' '' \<or> c = CHR 0x0A \<or> c = CHR 0x0D \<or> c = CHR 0x09"

text \<open>The index loops of the parser: advance while in range and in the class.\<close>

function skip_while :: "(char \<Rightarrow> bool) \<Rightarrow> string \<Rightarrow> nat \<Rightarrow> nat" where
  "skip_while P s i = (if i < length s \<and> P (s ! i) then skip_while P s (Suc i) else i)"
  by pat_completeness auto
termination by (relation "measure (\<lambda>(P, s, i). length s - i)") auto

declare skip_while.simps [simp del]

lemma skip_while_ge: "i \<le> skip_while P s i"
proof (induction P s i rule: skip_while.induct)
  case (1 P s i)
  then show ?case by (subst skip_while.simps) (auto dest: Suc_leD)
qed

lemma skip_while_takeWhile: "skip_while P s i = i + length (takeWhile P (drop i s))"
proof (induction P s i rule: skip_while.induct)
  case (1 P s i)
  show ?case
  proof (cases "i < length s")
    case True
    then have "drop i s = s ! i # drop (Suc i) s" by (simp add: Cons_nth_drop_Suc)
    with True 1 show ?thesis by (subst skip_while.simps) auto
  next
    case False
    then show ?thesis by (subst skip_while.simps) simp
  qed
qed

text \<open>The loop over the shard entries, from \<open>pos\<close>.\<close>

function parse_shards :: "string \<Rightarrow> nat \<Rightarrow> (string \<times> u64) list \<Rightarrow> string + (string \<times> u64) list" where
  "parse_shards content pos state =
     (if \<not> pos < length content then Inr state
      else case str_find content [CHR 0x22] pos of None \<Rightarrow> Inr state
      | Some quoteStart \<Rightarrow>
       (case str_find content [CHR 0x22] (quoteStart + 1) of
          None \<Rightarrow> Inl ''Checkpoint file has unterminated string''
        | Some quoteEnd \<Rightarrow>
           (let key = substr content (quoteStart + 1) (quoteEnd - quoteStart - 1) in
            case str_find content '':'' quoteEnd of None \<Rightarrow> Inr state
            | Some colonPos \<Rightarrow>
               (if (case str_find content ''}'' quoteEnd of None \<Rightarrow> False | Some b \<Rightarrow> b < colonPos)
                then Inr state
                else let numStart = skip_while is_blank content (colonPos + 1);
                         numEnd = skip_while is_digit content numStart
                     in if numEnd = numStart
                        then Inl (''Checkpoint file has non-numeric sequence for shard: '' @ key)
                        else case stoull (substr content numStart (numEnd - numStart)) of
                            None \<Rightarrow> Inl (''Checkpoint file has invalid sequence number for shard: '' @ key)
                          | Some seq \<Rightarrow>
                              parse_shards content numEnd (AList.update key seq state)))))"
  by pat_completeness auto
termination
proof (relation "measure (\<lambda>(content, pos, state). length content - pos)", goal_cases)
  case 1
  show ?case by simp
next
  case (2 content pos state quoteStart quoteEnd key colonPos numStart numEnd seq)
  have "pos \<le> quoteStart" by (rule str_find_Some(1) [OF 2(2)])
  also have "quoteStart < quoteEnd" using str_find_Some(1) [OF 2(3)] by simp
  also have "quoteEnd \<le> colonPos" by (rule str_find_Some(1) [OF 2(5)])
  also have "colonPos < numStart" using skip_while_ge [of "colonPos + 1" is_blank content]
    by (simp add: 2(7) Suc_le_eq)
  also have "numStart \<le> numEnd" using skip_while_ge by (simp add: 2(8))
  finally show ?case using 2(1) by simp
qed

declare parse_shards.simps [simp del]

definition parse_checkpoint :: "string \<Rightarrow> string + (string \<times> u64) list" where
  \<open>parse_checkpoint content =
     (case str_find content ''"shards"'' 0 of
        None \<Rightarrow> Inl ''Checkpoint file missing 'shards' key''
      | Some shardsPos \<Rightarrow>
         (case str_find content ''{'' shardsPos of
            None \<Rightarrow> Inl ''Checkpoint file has malformed 'shards' object''
          | Some bracePos \<Rightarrow> parse_shards content (bracePos + 1) []))\<close>

text \<open>A missing file is a fresh start and leaves the tracker alone; \<open>can_open\<close> is the answer of
  opening an existing one.\<close>

definition checkpoint_load ::
  "bool \<Rightarrow> string \<Rightarrow> file_system \<Rightarrow> tracker \<Rightarrow> checkpoint_result \<times> tracker" where
  "checkpoint_load can_open path fs tr =
     (case fs path of
        None \<Rightarrow> (checkpoint_ok, tr)
      | Some content \<Rightarrow>
          if \<not> can_open then (checkpoint_error (''Failed to open checkpoint file: '' @ path), tr)
          else (case parse_checkpoint content of
                  Inl e \<Rightarrow> (checkpoint_error e, tr)
                | Inr state \<Rightarrow> (checkpoint_ok, restoreState state tr)))"

section \<open>Round trip\<close>

text \<open>The closing lines of the text, and what the loop does at them.\<close>

definition closing :: string where
  "closing = ''\<newline>  }\<newline>}\<newline>''"

lemma str_find_drop:
  "pos \<le> length s \<Longrightarrow> str_find s nd pos = map_option (\<lambda>i. pos + i) (find_sub nd (drop pos s))"
  by (simp add: str_find_def)

lemma parse_shards_closing:
  assumes "drop pos content = closing"
  shows "parse_shards content pos state = Inr state"
proof -
  have "pos < length content"
    using arg_cong [OF assms, of length] by (simp add: closing_def)
  then show ?thesis
    by (subst parse_shards.simps) (simp add: str_find_drop assms find_sub_char_None closing_def)
qed

text \<open>One well-formed entry: the loop records it and stands right after its number.\<close>

lemma parse_shards_entry:
  fixes seq :: u64
  assumes rest: "drop pos content = sep @ CHR 0x22 # key @ CHR 0x22 # CHR '':'' # CHR '' '' # dec (unat seq) @ tail"
    and sep: "CHR 0x22 \<notin> set sep" and key: "CHR 0x22 \<notin> set key"
    and tail: "tail \<noteq> []" "\<not> is_digit (hd tail)"
  defines "pos' \<equiv> pos + length sep + length key + 4 + length (dec (unat seq))"
  shows "parse_shards content pos state = parse_shards content pos' (AList.update key seq state)"
    and "drop pos' content = tail"
proof -
  let ?qs = "pos + length sep"
  let ?qe = "?qs + 1 + length key"
  let ?n = "dec (unat seq)"
  have pos: "pos < length content"
    using arg_cong [OF rest, of length] by simp
  have d: "drop (pos + k) content =
      drop k (sep @ CHR 0x22 # key @ CHR 0x22 # CHR '':'' # CHR '' '' # ?n @ tail)" for k
    using rest by (metis add.commute drop_drop)
  have d1: "drop (?qs + 1) content = key @ CHR 0x22 # CHR '':'' # CHR '' '' # ?n @ tail"
    using d [of "length sep + 1"] by simp
  have d2: "drop ?qe content = CHR 0x22 # CHR '':'' # CHR '' '' # ?n @ tail"
    using d [of "length sep + 1 + length key"] by (simp add: add.assoc)
  have d3: "drop (?qe + 2) content = CHR '' '' # ?n @ tail"
    using d2 drop_drop [of 2 ?qe content] by (simp add: add.commute)
  have d4: "drop (?qe + 3) content = ?n @ tail"
    using d2 drop_drop [of 3 ?qe content] by (simp add: add.commute)
  have d5: "drop pos' content = tail"
    using d4 drop_drop [of "length ?n" "?qe + 3" content] by (simp add: pos'_def algebra_simps)
  then show "drop pos' content = tail" .
  have len: "?qe \<le> length content"
    using arg_cong [OF d2, of length] by simp
  have blank: "\<not> is_blank c" if "is_digit c" for c
    using that by (auto simp: is_blank_def is_digit_def)
  have tw: "takeWhile is_digit (?n @ tail) = ?n"
    by (rule takeWhile_append_stop) (use tail in \<open>auto dest: dec_digits\<close>)
  obtain c n where n: "?n = c # n" using dec_nonempty by (cases ?n) auto
  have c: "is_digit c" by (rule dec_digits [of _ "unat seq"]) (simp add: n)
  have f1: "str_find content [CHR 0x22] pos = Some ?qs"
    using pos sep by (simp add: str_find_drop rest find_sub_char)
  have f2: "str_find content [CHR 0x22] (?qs + 1) = Some ?qe"
    using len key d1 by (simp add: str_find_drop find_sub_char)
  have f3: "str_find content '':'' ?qe = Some (?qe + 1)"
    using len by (simp add: str_find_drop d2 [simplified])
  have f4: "str_find content ''}'' ?qe = None \<or> (\<exists>b. str_find content ''}'' ?qe = Some b \<and> \<not> b < ?qe + 1)"
    using len by (cases "find_sub ''}'' (?n @ tail)") (auto simp: str_find_drop d2 [simplified])
  have s1: "skip_while is_blank content (?qe + 2) = ?qe + 3"
    unfolding skip_while_takeWhile d3 using blank [OF c]
    by (simp add: n is_blank_def)
  have s2: "skip_while is_digit content (?qe + 3) = pos'"
    unfolding skip_while_takeWhile d4 tw by (simp add: pos'_def)
  have k: "substr content (?qs + 1) (?qe - ?qs - 1) = key"
    by (simp add: substr_def d1 [simplified])
  have v: "substr content (?qe + 3) (pos' - (?qe + 3)) = ?n"
    by (simp add: substr_def d4 [simplified] pos'_def)
  show "parse_shards content pos state = parse_shards content pos' (AList.update key seq state)"
    by (subst parse_shards.simps)
       (use f4 pos f1 f2 f3 s1 s2 k v in
         \<open>elim disjE exE conjE; simp add: stoull_dec dec_nonempty pos'_def Let_def\<close>)
qed

text \<open>The whole loop over the entries that \<open>save_entries\<close> wrote.\<close>

lemma save_entries_head:
  "es \<noteq> [] \<Longrightarrow> save_entries False es @ closing \<noteq> [] \<and> \<not> is_digit (hd (save_entries False es @ closing))"
  by (cases es) (auto simp: is_digit_def)

lemma closing_head: "closing \<noteq> [] \<and> \<not> is_digit (hd closing)"
  by (simp add: closing_def is_digit_def)

lemma parse_shards_entries:
  assumes "drop pos content = save_entries first es @ closing"
    and "\<forall>(k, q) \<in> set es. CHR 0x22 \<notin> set k"
  shows "parse_shards content pos state =
           Inr (foldl (\<lambda>st (k, q). AList.update k q st) state es)"
  using assms
proof (induction es arbitrary: pos state first)
  case Nil
  then show ?case by (simp add: parse_shards_closing)
next
  case (Cons e es)
  obtain k q where e: "e = (k, q)" by (cases e)
  let ?sep = "(if \<not> first then '','' else []) @ CHR 0x0A # ''    ''"
  let ?tail = "save_entries False es @ closing"
  have rest: "drop pos content =
      ?sep @ CHR 0x22 # k @ CHR 0x22 # CHR '':'' # CHR '' '' # dec (unat q) @ ?tail"
    using Cons.prems(1) by (simp add: e)
  have sep: "CHR 0x22 \<notin> set ?sep" by simp
  have key: "CHR 0x22 \<notin> set k" using Cons.prems(2) by (simp add: e)
  have tail: "?tail \<noteq> []" "\<not> is_digit (hd ?tail)"
    using closing_head save_entries_head [of es] by (cases es; simp)+
  note entry = parse_shards_entry [OF rest sep key tail]
  show ?case
    using entry(1) Cons.IH [OF entry(2)] Cons.prems(2) by (simp add: e)
qed

text \<open>Re-inserting distinct keys in order rebuilds the association list.\<close>

lemma update_new: "k \<notin> fst ` set al \<Longrightarrow> AList.update k v al = al @ [(k, v)]"
  by (induction al) auto

lemma foldl_update_distinct:
  "distinct (map fst (st @ es)) \<Longrightarrow>
     foldl (\<lambda>st (k, q). AList.update k q st) st es = st @ es"
  by (induction es arbitrary: st) (auto simp: update_new)

lemma parse_checkpoint_text:
  assumes "\<forall>(k, q) \<in> set st. CHR 0x22 \<notin> set k" and "tracker_ok st"
  shows "parse_checkpoint (checkpoint_text st) = Inr st"
proof -
  let ?c = "checkpoint_text st"
  let ?pre = \<open>''{\<newline>  "version": 1,\<newline>  ''\<close>
  have c: \<open>?c = ?pre @ ''"shards": {'' @ save_entries True st @ closing\<close>
    by (simp add: checkpoint_text_def closing_def)
  have f1: \<open>str_find ?c ''"shards"'' 0 = Some 20\<close>
    by (simp add: str_find_0 c)
  have f2: "str_find ?c ''{'' 20 = Some 30"
    by (simp add: str_find_def c)
  have "drop 31 ?c = save_entries True st @ closing"
    by (simp add: c)
  from parse_shards_entries [OF this assms(1)] foldl_update_distinct [of "[]" st] assms(2)
  show ?thesis by (simp add: parse_checkpoint_def f1 f2 tracker_ok_def)
qed

lemma checkpoint_load_saved:
  assumes "tracker_ok tr" and "\<forall>(k, q) \<in> set tr. CHR 0x22 \<notin> set k"
    and "checkpoint_save AllOk path tr fs = (r, fs')"
  shows "r = checkpoint_ok" and "checkpoint_load True path fs' tr' = (checkpoint_ok, tr)"
  using assms parse_checkpoint_text [OF assms(2,1)]
  by (auto simp: checkpoint_save_def checkpoint_load_def restoreState_def getState_def)

section \<open>Properties\<close>

text \<open>Crash recovery: a checkpoint that was saved is loaded back as exactly the tracker that was
  saved, whatever the tracker of the loading process held and in whatever order the map was
  iterated, for all shard ids without a double quote and all 64-bit sequence numbers.\<close>

theorem checkpoint_roundtrip:
  assumes "tracker_ok tr" and "\<forall>(k, q) \<in> set tr. CHR 0x22 \<notin> set k"
    and "checkpoint_save AllOk path tr fs = (r, fs')"
  shows "r = checkpoint_ok \<and> checkpoint_load True path fs' tr' = (checkpoint_ok, tr)"
  using checkpoint_load_saved [OF assms] by blast

lemma checkpoint_roundtrip_witness:
  "let tr = [(''s10001'', 42), (''s10002'', 18446744073709551615)];
       fs' = snd (checkpoint_save AllOk ''cp'' tr Map.empty)
   in checkpoint_load True ''cp'' fs' [(''old'', 1)] = (checkpoint_ok, tr)"
  using checkpoint_roundtrip [of "[(''s10001'', 42), (''s10002'', 18446744073709551615)]" "''cp''"
      Map.empty "fst (checkpoint_save AllOk ''cp'' [(''s10001'', 42), (''s10002'', 18446744073709551615)] Map.empty)"
      "snd (checkpoint_save AllOk ''cp'' [(''s10001'', 42), (''s10002'', 18446744073709551615)] Map.empty)"
      "[(''old'', 1)]"]
  by (simp add: tracker_ok_def)

text \<open>Saving is atomic: whatever step fails, the checkpoint file keeps its previous content, so
  a later load reads the previous checkpoint, and no file other than the checkpoint and its
  temporary file is touched.\<close>

theorem checkpoint_save_atomic:
  "checkpoint_save outcome path tr fs = (r, fs') \<Longrightarrow>
     (cr_success r \<longleftrightarrow> outcome = AllOk) \<and>
     fs' path = (if cr_success r then Some (checkpoint_text tr) else fs path) \<and>
     (\<forall>p. p \<noteq> path \<longrightarrow> p \<noteq> path @ ''.tmp'' \<longrightarrow> fs' p = fs p)"
  by (cases outcome)
     (auto simp: checkpoint_save_def checkpoint_ok_def checkpoint_error_def getState_def Let_def)

lemma checkpoint_save_atomic_witness:
  "let fs = [''cp'' \<mapsto> ''old''];
       (r, fs') = checkpoint_save (RenameFails ''EXDEV'') ''cp'' [(''s'', 7)] fs
   in \<not> cr_success r \<and> fs' ''cp'' = Some ''old''"
  using checkpoint_save_atomic [of "RenameFails ''EXDEV''" "''cp''" "[(''s'', 7)]" "[''cp'' \<mapsto> ''old'']"
      "fst (checkpoint_save (RenameFails ''EXDEV'') ''cp'' [(''s'', 7)] [''cp'' \<mapsto> ''old''])"
      "snd (checkpoint_save (RenameFails ''EXDEV'') ''cp'' [(''s'', 7)] [''cp'' \<mapsto> ''old''])"]
  by (simp add: split_beta)


section \<open>Crashes while saving\<close>

text \<open>The same code, one effect on the file system at a time: truncating the temporary file, bytes
  reaching it in pieces, the rename.  A crash can follow any of them.\<close>

datatype save_phase = Opening | Writing nat | Renamed

inductive save_step :: "string \<Rightarrow> string \<Rightarrow> save_phase \<times> file_system \<Rightarrow> save_phase \<times> file_system \<Rightarrow> bool"
  for path :: string and content :: string where
  open_tmp: "save_step path content (Opening, fs) (Writing 0, fs(path @ ''.tmp'' \<mapsto> []))"
| write_tmp: "n < n' \<Longrightarrow> n' \<le> length content \<Longrightarrow>
    save_step path content (Writing n, fs) (Writing n', fs(path @ ''.tmp'' \<mapsto> take n' content))"
| rename_tmp: "save_step path content (Writing (length content), fs) (Renamed, fs(path @ ''.tmp'' := None, path \<mapsto> content))"

inductive_cases save_stepE: "save_step path content c c'"

abbreviation save_steps :: "string \<Rightarrow> tracker \<Rightarrow> save_phase \<times> file_system \<Rightarrow> save_phase \<times> file_system \<Rightarrow> bool" where
  "save_steps path tr \<equiv> (save_step path (checkpoint_text (getState tr)))\<^sup>*\<^sup>*"

definition crash_inv :: "string \<Rightarrow> string \<Rightarrow> file_system \<Rightarrow> save_phase \<times> file_system \<Rightarrow> bool" where
  "crash_inv path content fs0 c \<longleftrightarrow>
     (case c of
        (Opening, fs) \<Rightarrow> fs = fs0
      | (Writing n, fs) \<Rightarrow> n \<le> length content \<and> fs = fs0(path @ ''.tmp'' \<mapsto> take n content)
      | (Renamed, fs) \<Rightarrow> fs = fs0(path @ ''.tmp'' := None, path \<mapsto> content))"

lemma crash_inv_step: "save_step path content c c' \<Longrightarrow> crash_inv path content fs0 c \<Longrightarrow> crash_inv path content fs0 c'"
  by (erule save_stepE) (auto simp: crash_inv_def)

lemma crash_inv_steps:
  assumes "(save_step path content)\<^sup>*\<^sup>* (Opening, fs) c" shows "crash_inv path content fs c"
  using assms by (induction rule: rtranclp_induct) (auto simp: crash_inv_step, simp add: crash_inv_def)

text \<open>Every answer of the system leaves a state that these steps reach.\<close>

lemma save_outcome_reachable:
  assumes "checkpoint_save outcome path tr fs = (r, fs')"
    and "\<And>part. outcome = WriteFails part \<Longrightarrow> prefix part (checkpoint_text (getState tr))"
  shows "\<exists>ph. save_steps path tr (Opening, fs) (ph, fs')"
proof -
  let ?text = "checkpoint_text (getState tr)" and ?tmp = "path @ ''.tmp''"
  have writing: "save_steps path tr (Opening, fs) (Writing n, fs(?tmp \<mapsto> take n ?text))" if "n \<le> length ?text" for n
  proof -
    have first: "save_steps path tr (Opening, fs) (Writing 0, fs(?tmp \<mapsto> []))"
      by (rule r_into_rtranclp) (rule open_tmp)
    show ?thesis
    proof (cases "n = 0")
      case True
      then show ?thesis using first by simp
    next
      case False
      then have "save_step path ?text (Writing 0, fs(?tmp \<mapsto> [])) (Writing n, fs(?tmp \<mapsto> [], ?tmp \<mapsto> take n ?text))"
        using that by (intro write_tmp) auto
      then show ?thesis using rtranclp.rtrancl_into_rtrancl [OF first] by simp
    qed
  qed
  show ?thesis
  proof (cases outcome)
    case (WriteFails part)
    then have "fs' = fs(?tmp \<mapsto> take (length part) ?text)" and "length part \<le> length ?text"
      using assms by (auto simp: checkpoint_save_def prefix_def Let_def prefix_length_le)
    then show ?thesis using writing by blast
  next
    case AllOk
    have "save_step path ?text (Writing (length ?text), fs(?tmp \<mapsto> take (length ?text) ?text))
        (Renamed, (fs(?tmp \<mapsto> take (length ?text) ?text))(?tmp := None, path \<mapsto> ?text))" by (rule rename_tmp)
    then have "save_steps path tr (Opening, fs) (Renamed, fs(?tmp := None, path \<mapsto> ?text))"
      using rtranclp.rtrancl_into_rtrancl [OF writing [OF order_refl]] by simp
    then show ?thesis using assms(1) AllOk by (auto simp: checkpoint_save_def Let_def)
  next
    case OpenFails
    then show ?thesis using assms(1) by (auto simp: checkpoint_save_def Let_def)
  next
    case (RenameFails msg)
    then show ?thesis using assms(1) writing [of "length ?text"] by (auto simp: checkpoint_save_def Let_def)
  qed
qed

text \<open>C23. A crash of the process at any moment of a save, also one with half of the content written or an older temporary
  file left over, loses nothing: what is loaded afterwards is the checkpoint that was there before or
  the complete new one.
\<close>

theorem checkpoint_crash_safe:
  assumes "save_steps path tr (Opening, fs) (ph, fs')" and "tracker_ok tr" and "\<forall>(k, q) \<in> set tr. CHR 0x22 \<notin> set k"
  shows "checkpoint_load True path fs' tr0 =
    (if ph = Renamed then (checkpoint_ok, tr) else checkpoint_load True path fs tr0)"
proof (cases ph)
  case Renamed
  then have "fs' path = Some (checkpoint_text tr)"
    using crash_inv_steps [OF assms(1)] by (simp add: crash_inv_def getState_def)
  then show ?thesis
    using parse_checkpoint_text [OF assms(3,2)] Renamed by (simp add: checkpoint_load_def restoreState_def)
next
  case Opening
  then show ?thesis using crash_inv_steps [OF assms(1)] by (simp add: crash_inv_def)
next
  case (Writing n)
  then have "fs' path = fs path" using crash_inv_steps [OF assms(1)] by (simp add: crash_inv_def)
  then show ?thesis using Writing by (simp add: checkpoint_load_def)
qed

theorem checkpoint_crash_safe_witness:
  "\<exists>fs'. save_steps ''cp'' [(''s'', 7)] (Opening, [''cp'' \<mapsto> ''old'']) (Writing 9, fs') \<and>
     checkpoint_load True ''cp'' fs' [] = checkpoint_load True ''cp'' [''cp'' \<mapsto> ''old''] []"
proof -
  let ?text = "checkpoint_text (getState [(''s'', 7)])"
  have "prefix (take 9 ?text) ?text" by (rule take_is_prefix)
  have len: "9 \<le> length ?text" by (simp add: checkpoint_text_def)
  have "save_step ''cp'' ?text (Opening, [''cp'' \<mapsto> ''old'']) (Writing 0, [''cp'' \<mapsto> ''old'', ''cp'' @ ''.tmp'' \<mapsto> []])"
    by (rule open_tmp)
  moreover have "save_step ''cp'' ?text (Writing 0, [''cp'' \<mapsto> ''old'', ''cp'' @ ''.tmp'' \<mapsto> []])
      (Writing 9, [''cp'' \<mapsto> ''old'', ''cp'' @ ''.tmp'' \<mapsto> [], ''cp'' @ ''.tmp'' \<mapsto> take 9 ?text])"
    using len by (intro write_tmp) simp_all
  ultimately have run: "save_steps ''cp'' [(''s'', 7)] (Opening, [''cp'' \<mapsto> ''old''])
      (Writing 9, [''cp'' \<mapsto> ''old'', ''cp'' @ ''.tmp'' \<mapsto> [], ''cp'' @ ''.tmp'' \<mapsto> take 9 ?text])"
    by (meson converse_rtranclp_into_rtranclp rtranclp.rtrancl_refl)
  show ?thesis
    using checkpoint_crash_safe [OF run, of "[]"] run by (auto simp: tracker_ok_def)
qed

end
