(* ===== verification/Doubles.thy ===== *)
theory Doubles
  imports Prelude "HOL-Library.Log_Nat"
begin

text \<open>
  The \<open>double\<close> arithmetic the sources use, on rational values: every operation is the exact
  result rounded to 53 significant bits, to nearest with ties to even.  Overflow, subnormal
  numbers, infinities and NaN do not occur for the values the modelled code handles (integers of
  64 bits, their differences, quotients by small constants), so a value is a \<open>rat\<close>.
\<close>

section \<open>Rounding\<close>

text \<open>The exponent of the last place of a positive number.\<close>

definition double_exp :: "rat \<Rightarrow> int" where
  "double_exp x = (let (p, q) = quotient_of x; b = bitlen p - bitlen q
     in if x < 2 powi b then b - 53 else b - 52)"

definition round_half_even :: "rat \<Rightarrow> int" where
  "round_half_even y = (let f = \<lfloor>y\<rfloor>; r = y - of_int f
     in if r < 1 / 2 \<or> r = 1 / 2 \<and> even f then f else f + 1)"

definition round_pos :: "rat \<Rightarrow> rat" where
  "round_pos x = of_int (round_half_even (x * 2 powi (- double_exp x))) * 2 powi double_exp x"

definition rnd :: "rat \<Rightarrow> rat" where
  "rnd x = (if x = 0 then 0 else if x < 0 then - round_pos (- x) else round_pos x)"

definition double_of_u64 :: "u64 \<Rightarrow> rat" where "double_of_u64 w = rnd (of_nat (unat w))"
definition dsub :: "rat \<Rightarrow> rat \<Rightarrow> rat" where "dsub x y = rnd (x - y)"
definition dadd :: "rat \<Rightarrow> rat \<Rightarrow> rat" where "dadd x y = rnd (x + y)"
definition dmul :: "rat \<Rightarrow> rat \<Rightarrow> rat" where "dmul x y = rnd (x * y)"
definition ddiv :: "rat \<Rightarrow> rat \<Rightarrow> rat" where "ddiv x y = rnd (x / y)"

section \<open>Exponent\<close>

lemma two_powi_pos [simp]: "0 < (2 powi e :: rat)" by simp

lemma powi_nat: "0 \<le> b \<Longrightarrow> (2 :: rat) powi b = of_int (2 ^ nat b)"
  by (simp add: power_int_nonneg_exp)

lemma bitlen_bounds_rat:
  assumes "0 < p" shows "2 powi (bitlen p - 1) \<le> (of_int p :: rat)" and "(of_int p :: rat) < 2 powi bitlen p"
proof -
  have b: "1 \<le> bitlen p" using assms bitlen_nonneg [of p] bitlen_eq_zero_iff [of p] by linarith
  from bitlen_bounds [OF assms] have "2 ^ nat (bitlen p - 1) \<le> p" "p < 2 ^ nat (bitlen p)" by auto
  then have "(of_int (2 ^ nat (bitlen p - 1)) :: rat) \<le> of_int p" "(of_int p :: rat) < of_int (2 ^ nat (bitlen p))"
    by (simp_all only: of_int_le_iff of_int_less_iff)
  then show "2 powi (bitlen p - 1) \<le> (of_int p :: rat)" and "(of_int p :: rat) < 2 powi bitlen p"
    using b by (simp_all only: powi_nat)
qed

lemma powi_add: "(2 :: rat) powi (a + b) = 2 powi a * 2 powi b"
  by (simp add: power_int_add)

lemma powi_diff: "(2 :: rat) powi (a - b) = 2 powi a / 2 powi b"
  by (simp add: power_int_diff)

lemma double_exp_bounds:
  assumes "0 < x"
  shows "2 powi (double_exp x + 52) \<le> x" and "x < 2 powi (double_exp x + 53)"
proof -
  obtain p q where pq: "quotient_of x = (p, q)" by (cases "quotient_of x")
  have q: "0 < q" using quotient_of_denom_pos [OF pq] .
  have x: "x = of_int p / of_int q" using quotient_of_div [OF pq] .
  have p: "0 < p" using assms q by (simp add: x zero_less_divide_iff)
  let ?b = "bitlen p - bitlen q"
  note bp = bitlen_bounds_rat [OF p] and bq = bitlen_bounds_rat [OF q]
  have qpos: "(0 :: rat) < of_int q" using q by simp
  have lo: "2 powi (?b - 1) \<le> x"
  proof -
    have "2 powi (?b - 1) * of_int q \<le> 2 powi (?b - 1) * (2 powi bitlen q :: rat)"
      using bq(2) by (intro mult_left_mono) simp_all
    also have "\<dots> = 2 powi (bitlen p - 1)" by (simp flip: powi_add)
    also have "\<dots> \<le> of_int p" by (rule bp(1))
    finally show ?thesis using qpos by (simp add: x pos_le_divide_eq)
  qed
  have hi: "x < 2 powi (?b + 1)"
  proof -
    have "of_int p < (2 powi bitlen p :: rat)" by (rule bp(2))
    also have "\<dots> = 2 powi (?b + 1) * 2 powi (bitlen q - 1)" by (simp flip: powi_add)
    also have "\<dots> \<le> 2 powi (?b + 1) * of_int q" using bq(1) by (intro mult_left_mono) simp_all
    finally show ?thesis using qpos by (simp add: x pos_divide_less_eq)
  qed
  have e: "double_exp x = (if x < 2 powi ?b then ?b - 53 else ?b - 52)"
    by (simp add: double_exp_def pq Let_def)
  show "2 powi (double_exp x + 52) \<le> x" using lo by (auto simp: e)
  show "x < 2 powi (double_exp x + 53)" using hi by (auto simp: e add.commute)
qed

lemma powi_less_iff [simp]: "(2 :: rat) powi a < 2 powi b \<longleftrightarrow> a < b"
  by (meson linorder_not_le one_less_numeral_iff order_less_le power_int_increasing
      power_int_strict_increasing semiring_norm(76))

lemma powi_le_iff [simp]: "(2 :: rat) powi a \<le> 2 powi b \<longleftrightarrow> a \<le> b"
  by (meson linorder_not_le powi_less_iff)

lemma double_exp_mono: "0 < x \<Longrightarrow> x \<le> y \<Longrightarrow> double_exp x \<le> double_exp y"
proof -
  assume "0 < x" "x \<le> y"
  then have "(2 :: rat) powi (double_exp x + 52) < 2 powi (double_exp y + 53)"
    using double_exp_bounds(1) [of x] double_exp_bounds(2) [of y] by linarith
  then show ?thesis by simp
qed

section \<open>Rounding to an integer\<close>

lemma round_half_even_of_int [simp]: "round_half_even (of_int m) = m"
  by (simp add: round_half_even_def)

lemma round_half_even_bounds: "\<lfloor>y\<rfloor> \<le> round_half_even y" "round_half_even y \<le> \<lfloor>y\<rfloor> + 1"
  by (auto simp: round_half_even_def Let_def)

lemma round_half_even_mono: "y \<le> z \<Longrightarrow> round_half_even y \<le> round_half_even z"
proof -
  assume yz: "y \<le> z"
  show ?thesis
  proof (cases "\<lfloor>y\<rfloor> = \<lfloor>z\<rfloor>")
    case True
    then show ?thesis using yz by (auto simp: round_half_even_def Let_def)
  next
    case False
    then have "\<lfloor>y\<rfloor> + 1 \<le> \<lfloor>z\<rfloor>" using floor_mono [OF yz] by linarith
    then show ?thesis using round_half_even_bounds [of y] round_half_even_bounds [of z] by linarith
  qed
qed

section \<open>Rounding is monotone and exact on 53-bit numbers\<close>

lemma scaled_bounds:
  assumes "0 < x"
  shows "2 ^ 52 \<le> x * 2 powi (- double_exp x)" and "x * 2 powi (- double_exp x) < 2 ^ 53"
proof -
  have "(2 powi (double_exp x + 52) :: rat) = 2 ^ 52 * 2 powi double_exp x"
    "(2 powi (double_exp x + 53) :: rat) = 2 ^ 53 * 2 powi double_exp x"
    by (simp_all add: powi_add)
  with double_exp_bounds [OF assms]
  show "2 ^ 52 \<le> x * 2 powi (- double_exp x)" and "x * 2 powi (- double_exp x) < 2 ^ 53"
    by (simp_all add: power_int_minus field_simps)
qed

lemma round_pos_bounds:
  assumes "0 < x"
  shows "2 powi (double_exp x + 52) \<le> round_pos x" and "round_pos x \<le> 2 powi (double_exp x + 53)"
proof -
  let ?y = "x * 2 powi (- double_exp x)"
  have "round_half_even (of_int (2 ^ 52)) \<le> round_half_even ?y"
    "round_half_even ?y \<le> round_half_even (of_int (2 ^ 53))"
    using scaled_bounds [OF assms] by (intro round_half_even_mono; simp)+
  then have b: "2 ^ 52 \<le> round_half_even ?y" "round_half_even ?y \<le> 2 ^ 53"
    by (simp_all only: round_half_even_of_int)
  have "(of_int (2 ^ 52) :: rat) \<le> of_int (round_half_even ?y)" "(of_int (round_half_even ?y) :: rat) \<le> of_int (2 ^ 53)"
    using b by (simp_all only: of_int_le_iff)
  then have "(2 ^ 52 :: rat) * 2 powi double_exp x \<le> round_pos x" "round_pos x \<le> (2 ^ 53 :: rat) * 2 powi double_exp x"
    unfolding round_pos_def by (intro mult_right_mono; simp)+
  then show "2 powi (double_exp x + 52) \<le> round_pos x" and "round_pos x \<le> 2 powi (double_exp x + 53)"
    by (simp_all add: powi_add mult.commute)
qed

lemma round_pos_mono:
  assumes "0 < x" and "x \<le> y" shows "round_pos x \<le> round_pos y"
proof (cases "double_exp x = double_exp y")
  case True
  have "x * 2 powi (- double_exp x) \<le> y * 2 powi (- double_exp x)"
    using assms(2) by (intro mult_right_mono) simp_all
  then have "of_int (round_half_even (x * 2 powi (- double_exp x))) \<le>
      (of_int (round_half_even (y * 2 powi (- double_exp x))) :: rat)"
    by (simp only: of_int_le_iff round_half_even_mono)
  then show ?thesis unfolding round_pos_def True [symmetric] by (intro mult_right_mono) simp_all
next
  case False
  with double_exp_mono [OF assms] have "double_exp x + 53 \<le> double_exp y + 52" by simp
  then have "(2 :: rat) powi (double_exp x + 53) \<le> 2 powi (double_exp y + 52)" by simp
  with round_pos_bounds(2) [OF assms(1)] round_pos_bounds(1) [of y] assms show ?thesis by linarith
qed

lemma round_pos_exact:
  assumes "0 < m" and "m \<le> 2 ^ 53" shows "round_pos (of_int m * 2 powi e) = of_int m * 2 powi e"
proof -
  let ?x = "of_int m * 2 powi e :: rat"
  let ?d = "double_exp ?x"
  have x: "0 < ?x" using assms(1) by simp
  have "(of_int m :: rat) \<le> of_int (2 ^ 53)" using assms(2) by (simp only: of_int_le_iff)
  then have "?x \<le> 2 ^ 53 * 2 powi e" by (intro mult_right_mono) simp_all
  also have "\<dots> = 2 powi (e + 53)" by (simp add: powi_add mult.commute)
  finally have "(2 :: rat) powi (?d + 52) \<le> 2 powi (e + 53)" using double_exp_bounds(1) [OF x] by linarith
  then have d: "?d \<le> e + 1" by simp
  have "\<exists>k. ?x * 2 powi (- ?d) = of_int k"
  proof (cases "?d \<le> e")
    case True
    have "?x * 2 powi (- ?d) = of_int m * 2 powi (e - ?d)" by (simp add: powi_diff power_int_minus field_simps)
    also have "\<dots> = of_int (m * 2 ^ nat (e - ?d))" using True by (simp add: powi_nat)
    finally show ?thesis by blast
  next
    case False
    with d have d1: "?d = e + 1" by simp
    have "2 powi (e + 53) \<le> ?x" using double_exp_bounds(1) [OF x] unfolding d1 by (simp add: add.commute)
    then have "2 ^ 53 * 2 powi e \<le> ?x" by (simp add: powi_add mult.commute)
    then have "(of_int (2 ^ 53) :: rat) \<le> of_int m" by simp
    then have m: "m = 2 ^ 53" using assms(2) by (simp only: of_int_le_iff)
    have half: "(2 :: rat) powi (- (e + 1)) = inverse (2 powi e) / 2"
      unfolding power_int_minus powi_add by simp
    have "?x * 2 powi (- (e + 1)) = of_int (2 ^ 52)"
      unfolding m half by simp
    then show ?thesis unfolding d1 by blast
  qed
  then obtain k where k: "?x * 2 powi (- ?d) = of_int k" by blast
  then have "round_pos ?x = of_int k * 2 powi ?d" by (simp only: round_pos_def round_half_even_of_int)
  also have "\<dots> = ?x" unfolding k [symmetric] by (simp add: power_int_minus)
  finally show ?thesis .
qed

lemma rnd_mono: "x \<le> y \<Longrightarrow> rnd x \<le> rnd y"
proof -
  have pos: "0 < round_pos z" if "0 < z" for z
    using round_pos_bounds(1) [OF that] by (rule less_le_trans [rotated]) simp
  assume "x \<le> y"
  then show ?thesis
    using round_pos_mono [of x y] round_pos_mono [of "- y" "- x"] pos [of y] pos [of "- x"]
    by (auto simp: rnd_def not_less le_less)
qed

lemma rnd_exact:
  assumes "\<bar>m\<bar> \<le> 2 ^ 53" shows "rnd (of_int m * 2 powi e) = of_int m * 2 powi e"
proof (cases "m = 0")
  case True
  then show ?thesis by (simp add: rnd_def)
next
  case False
  show ?thesis
  proof (cases "0 < m")
    case True
    have "0 < (of_int m * 2 powi e :: rat)" using True by simp
    then have "rnd (of_int m * 2 powi e) = round_pos (of_int m * 2 powi e)"
      unfolding rnd_def by (metis less_irrefl not_less_iff_gr_or_eq)
    with True assms round_pos_exact [of m e] show ?thesis by simp
  next
    case False
    with \<open>m \<noteq> 0\<close> have "0 < - m" by simp
    then have "(of_int m * 2 powi e :: rat) < 0" by (simp add: mult_neg_pos)
    then have "rnd (of_int m * 2 powi e) = - round_pos (- (of_int m * 2 powi e))"
      unfolding rnd_def by (metis less_irrefl)
    also have "- (of_int m * 2 powi e) = (of_int (- m) * 2 powi e :: rat)" by simp
    also have "round_pos (of_int (- m) * 2 powi e) = of_int (- m) * 2 powi e"
      by (rule round_pos_exact) (use \<open>0 < - m\<close> assms in auto)
    finally show ?thesis by simp
  qed
qed

lemma rnd_int: "\<bar>m\<bar> \<le> 2 ^ 53 \<Longrightarrow> rnd (of_int m) = of_int m"
  using rnd_exact [of m 0] by simp

lemma rnd_0 [simp]: "rnd 0 = 0"
  by (simp add: rnd_def)

lemma rnd_nat: "n \<le> 2 ^ 53 \<Longrightarrow> rnd (of_nat n) = of_nat n"
  using rnd_int [of "int n"] by simp

end
