(* ===== verification/Dc2dc_Replicator.thy ===== *)
theory Dc2dc_Replicator
  imports Wal_Tailing Checkpoint_File Doubles
begin

text \<open>
  The source side of DC-to-DC replication: the lag monitor
  (\<^verbatim>\<open>ReplicationLagMonitor.cpp\<close>), the loop of a shard's tail thread and the lifecycle of
  the feature (\<^verbatim>\<open>DC2DCReplicator.cpp\<close>).  The lag is computed in \<open>double\<close>s, through
  the rounding of \<open>Doubles\<close>.  A tail thread is run as its iterations; what the server appends to
  the log before each poll is an argument.
\<close>

section \<open>ReplicationLagMonitor\<close>

record shard_lag_info =
  li_shardId :: string
  li_lastEntryTimestamp :: u64
  li_currentTimestamp :: u64
  li_lagSeconds :: rat
  li_exceedsThreshold :: bool

record lag_monitor =
  lm_lagThresholdSeconds :: rat
  lm_lastTimestamps :: "(string \<times> u64) list"

definition new_lag_monitor :: "rat \<Rightarrow> lag_monitor" where
  "new_lag_monitor threshold = \<lparr>lm_lagThresholdSeconds = threshold, lm_lastTimestamps = []\<rparr>"

definition recordEntry :: "lag_monitor \<Rightarrow> string \<Rightarrow> u64 \<Rightarrow> lag_monitor" where
  "recordEntry mon shardId ts =
     (let old = (case map_of (lm_lastTimestamps mon) shardId of None \<Rightarrow> 0 | Some t \<Rightarrow> t)
      in mon\<lparr>lm_lastTimestamps := AList.update shardId (if ts > old then ts else old) (lm_lastTimestamps mon)\<rparr>)"

definition lag_seconds :: "u64 \<Rightarrow> u64 \<Rightarrow> rat" where
  "lag_seconds currentTs lastTs =
     (let deltaMicros = dsub (double_of_u64 currentTs) (double_of_u64 lastTs)
      in ddiv deltaMicros 1000000)"

definition getLag :: "lag_monitor \<Rightarrow> u64 \<Rightarrow> string \<Rightarrow> shard_lag_info" where
  "getLag mon now shardId =
     (case map_of (lm_lastTimestamps mon) shardId of
        None \<Rightarrow> \<lparr>li_shardId = shardId, li_lastEntryTimestamp = 0, li_currentTimestamp = now,
                 li_lagSeconds = 0, li_exceedsThreshold = False\<rparr>
      | Some lastTs \<Rightarrow>
          (let lag = lag_seconds now lastTs
           in \<lparr>li_shardId = shardId, li_lastEntryTimestamp = lastTs, li_currentTimestamp = now,
               li_lagSeconds = lag, li_exceedsThreshold = (lag > lm_lagThresholdSeconds mon)\<rparr>))"

fun all_lags_loop :: "rat \<Rightarrow> u64 \<Rightarrow> (string \<times> u64) list \<Rightarrow> (string \<times> shard_lag_info) list \<Rightarrow>
    (string \<times> shard_lag_info) list" where
  "all_lags_loop threshold now [] result = result"
| "all_lags_loop threshold now ((shardId, lastTs) # rest) result =
     (let lag = lag_seconds now lastTs
      in all_lags_loop threshold now rest (AList.update shardId
           \<lparr>li_shardId = shardId, li_lastEntryTimestamp = lastTs, li_currentTimestamp = now,
            li_lagSeconds = lag, li_exceedsThreshold = (lag > threshold)\<rparr> result))"

definition getAllLags :: "lag_monitor \<Rightarrow> u64 \<Rightarrow> (string \<times> shard_lag_info) list" where
  "getAllLags mon now = all_lags_loop (lm_lagThresholdSeconds mon) now (lm_lastTimestamps mon) []"

fun any_exceeds :: "rat \<Rightarrow> u64 \<Rightarrow> (string \<times> u64) list \<Rightarrow> bool" where
  "any_exceeds threshold now [] = False"
| "any_exceeds threshold now ((shardId, lastTs) # rest) =
     (let lagSec = lag_seconds now lastTs
      in if lagSec > threshold then True else any_exceeds threshold now rest)"

definition anyShardExceedsThreshold :: "lag_monitor \<Rightarrow> u64 \<Rightarrow> bool" where
  "anyShardExceedsThreshold mon now = any_exceeds (lm_lagThresholdSeconds mon) now (lm_lastTimestamps mon)"

section \<open>Options and lifecycle\<close>

record dc2dc_options =
  do_enabled :: bool
  do_targetCluster :: string
  do_lagToleranceSec :: u32
  do_batchSize :: u32
  do_threadCount :: u32
  do_maxRetries :: u32
  do_checkpointIntervalSec :: u32
  do_checkpointPath :: string

definition dc2dc_defaults :: dc2dc_options where
  "dc2dc_defaults = \<lparr>do_enabled = False, do_targetCluster = [], do_lagToleranceSec = 30,
     do_batchSize = 1000, do_threadCount = 4, do_maxRetries = 5, do_checkpointIntervalSec = 60,
     do_checkpointPath = ''replication-checkpoint.json''\<rparr>"

definition dc2dc_validateOptions :: "dc2dc_options \<Rightarrow> bool" where
  "dc2dc_validateOptions o' =
     (if \<not> do_enabled o' then True
      else if do_targetCluster o' = [] then False
      else if do_batchSize o' = 0 then False
      else if do_threadCount o' = 0 then False
      else if do_checkpointIntervalSec o' = 0 then False
      else True)"

text \<open>\<open>rp_tailThreads\<close> holds the shard indices of the threads not joined yet.  Destroying a
  \<open>std::thread\<close> that is still joinable ends the process.\<close>

record replicator =
  rp_options :: dc2dc_options
  rp_prepared :: bool
  rp_generator :: generator
  rp_tracker :: tracker
  rp_lagMonitor :: lag_monitor
  rp_walTailingConfigured :: bool
  rp_numberOfShards :: u32
  rp_tailing :: bool
  rp_tailThreads :: "nat list"

datatype start_error = NotPrepared | LoadFailed string | Terminated

definition new_replicator :: "dc2dc_options \<Rightarrow> replicator" where
  "new_replicator opts = \<lparr>rp_options = opts, rp_prepared = False, rp_generator = generator_init,
     rp_tracker = [], rp_lagMonitor = new_lag_monitor 30, rp_walTailingConfigured = False,
     rp_numberOfShards = 0, rp_tailing = False, rp_tailThreads = []\<rparr>"

definition dc2dc_prepare :: "replicator \<Rightarrow> replicator" where
  "dc2dc_prepare r = r\<lparr>rp_generator := generator_init, rp_tracker := [],
     rp_lagMonitor := new_lag_monitor (rnd (of_nat (unat (do_lagToleranceSec (rp_options r))))),
     rp_prepared := True\<rparr>"

definition configureWALTailing :: "replicator \<Rightarrow> u32 \<Rightarrow> replicator" where
  "configureWALTailing r numberOfShards =
     r\<lparr>rp_numberOfShards := numberOfShards, rp_walTailingConfigured := True\<rparr>"

definition dc2dc_start :: "bool \<Rightarrow> file_system \<Rightarrow> replicator \<Rightarrow> start_error + replicator" where
  "dc2dc_start can_open fs r =
     (if \<not> rp_prepared r then Inl NotPrepared
      else let (result, tr) = checkpoint_load can_open (do_checkpointPath (rp_options r)) fs (rp_tracker r)
           in if \<not> cr_success result
              then Inl (LoadFailed (''Failed to load replication checkpoint: '' @ cr_error result))
              else let r = r\<lparr>rp_tracker := tr\<rparr>
                   in if rp_walTailingConfigured r \<and> \<not> rp_tailing r
                      then if rp_tailThreads r \<noteq> [] then Inl Terminated
                           else Inr (r\<lparr>rp_tailing := True,
                                       rp_tailThreads := [0..<unat (rp_numberOfShards r)]\<rparr>)
                      else Inr r)"

definition dc2dc_stop :: "save_outcome \<Rightarrow> file_system \<Rightarrow> replicator \<Rightarrow> replicator \<times> file_system" where
  "dc2dc_stop outcome fs r =
     (if \<not> rp_prepared r then (r, fs)
      else let r = (if rp_tailing r then r\<lparr>rp_tailing := False\<rparr> else r);
               (result, fs) = checkpoint_save outcome (do_checkpointPath (rp_options r)) (rp_tracker r) fs
           in (r, fs))"

text \<open>Joining waits for the threads, which leave their loop only after \<open>_tailing\<close> is cleared:
  \<open>None\<close> is a join that does not return.\<close>

definition joinTailThreads :: "replicator \<Rightarrow> replicator option" where
  "joinTailThreads r =
     (if rp_tailThreads r \<noteq> [] \<and> rp_tailing r then None else Some (r\<lparr>rp_tailThreads := []\<rparr>))"

text \<open>The destructor: as \<open>stop\<close> and a join, but it saves nothing.\<close>

definition dc2dc_destroy :: "replicator \<Rightarrow> replicator option" where
  "dc2dc_destroy r = joinTailThreads (if rp_tailing r then r\<lparr>rp_tailing := False\<rparr> else r)"

definition dc2dc_isTailing :: "replicator \<Rightarrow> bool" where
  "dc2dc_isTailing r = rp_tailing r"

section \<open>The tail loop of a shard\<close>

record ('i, 'w) tail_state =
  ts_tailer :: "'i tailer"
  ts_batcher :: batcher
  ts_monitor :: lag_monitor
  ts_world :: 'w
  ts_out :: "message_batch list"

definition emit :: "message_batch option \<Rightarrow> message_batch list \<Rightarrow> message_batch list" where
  "emit m out = out @ (case m of None \<Rightarrow> [] | Some msg \<Rightarrow> [msg])"

fun tail_entries :: "'w source \<Rightarrow> 'w source \<Rightarrow> string \<Rightarrow> wal_entry list \<Rightarrow> ('i, 'w) tail_state \<Rightarrow> ('i, 'w) tail_state" where
  "tail_entries clock provider shardId [] s = s"
| "tail_entries clock provider shardId (entry # entries) s =
     (let mon = recordEntry (ts_monitor s) shardId (we_timestamp entry);
          (msg, b, w) = batcher_add clock provider (ts_batcher s) entry (ts_world s)
      in tail_entries clock provider shardId entries
           (s\<lparr>ts_monitor := mon, ts_batcher := b, ts_world := w, ts_out := emit msg (ts_out s)\<rparr>))"

definition tail_flush :: "'w source \<Rightarrow> 'w source \<Rightarrow> ('i, 'w) tail_state \<Rightarrow> ('i, 'w) tail_state" where
  "tail_flush clock provider s =
     (let (msg, b, w) = batcher_flush clock provider (ts_batcher s) (ts_world s)
      in s\<lparr>ts_batcher := b, ts_world := w, ts_out := emit msg (ts_out s)\<rparr>)"

text \<open>One iteration: the tailer is local to the thread, so nothing ever stops its poll.\<close>

definition tail_iteration ::
  "'i wal_iterator \<Rightarrow> resolver \<Rightarrow> 'w source \<Rightarrow> 'w source \<Rightarrow> u32 \<Rightarrow> string \<Rightarrow> ('i, 'w) tail_state \<Rightarrow>
     ('i, 'w) tail_state option" where
  "tail_iteration it res clock provider batchSize shardId s =
     (case poll it res (\<lambda>_. False) (ts_tailer s) batchSize of
        None \<Rightarrow> None
      | Some (t, entries) \<Rightarrow>
          (let s = tail_entries clock provider shardId entries (s\<lparr>ts_tailer := t\<rparr>)
           in Some (if entries = [] then tail_flush clock provider s else s)))"

text \<open>The loop runs one iteration for each time it reads \<open>_tailing\<close> as true; \<open>env\<close> changes the
  iterator's state before the poll.\<close>

fun tail_loop ::
  "'i wal_iterator \<Rightarrow> resolver \<Rightarrow> 'w source \<Rightarrow> 'w source \<Rightarrow> u32 \<Rightarrow> string \<Rightarrow> ('i \<Rightarrow> 'i) list \<Rightarrow>
     ('i, 'w) tail_state \<Rightarrow> ('i, 'w) tail_state option" where
  "tail_loop it res clock provider batchSize shardId [] s = Some (tail_flush clock provider s)"
| "tail_loop it res clock provider batchSize shardId (env # envs) s =
     (case tail_iteration it res clock provider batchSize shardId
             (s\<lparr>ts_tailer := (ts_tailer s)\<lparr>tl_iterator := env (tl_iterator (ts_tailer s))\<rparr>\<rparr>) of
        None \<Rightarrow> None
      | Some s' \<Rightarrow> tail_loop it res clock provider batchSize shardId envs s')"

definition shardTailLoop ::
  "'i wal_iterator \<Rightarrow> (u32 \<Rightarrow> 'i) \<Rightarrow> resolver \<Rightarrow> 'w source \<Rightarrow> 'w source \<Rightarrow> replicator \<Rightarrow> u32 \<Rightarrow> 'w \<Rightarrow>
     ('i \<Rightarrow> 'i) list \<Rightarrow> ('i, 'w) tail_state option" where
  "shardTailLoop it factory res clock provider r shardIndex w envs =
     (let shardId = ''shard_'' @ dec (unat shardIndex);
          batchSize = do_batchSize (rp_options r)
      in tail_loop it res clock provider batchSize shardId envs
           \<lparr>ts_tailer = new_tailer shardIndex (rp_numberOfShards r) (factory shardIndex),
            ts_batcher = new_batcher shardId batchSize, ts_monitor = rp_lagMonitor r, ts_world = w, ts_out = []\<rparr>)"

section \<open>The lag threshold\<close>

lemma double_of_u64_exact: "unat w \<le> 2 ^ 53 \<Longrightarrow> double_of_u64 w = of_nat (unat w)"
  unfolding double_of_u64_def by (rule rnd_nat)

text \<open>A quotient by a million exceeds a threshold below \<open>2^32\<close> exactly when the whole number of
  microseconds does: a number of the form \<open>T + 2^-21\<close> lies in between and is a \<open>double\<close>.\<close>

lemma quotient_exceeds:
  fixes d t :: int
  assumes "0 \<le> t" and "t < 2 ^ 32"
  shows "of_int t < rnd (of_int d / 1000000) \<longleftrightarrow> t * 1000000 < d"
proof
  assume gt: "of_int t < rnd (of_int d / 1000000)"
  show "t * 1000000 < d"
  proof (rule ccontr)
    assume "\<not> t * 1000000 < d"
    then have "(of_int d :: rat) \<le> of_int (t * 1000000)" by (simp only: of_int_le_iff not_less)
    then have "of_int d / 1000000 \<le> (of_int t :: rat)" by simp
    from rnd_mono [OF this] have "rnd (of_int d / 1000000) \<le> of_int t"
      using rnd_int [of t] assms by simp
    with gt show False by simp
  qed
next
  assume "t * 1000000 < d"
  then have "(of_int (t * 1000000 + 1) :: rat) \<le> of_int d" by (simp only: of_int_le_iff)
  moreover have "(of_int (t * 2 ^ 21 + 1) * 2 powi (- 21) :: rat) \<le> of_int (t * 1000000 + 1) / 1000000"
    by (simp add: power_int_minus field_simps)
  ultimately have le: "(of_int (t * 2 ^ 21 + 1) * 2 powi (- 21) :: rat) \<le> of_int d / 1000000" by simp
  have "of_int t < (of_int (t * 2 ^ 21 + 1) * 2 powi (- 21) :: rat)" by (simp add: power_int_minus field_simps)
  also have "\<dots> = rnd (of_int (t * 2 ^ 21 + 1) * 2 powi (- 21))"
    by (rule rnd_exact [symmetric]) (use assms in auto)
  also have "\<dots> \<le> rnd (of_int d / 1000000)" by (rule rnd_mono [OF le])
  finally show "of_int t < rnd (of_int d / 1000000)" .
qed

lemma int_diff_bound: "a < 2 ^ 53 \<Longrightarrow> b < 2 ^ 53 \<Longrightarrow> \<bar>int a - int b\<bar> \<le> 2 ^ 53"
  by simp

lemma lag_exceeds_iff:
  assumes "unat now < 2 ^ 53" and "unat lastTs < 2 ^ 53"
  shows "lag_seconds now lastTs > of_nat (unat (t :: u32)) \<longleftrightarrow>
           int (unat t) * 1000000 < int (unat now) - int (unat lastTs)"
proof -
  let ?d = "int (unat now) - int (unat lastTs)"
  have "double_of_u64 now - double_of_u64 lastTs = of_int ?d"
    using assms by (simp add: double_of_u64_exact)
  moreover have "\<bar>?d\<bar> \<le> 2 ^ 53" by (rule int_diff_bound [OF assms])
  ultimately have "dsub (double_of_u64 now) (double_of_u64 lastTs) = of_int ?d"
    unfolding dsub_def using rnd_int by metis
  then have "lag_seconds now lastTs = rnd (of_int ?d / 1000000)" by (simp add: lag_seconds_def ddiv_def Let_def)
  moreover have "int (unat t) < 2 ^ 32"
    using of_nat_less_iff [where 'a = int, THEN iffD2, OF unat_lt_2_32 [of t]] by simp
  ultimately show ?thesis using quotient_exceeds [of "int (unat t)" ?d] by simp
qed

lemma any_exceeds_iff: "any_exceeds T now tss \<longleftrightarrow> (\<exists>(s, ts) \<in> set tss. lag_seconds now ts > T)"
  by (induction T now tss rule: any_exceeds.induct) (auto simp: Let_def)

lemma any_shard_iff:
  assumes "distinct (map fst (lm_lastTimestamps mon))"
  shows "anyShardExceedsThreshold mon now \<longleftrightarrow> (\<exists>s. li_exceedsThreshold (getLag mon now s))"
proof -
  have "li_exceedsThreshold (getLag mon now s) \<longleftrightarrow>
      (\<exists>l. (s, l) \<in> set (lm_lastTimestamps mon) \<and> lag_seconds now l > lm_lagThresholdSeconds mon)" for s
    unfolding map_of_eq_Some_iff [OF assms, symmetric]
    by (auto simp: getLag_def Let_def split: option.splits)
  then show ?thesis by (auto simp: anyShardExceedsThreshold_def any_exceeds_iff)
qed

lemma prepared_threshold:
  "lm_lagThresholdSeconds (rp_lagMonitor (dc2dc_prepare r)) = of_nat (unat (do_lagToleranceSec (rp_options r)))"
proof -
  have "unat (do_lagToleranceSec (rp_options r)) \<le> 2 ^ 53"
    using unat_lt_2_32 [of "do_lagToleranceSec (rp_options r)"] by simp
  then have "rnd (of_nat (unat (do_lagToleranceSec (rp_options r)))) = of_nat (unat (do_lagToleranceSec (rp_options r)))"
    by (rule rnd_nat)
  then show ?thesis unfolding dc2dc_prepare_def new_lag_monitor_def by simp
qed

section \<open>The tail loop delivers the shard's entries\<close>

lemma tail_entries_run:
  "foldl (batcher_step clock provider) (ts_out s, ts_batcher s, ts_world s) (map Add es) =
       (ts_out (tail_entries clock provider sid es s), ts_batcher (tail_entries clock provider sid es s),
        ts_world (tail_entries clock provider sid es s)) \<and>
     ts_tailer (tail_entries clock provider sid es s) = ts_tailer s"
proof (induction es arbitrary: s)
  case (Cons e es)
  obtain m b w where a: "batcher_add clock provider (ts_batcher s) e (ts_world s) = (m, b, w)"
    by (cases "batcher_add clock provider (ts_batcher s) e (ts_world s)") auto
  let ?s = "s\<lparr>ts_monitor := recordEntry (ts_monitor s) sid (we_timestamp e), ts_batcher := b,
              ts_world := w, ts_out := emit m (ts_out s)\<rparr>"
  from Cons.IH [of ?s] show ?case by (simp add: a emit_def)
qed simp

definition tail_ok :: "string \<Rightarrow> u32 \<Rightarrow> wal_entry list \<Rightarrow> ('i, 'w) tail_state \<Rightarrow> bool" where
  "tail_ok sid n es s \<longleftrightarrow> batches_ok sid n es (ts_out s) (ts_batcher s)"

lemma tail_entries_ok:
  assumes "tail_ok sid n es s"
  shows "tail_ok sid n (es @ es') (tail_entries clock provider x es' s)"
    and "ts_tailer (tail_entries clock provider x es' s) = ts_tailer s"
proof -
  have a: "added (map Add es') = es'" by (induction es') (simp_all add: added_def)
  note run = tail_entries_run [of clock provider s es' x]
  from batcher_run_ok [OF assms [unfolded tail_ok_def] conjunct1 [OF run]]
  show "tail_ok sid n (es @ es') (tail_entries clock provider x es' s)"
    by (simp add: tail_ok_def a)
  show "ts_tailer (tail_entries clock provider x es' s) = ts_tailer s" using run by blast
qed

lemma tail_flush_ok:
  assumes "tail_ok sid n es s"
  shows "tail_ok sid n es (tail_flush clock provider s)" and "ts_tailer (tail_flush clock provider s) = ts_tailer s"
    and "ba_pending (ts_batcher (tail_flush clock provider s)) = []"
proof -
  obtain m b w where f: "batcher_flush clock provider (ts_batcher s) (ts_world s) = (m, b, w)"
    by (cases "batcher_flush clock provider (ts_batcher s) (ts_world s)") auto
  have "batcher_step clock provider (ts_out s, ts_batcher s, ts_world s) Flush = (emit m (ts_out s), b, w)"
    by (simp add: f emit_def)
  from batcher_step_ok [OF assms [unfolded tail_ok_def] this]
  show "tail_ok sid n es (tail_flush clock provider s)"
    by (simp add: tail_ok_def tail_flush_def f added_def)
  show "ts_tailer (tail_flush clock provider s) = ts_tailer s" by (simp add: tail_flush_def f)
  show "ba_pending (ts_batcher (tail_flush clock provider s)) = []"
    using f by (auto simp: tail_flush_def batcher_flush_def seal_eq split: if_splits)
qed

text \<open>An iteration takes at least one entry unless it reaches the end of the log, so the backlog
  after a run of iterations is at most the following.\<close>

definition backlog :: "nat \<Rightarrow> wal_entry list list \<Rightarrow> nat" where
  "backlog L gs = foldl (\<lambda>L es. L + length es - 1) L gs"

lemma backlog_mono: "L \<le> L' \<Longrightarrow> backlog L gs \<le> backlog L' gs"
  unfolding backlog_def by (induction gs arbitrary: L L') (auto intro: diff_le_mono)

lemma backlog_append: "backlog L (gs @ hs) = backlog (backlog L gs) hs"
  by (simp add: backlog_def)

lemma backlog_le: "backlog L gs \<le> L + length (concat gs)"
proof (induction gs arbitrary: L)
  case (Cons es gs)
  have "backlog L (es # gs) = backlog (L + length es - 1) gs" by (simp add: backlog_def)
  also have "\<dots> \<le> (L + length es - 1) + length (concat gs)" by (rule Cons.IH)
  finally show ?case by simp
qed (simp add: backlog_def)

lemma backlog_empty: "backlog L (replicate k []) = L - k"
  by (induction k arbitrary: L) (simp_all add: backlog_def)

context wal_reader
begin

definition tail_view :: "resolver \<Rightarrow> u32 \<Rightarrow> u32 \<Rightarrow> ('i, 'w) tail_state \<Rightarrow> bool" where
  "tail_view res i n s \<longleftrightarrow> cache_ok res (ts_tailer s) \<and> tl_shardIndex (ts_tailer s) = i \<and>
     tl_numberOfShards (ts_tailer s) = n \<and> \<not> tl_stopped (ts_tailer s) \<and> wf (tl_iterator (ts_tailer s))"

abbreviation rem :: "('i, 'w) tail_state \<Rightarrow> wal_entry list" where
  "rem s \<equiv> remaining (tl_iterator (ts_tailer s))"

lemma tail_iteration_delivers:
  assumes "tail_view res i n s" and "tail_ok sid bs E s"
  shows "\<exists>s' p. tail_iteration it res clock provider bs x s = Some s' \<and> tail_view res i n s' \<and>
     tail_ok sid bs (E @ filter (mine res i n) p) s' \<and> rem s = p @ rem s' \<and>
     (0 < bs \<longrightarrow> length (rem s') \<le> length (rem s) - 1)"
proof -
  have v: "cache_ok res (ts_tailer s)" "tl_shardIndex (ts_tailer s) = i"
    "tl_numberOfShards (ts_tailer s) = n" "\<not> tl_stopped (ts_tailer s)" "wf (tl_iterator (ts_tailer s))"
    using assms(1) by (auto simp: tail_view_def)
  obtain t m where
    q: "poll it res (\<lambda>_. False) (ts_tailer s) bs = Some (t, filter (mine res (tl_shardIndex (ts_tailer s))
            (tl_numberOfShards (ts_tailer s))) (take m (rem s)))"
      "remaining (tl_iterator t) = drop m (rem s)" "cache_ok res t" "tl_shardIndex t = tl_shardIndex (ts_tailer s)"
      "tl_numberOfShards t = tl_numberOfShards (ts_tailer s)" "tl_stopped t = tl_stopped (ts_tailer s)" "wf (tl_iterator t)"
      "remaining (tl_iterator t) \<noteq> [] \<Longrightarrow> unat bs \<le> length (filter (mine res (tl_shardIndex (ts_tailer s))
            (tl_numberOfShards (ts_tailer s))) (take m (rem s)))"
    by (rule poll_consumes [OF v(1), of "\<lambda>_. False" bs]) (use v(4,5) in blast)
  note p = q [unfolded v(2,3)]
  let ?es = "filter (mine res i n) (take m (rem s))"
  let ?s1 = "tail_entries clock provider x ?es (s\<lparr>ts_tailer := t\<rparr>)"
  let ?s' = "if ?es = [] then tail_flush clock provider ?s1 else ?s1"
  have "tail_ok sid bs E (s\<lparr>ts_tailer := t\<rparr>)" using assms(2) by (simp add: tail_ok_def)
  note e = tail_entries_ok [OF this, where es' = "?es" and clock = clock and provider = provider and x = x]
  have s': "tail_ok sid bs (E @ ?es) ?s'" "ts_tailer ?s' = t"
    using e tail_flush_ok [OF e(1), of clock provider] by auto
  have it: "tail_iteration it res clock provider bs x s = Some ?s'"
    by (simp only: tail_iteration_def p(1) option.case prod.case Let_def)
  have short: "length (rem ?s') \<le> length (rem s) - 1" if "0 < bs"
  proof (cases "remaining (tl_iterator t) = []")
    case False
    have "0 < unat bs" using that by (simp add: unat_gt_0)
    with p(8) [OF False] have "m \<noteq> 0" by (intro notI) simp
    then show ?thesis unfolding s'(2) p(2) by simp
  qed (simp add: s'(2))
  show ?thesis
    by (rule exI [of _ ?s'], rule exI [of _ "take m (rem s)"])
      (use it s' p short v(4) in \<open>simp add: tail_view_def\<close>)
qed

lemma tail_loop_delivers:
  assumes "list_all2 (\<lambda>env es. \<forall>i. wf i \<longrightarrow> wf (env i) \<and> remaining (env i) = remaining i @ es) envs gs"
    and "tail_view res i n s" and "tail_ok sid bs E s"
  shows "\<exists>s' p. tail_loop it res clock provider bs x envs s = Some s' \<and>
     tail_ok sid bs (E @ filter (mine res i n) p) s' \<and> ba_pending (ts_batcher s') = [] \<and>
     rem s @ concat gs = p @ rem s' \<and> (0 < bs \<longrightarrow> length (rem s') \<le> backlog (length (rem s)) gs)"
  using assms
proof (induction envs gs arbitrary: s E rule: list_all2_induct)
  case Nil
  note f = tail_flush_ok [OF Nil(2), of clock provider]
  show ?case
    by (rule exI [of _ "tail_flush clock provider s"], rule exI [of _ "[]"])
      (use f in \<open>simp add: backlog_def\<close>)
next
  case (Cons env envs es gs)
  let ?s0 = "s\<lparr>ts_tailer := (ts_tailer s)\<lparr>tl_iterator := env (tl_iterator (ts_tailer s))\<rparr>\<rparr>"
  have r0: "rem ?s0 = rem s @ es" using Cons.hyps(1) Cons.prems(1) by (simp add: tail_view_def)
  have v0: "tail_view res i n ?s0" using Cons.prems(1) Cons.hyps(1) by (simp add: tail_view_def cache_ok_def)
  have o0: "tail_ok sid bs E ?s0" using Cons.prems(2) by (simp add: tail_ok_def)
  from tail_iteration_delivers [OF v0 o0, of clock provider x] obtain s1 p1 where
    s1: "tail_iteration it res clock provider bs x ?s0 = Some s1" "tail_view res i n s1"
      "tail_ok sid bs (E @ filter (mine res i n) p1) s1" "rem ?s0 = p1 @ rem s1"
      "0 < bs \<longrightarrow> length (rem s1) \<le> length (rem ?s0) - 1" by blast
  from Cons.IH [OF s1(2,3)] obtain s' p2 where
    s': "tail_loop it res clock provider bs x envs s1 = Some s'"
      "tail_ok sid bs ((E @ filter (mine res i n) p1) @ filter (mine res i n) p2) s'"
      "ba_pending (ts_batcher s') = []" "rem s1 @ concat gs = p2 @ rem s'"
      "0 < bs \<longrightarrow> length (rem s') \<le> backlog (length (rem s1)) gs" by blast
  have "rem s @ concat (es # gs) = (p1 @ p2) @ rem s'"
    using r0 s1(4) s'(4) by (metis append.assoc concat.simps(2))
  moreover have "length (rem s') \<le> backlog (length (rem s)) (es # gs)" if "0 < bs"
  proof -
    have "length (rem s1) \<le> length (rem s) + length es - 1" using s1(5) that unfolding r0 by simp
    from backlog_mono [OF this, of gs] s'(5) that show ?thesis by (simp add: backlog_def)
  qed
  ultimately show ?case
    by (intro exI [of _ s'] exI [of _ "p1 @ p2"]) (use s1(1) s' in simp)
qed

end
section \<open>The recorded timestamps\<close>

definition recorded :: "(string \<times> u64) list \<Rightarrow> string \<Rightarrow> u64 set" where
  "recorded recs s = {t. (s, t) \<in> set recs}"

definition record_all :: "lag_monitor \<Rightarrow> (string \<times> u64) list \<Rightarrow> lag_monitor" where
  "record_all mon recs = foldl (\<lambda>mon (s, t). recordEntry mon s t) mon recs"

lemma record_all_view:
  assumes "lm_lastTimestamps mon = []"
  shows "lm_lagThresholdSeconds (record_all mon recs) = lm_lagThresholdSeconds mon \<and>
     distinct (map fst (lm_lastTimestamps (record_all mon recs))) \<and>
     (\<forall>s. case map_of (lm_lastTimestamps (record_all mon recs)) s of
        None \<Rightarrow> recorded recs s = {}
      | Some l \<Rightarrow> l \<in> recorded recs s \<and> (\<forall>t \<in> recorded recs s. t \<le> l))"
proof (induction recs rule: rev_induct)
  case Nil
  then show ?case using assms by (simp add: record_all_def recorded_def)
next
  case (snoc x recs)
  obtain s t where x: "x = (s, t)" by (cases x)
  let ?mon = "record_all mon recs"
  have step: "record_all mon (recs @ [x]) = recordEntry ?mon s t" by (simp add: record_all_def x)
  have rec: "recorded (recs @ [x]) s' = recorded recs s' \<union> (if s' = s then {t} else {})" for s'
    by (auto simp: recorded_def x)
  from snoc have "case map_of (lm_lastTimestamps (recordEntry ?mon s t)) s' of
        None \<Rightarrow> recorded (recs @ [x]) s' = {}
      | Some l \<Rightarrow> l \<in> recorded (recs @ [x]) s' \<and> (\<forall>t \<in> recorded (recs @ [x]) s'. t \<le> l)" for s'
    unfolding rec by (cases "s' = s"; cases "map_of (lm_lastTimestamps ?mon) s'")
      (auto simp: recordEntry_def Let_def not_less dest: spec [of _ s'] split: option.splits
        intro: order_trans [OF _ less_imp_le])
  with snoc show ?case unfolding step by (simp add: recordEntry_def Let_def distinct_update)
qed

section \<open>Properties\<close>

text \<open>The monitor of a prepared replicator after a sequence of recorded entries.\<close>

definition recorded_monitor :: "replicator \<Rightarrow> (string \<times> u64) list \<Rightarrow> lag_monitor" where
  "recorded_monitor r recs = record_all (rp_lagMonitor (dc2dc_prepare r)) recs"

text \<open>C27. The lag alarm is exact: for clocks below \<open>2^53\<close> microseconds, after any sequence of
  recorded entries, a shard of a prepared replicator exceeds the threshold exactly when every
  entry recorded for it is more than \<open>lagToleranceSec\<close> seconds old (the rounding of the
  \<open>double\<close> subtraction and division never changes the verdict), a shard without entries never
  does, and \<open>anyShardExceedsThreshold\<close> is the disjunction over the shards.\<close>

theorem lag_alarm_exact:
  assumes "unat now < 2 ^ 53" and "\<forall>(s, t) \<in> set recs. unat t < 2 ^ 53"
  shows "(li_exceedsThreshold (getLag (recorded_monitor r recs) now s) \<longleftrightarrow>
            recorded recs s \<noteq> {} \<and>
            (\<forall>t \<in> recorded recs s. int (unat (do_lagToleranceSec (rp_options r))) * 1000000 <
               int (unat now) - int (unat t))) \<and>
         (anyShardExceedsThreshold (recorded_monitor r recs) now \<longleftrightarrow>
            (\<exists>s. li_exceedsThreshold (getLag (recorded_monitor r recs) now s)))"
proof -
  let ?mon = "recorded_monitor r recs" and ?tol = "int (unat (do_lagToleranceSec (rp_options r)))"
  have "lm_lastTimestamps (rp_lagMonitor (dc2dc_prepare r)) = []"
    by (simp add: dc2dc_prepare_def new_lag_monitor_def)
  note v = record_all_view [OF this, of recs, folded recorded_monitor_def, unfolded prepared_threshold]
  have bound: "unat l < 2 ^ 53" if "l \<in> recorded recs s" for l s
    using that assms(2) by (auto simp: recorded_def)
  have "li_exceedsThreshold (getLag ?mon now s) \<longleftrightarrow> recorded recs s \<noteq> {} \<and>
      (\<forall>t \<in> recorded recs s. ?tol * 1000000 < int (unat now) - int (unat t))"
  proof (cases "map_of (lm_lastTimestamps ?mon) s")
    case None
    with v have "recorded recs s = {}" by (auto dest: spec [of _ s])
    with None show ?thesis by (simp add: getLag_def)
  next
    case (Some l)
    with v have l: "l \<in> recorded recs s" "\<forall>t \<in> recorded recs s. t \<le> l" by (auto dest: spec [of _ s])
    have "li_exceedsThreshold (getLag ?mon now s) \<longleftrightarrow> lag_seconds now l > of_nat (unat (do_lagToleranceSec (rp_options r)))"
      using Some v by (simp add: getLag_def Let_def)
    also have "\<dots> \<longleftrightarrow> ?tol * 1000000 < int (unat now) - int (unat l)"
      by (rule lag_exceeds_iff [OF assms(1) bound [OF l(1)]])
    also have "\<dots> \<longleftrightarrow> recorded recs s \<noteq> {} \<and> (\<forall>t \<in> recorded recs s. ?tol * 1000000 < int (unat now) - int (unat t))"
    proof -
      have "int (unat t) \<le> int (unat l)" if "t \<in> recorded recs s" for t
        using l(2) that by (simp only: word_le_nat_alt of_nat_le_iff)
      with l(1) show ?thesis by (smt (verit) empty_iff)
    qed
    finally show ?thesis .
  qed
  moreover have "anyShardExceedsThreshold ?mon now \<longleftrightarrow> (\<exists>s. li_exceedsThreshold (getLag ?mon now s))"
    by (rule any_shard_iff) (use v in blast)
  ultimately show ?thesis by blast
qed

lemma lag_alarm_exact_witness:
  "let r = new_replicator dc2dc_defaults;
       mon = recorded_monitor r [(''s'', 5000000), (''s'', 1000000)]
   in \<not> li_exceedsThreshold (getLag mon 35000000 ''s'') \<and> li_exceedsThreshold (getLag mon 35000001 ''s'') \<and>
      anyShardExceedsThreshold mon 35000001"
proof -
  let ?recs = "[(''s'', 5000000), (''s'', 1000000)] :: (string \<times> u64) list"
  have t: "\<forall>(s, t) \<in> set ?recs. unat t < 2 ^ 53" by simp
  have r: "recorded ?recs ''s'' = {5000000, 1000000}" by (auto simp: recorded_def)
  have n: "unat (35000000 :: u64) < 2 ^ 53" "unat (35000001 :: u64) < 2 ^ 53" by simp_all
  from lag_alarm_exact [OF n(1) t, of "new_replicator dc2dc_defaults" "''s''"]
    lag_alarm_exact [OF n(2) t, of "new_replicator dc2dc_defaults" "''s''"]
  show ?thesis unfolding Let_def r by (simp add: new_replicator_def dc2dc_defaults_def) blast
qed

definition appends :: "wal_entry list \<Rightarrow> mock_wal_iterator \<Rightarrow> mock_wal_iterator" where
  "appends es i = foldl mock_addEntry i es"

lemma appends_eq: "appends es i = i\<lparr>mk_entries := mk_entries i @ es\<rparr>"
  by (induction es arbitrary: i) (simp_all add: appends_def mock_addEntry_def)

text \<open>A tail thread hands over everything once: for the in-memory iterator, whatever the
  server appends before each poll and however long the thread runs, the entries of the batches it
  emits are the entries of its shard in a prefix of the log, in log order; no entry is left
  pending at the end; and with a positive batch size the prefix is the whole log once the thread
  has run as many more iterations as the log has entries.\<close>

theorem tail_thread_delivers:
  "\<exists>s p. shardTailLoop mock_iterator (\<lambda>j. \<lparr>mk_entries = wals j, mk_pos = 0\<rparr>) res clock provider r i w (map appends gs) = Some s \<and>
     concat (map mb_entries (ts_out s)) = filter (mine res i (rp_numberOfShards r)) p \<and>
     prefix p (wals i @ concat gs) \<and>
     (\<forall>k gs'. 0 < do_batchSize (rp_options r) \<and> gs = gs' @ replicate k [] \<and> length (wals i @ concat gs') \<le> k \<longrightarrow>
        p = wals i @ concat gs)"
proof -
  let ?wal = "wals i"
  let ?bs = "do_batchSize (rp_options r)" and ?n = "rp_numberOfShards r"
  let ?sid = "''shard_'' @ dec (unat i)"
  let ?s = "\<lparr>ts_tailer = new_tailer i ?n \<lparr>mk_entries = ?wal, mk_pos = 0\<rparr>, ts_batcher = new_batcher ?sid ?bs,
     ts_monitor = rp_lagMonitor r, ts_world = w, ts_out = []\<rparr>"
  have g: "list_all2 (\<lambda>env es. \<forall>i. mock_ok i \<longrightarrow> mock_ok (env i) \<and> mock_remaining (env i) = mock_remaining i @ es)
      (map appends gs) gs"
    by (simp add: list_all2_conv_all_nth appends_eq mock_ok_def)
  have v: "mock.tail_view res i ?n ?s"
    by (simp add: mock.tail_view_def new_tailer_def cache_ok_def mock_ok_def)
  have o': "tail_ok ?sid ?bs [] ?s" by (simp add: tail_ok_def batches_ok_new)
  have rem: "mock_remaining (tl_iterator (ts_tailer ?s)) = ?wal" by (simp add: new_tailer_def)
  from mock.tail_loop_delivers [OF g v o', of clock provider ?sid] obtain s p where
    s: "tail_loop mock_iterator res clock provider ?bs ?sid (map appends gs) ?s = Some s"
      "tail_ok ?sid ?bs (filter (mine res i ?n) p) s" "ba_pending (ts_batcher s) = []"
      "?wal @ concat gs = p @ mock_remaining (tl_iterator (ts_tailer s))"
      "0 < ?bs \<longrightarrow> length (mock_remaining (tl_iterator (ts_tailer s))) \<le> backlog (length ?wal) gs"
    unfolding rem append_Nil by blast
  have "p = ?wal @ concat gs" if "0 < ?bs" "gs = gs' @ replicate k []" "length (?wal @ concat gs') \<le> k" for k gs'
  proof -
    have "backlog (length ?wal) gs = backlog (length ?wal) gs' - k" by (simp add: that(2) backlog_append backlog_empty)
    also have "\<dots> = 0" using backlog_le [of "length ?wal" gs'] that(3) by simp
    finally show ?thesis using s(4,5) that(1) by simp
  qed
  moreover have "concat (map mb_entries (ts_out s)) = filter (mine res i ?n) p"
    using s(2,3) by (simp add: tail_ok_def batches_ok_def)
  moreover have "prefix p (?wal @ concat gs)" unfolding s(4) by simp
  ultimately show ?thesis using s(1) unfolding shardTailLoop_def Let_def by blast
qed

lemma tail_thread_delivers_witness:
  "\<exists>s. shardTailLoop mock_iterator (\<lambda>_. \<lparr>mk_entries = [sample_entry 1], mk_pos = 0\<rparr>) (\<lambda>_. None)
     (\<lambda>w. (0, w)) (\<lambda>w. (w, w + 1)) (configureWALTailing (dc2dc_prepare (new_replicator dc2dc_defaults)) 1) 0 1
     (map appends [[sample_entry 2], [], []]) = Some s \<and>
     concat (map mb_entries (ts_out s)) = [sample_entry 1, sample_entry 2]"
proof -
  let ?r = "configureWALTailing (dc2dc_prepare (new_replicator dc2dc_defaults)) 1"
  let ?gs = "[[sample_entry 2]] @ replicate 2 []"
  have bs: "0 < do_batchSize (rp_options ?r)" and n: "rp_numberOfShards ?r = 1"
    by (simp_all add: configureWALTailing_def dc2dc_prepare_def new_replicator_def dc2dc_defaults_def)
  have l: "length ([sample_entry 1] @ concat [[sample_entry 2]]) \<le> 2" by simp
  have gs: "[[sample_entry 2], [], []] = ?gs" by (simp add: numeral_2_eq_2)
  from tail_thread_delivers [of "\<lambda>_. [sample_entry 1]" "\<lambda>_. None" "\<lambda>w. (0, w)" "\<lambda>w. (w, w + 1)" ?r 0 1 ?gs]
  obtain s p where s: "shardTailLoop mock_iterator (\<lambda>_. \<lparr>mk_entries = [sample_entry 1], mk_pos = 0\<rparr>) (\<lambda>_. None)
      (\<lambda>w. (0, w)) (\<lambda>w. (w, w + 1)) ?r 0 1 (map appends ?gs) = Some s"
    "concat (map mb_entries (ts_out s)) = filter (mine (\<lambda>_. None) 0 1) p"
    "p = [sample_entry 1] @ concat ?gs"
    unfolding n using bs l by blast
  have "filter (mine (\<lambda>_. None) 0 1) p = [sample_entry 1, sample_entry 2]"
    by (simp add: s(3) mine_def satellite_collection_def)
  with s(1,2) show ?thesis unfolding gs by auto
qed

text \<open>Starting again after \<open>stop\<close> without joining the threads destroys joinable threads, which ends
  the process; joining in between makes it start.\<close>

lemma restart_without_join:
  assumes "rp_prepared r" and "rp_walTailingConfigured r" and "rp_tailing r" and "rp_tailThreads r \<noteq> []"
    and "dc2dc_stop AllOk fs r = (r', fs')"
    and "cr_success (fst (checkpoint_load True (do_checkpointPath (rp_options r')) fs' (rp_tracker r')))"
  shows "dc2dc_start True fs' r' = Inl Terminated"
    and "\<exists>r''. joinTailThreads r' = Some r'' \<and> (\<exists>r3. dc2dc_start True fs' r'' = Inr r3 \<and> rp_tailing r3)"
  using assms by (auto simp: dc2dc_stop_def dc2dc_start_def joinTailThreads_def Let_def split_beta)


text \<open>Destroying a running replicator ends its threads; what was applied since the last save is then
  in no checkpoint, which \<open>stop\<close> would have written.\<close>

lemma destroy_joins: "\<exists>r'. dc2dc_destroy r = Some r' \<and> \<not> dc2dc_isTailing r' \<and> rp_tailThreads r' = []"
  by (simp add: dc2dc_destroy_def joinTailThreads_def dc2dc_isTailing_def)

end
