(* ===== verification/Direct_Client.thy ===== *)
theory Direct_Client
  imports DirectMQ_Protocol Doubles
begin

text \<open>
  The outbound connection of DC-to-DC replication: the TLS configuration
  (\<^verbatim>\<open>TlsConnectionConfig.cpp\<close>), the exponential backoff
  (\<^verbatim>\<open>ConnectionRetryPolicy.cpp\<close>) and the client's state machine
  (\<^verbatim>\<open>DirectMQClient.cpp\<close>), whose OpenSSL calls are commented out in the source: what
  is left of each operation is what is modelled.  The random jitter is an argument.
\<close>

section \<open>TlsConnectionConfig\<close>

record tls_config =
  tc_targetUrl :: string
  tc_clientCertPath :: string
  tc_clientKeyPath :: string
  tc_caPath :: string
  tc_minTlsVersion :: string
  tc_cipherSuites :: string

text \<open>The constructor: \<open>Inl\<close> is the \<open>std::invalid_argument\<close> thrown.\<close>

definition TlsConnectionConfig ::
  "string \<Rightarrow> string \<Rightarrow> string \<Rightarrow> string \<Rightarrow> string \<Rightarrow> string \<Rightarrow> string + tls_config" where
  "TlsConnectionConfig targetUrl clientCertPath clientKeyPath caPath minTlsVersion cipherSuites =
     (if targetUrl = [] then Inl ''TlsConnectionConfig: targetUrl must not be empty''
      else if clientCertPath = []
      then Inl ''TlsConnectionConfig: clientCertPath must not be empty (mTLS requires a client certificate)''
      else if caPath = []
      then Inl ''TlsConnectionConfig: caPath must not be empty (server verification requires a CA certificate)''
      else if minTlsVersion \<noteq> ''1.2'' \<and> minTlsVersion \<noteq> ''1.3''
      then Inl (''TlsConnectionConfig: minTlsVersion must be '' @ [CHR 0x27] @ ''1.2'' @ [CHR 0x27] @ '' or '' @
                [CHR 0x27] @ ''1.3'' @ [CHR 0x27] @ '', got: '' @ minTlsVersion)
      else Inr \<lparr>tc_targetUrl = targetUrl, tc_clientCertPath = clientCertPath, tc_clientKeyPath = clientKeyPath,
                tc_caPath = caPath, tc_minTlsVersion = minTlsVersion, tc_cipherSuites = cipherSuites\<rparr>)"

section \<open>ConnectionRetryPolicy\<close>

record retry_policy =
  rt_maxRetries :: u32
  rt_baseDelayMs :: u32
  rt_maxDelayMs :: u32
  rt_attempt :: u32

definition shouldRetry :: "retry_policy \<Rightarrow> bool" where
  "shouldRetry p \<longleftrightarrow> rt_attempt p < rt_maxRetries p"

text \<open>Shifting a 64-bit value by 64 or more is undefined behaviour: \<open>None\<close>.\<close>

definition rawDelay :: "retry_policy \<Rightarrow> u64 option" where
  "rawDelay p =
     (if unat (rt_attempt p) \<ge> 64 then None
      else let raw = push_bit (unat (rt_attempt p)) (ucast (rt_baseDelayMs p) :: u64);
               clamped = min raw (ucast (rt_maxDelayMs p))
           in Some clamped)"

definition nextDelay :: "rat \<Rightarrow> retry_policy \<Rightarrow> (u64 \<times> retry_policy) option" where
  "nextDelay jitter p =
     (case rawDelay p of
        None \<Rightarrow> None
      | Some clamped \<Rightarrow>
          Some (word_of_int \<lfloor>dmul (double_of_u64 clamped) jitter\<rfloor>, p\<lparr>rt_attempt := rt_attempt p + 1\<rparr>))"

definition retry_reset :: "retry_policy \<Rightarrow> retry_policy" where
  "retry_reset p = p\<lparr>rt_attempt := 0\<rparr>"

section \<open>DirectMQClient\<close>

record directmq_result =
  dr_ok :: bool
  dr_ackStatus :: u32
  dr_errorMessage :: string

definition directmq_result_init :: directmq_result where
  "directmq_result_init = \<lparr>dr_ok = False, dr_ackStatus = 0, dr_errorMessage = []\<rparr>"

record directmq_client =
  dm_config :: tls_config
  dm_retryPolicy :: retry_policy
  dm_sslCtx :: "nat option"
  dm_ssl :: "nat option"
  dm_socketFd :: int
  dm_connected :: bool

definition new_client :: "tls_config \<Rightarrow> retry_policy \<Rightarrow> directmq_client" where
  "new_client config policy = \<lparr>dm_config = config, dm_retryPolicy = policy, dm_sslCtx = None,
     dm_ssl = None, dm_socketFd = - 1, dm_connected = False\<rparr>"

definition initializeSslContext :: "directmq_client \<Rightarrow> directmq_result \<times> directmq_client" where
  "initializeSslContext c = (directmq_result_init\<lparr>dr_ok := True\<rparr>, c)"

definition performConnect :: "directmq_client \<Rightarrow> directmq_result \<times> directmq_client" where
  "performConnect c =
     (let (ctxResult, c) = initializeSslContext c
      in if \<not> dr_ok ctxResult then (ctxResult, c)
         else (directmq_result_init\<lparr>dr_ok := True\<rparr>, c\<lparr>dm_connected := True\<rparr>))"

lemma nextDelay_attempt:
  "nextDelay j p = Some (d, p') \<Longrightarrow>
     rt_attempt p' = rt_attempt p + 1 \<and> rt_maxRetries p' = rt_maxRetries p \<and>
     rt_baseDelayMs p' = rt_baseDelayMs p \<and> rt_maxDelayMs p' = rt_maxDelayMs p"
  by (auto simp: nextDelay_def split: option.splits)

lemma unat_attempt_next: "a < (m :: u32) \<Longrightarrow> unat (a + 1) = Suc (unat a)"
proof -
  assume "a < m"
  then have "unat a < 2 ^ 32 - 1" using unat_lt_2_32 [of m] by (simp add: word_less_nat_alt)
  then show ?thesis by (simp add: unat_word_ariths)
qed

text \<open>The retry loop of \<open>connect\<close>, for any connection attempt \<open>perform\<close>; \<open>jitter k\<close> is the
  factor drawn before the \<open>k\<close>-th retry and the list collects the delays slept.  The result is
  \<open>None\<close> when a delay's shift is undefined.\<close>

function connect_loop ::
  "(directmq_client \<Rightarrow> directmq_result \<times> directmq_client) \<Rightarrow> (u32 \<Rightarrow> rat) \<Rightarrow> directmq_client \<Rightarrow>
     directmq_result \<Rightarrow> u64 list \<Rightarrow> (directmq_result \<times> directmq_client \<times> u64 list) option" where
  "connect_loop perform jitter c result slept =
     (if \<not> shouldRetry (dm_retryPolicy c)
      then Some (result\<lparr>dr_errorMessage :=
             ''DirectMQClient::connect: all retry attempts exhausted connecting to '' @
             tc_targetUrl (dm_config c)\<rparr>, c, slept)
      else case nextDelay (jitter (rt_attempt (dm_retryPolicy c))) (dm_retryPolicy c) of
             None \<Rightarrow> None
           | Some (delay, policy) \<Rightarrow>
               (let (result, c') = perform (c\<lparr>dm_retryPolicy := policy\<rparr>)
                in if dr_ok result then Some (result, c'\<lparr>dm_retryPolicy := policy\<rparr>, slept @ [delay])
                   else connect_loop perform jitter (c'\<lparr>dm_retryPolicy := policy\<rparr>) result (slept @ [delay])))"
  by pat_completeness auto

termination
proof (relation "measure (\<lambda>(perform, j, c, r, s).
    unat (rt_maxRetries (dm_retryPolicy c)) - unat (rt_attempt (dm_retryPolicy c)))", goal_cases)
  case (2 perform jitter c result slept x2 delay policy x result' c')
  then have lt: "rt_attempt (dm_retryPolicy c) < rt_maxRetries (dm_retryPolicy c)"
    and n: "rt_attempt policy = rt_attempt (dm_retryPolicy c) + 1" "rt_maxRetries policy = rt_maxRetries (dm_retryPolicy c)"
    using nextDelay_attempt by (auto simp: shouldRetry_def)
  then show ?case using unat_attempt_next [OF lt] by (simp add: word_less_nat_alt)
qed simp

declare connect_loop.simps [simp del]

definition connect_with ::
  "(directmq_client \<Rightarrow> directmq_result \<times> directmq_client) \<Rightarrow> (u32 \<Rightarrow> rat) \<Rightarrow> directmq_client \<Rightarrow>
     (directmq_result \<times> directmq_client \<times> u64 list) option" where
  "connect_with perform jitter c =
     (if dm_connected c then Some (directmq_result_init\<lparr>dr_ok := True\<rparr>, c, [])
      else let (result, c) = perform (c\<lparr>dm_retryPolicy := retry_reset (dm_retryPolicy c)\<rparr>)
           in if dr_ok result then Some (result, c, []) else connect_loop perform jitter c result [])"

definition client_connect ::
  "(u32 \<Rightarrow> rat) \<Rightarrow> directmq_client \<Rightarrow> (directmq_result \<times> directmq_client \<times> u64 list) option" where
  "client_connect = connect_with performConnect"

text \<open>\<open>Inl\<close> is the exception that framing an oversized payload throws through \<open>sendMessage\<close>.\<close>

definition sendMessage :: "directmq_client \<Rightarrow> bytes \<Rightarrow> string + directmq_result" where
  "sendMessage c payload =
     (if \<not> dm_connected c
      then Inr (directmq_result_init\<lparr>dr_errorMessage := ''DirectMQClient::sendMessage: not connected (TLS required)''\<rparr>)
      else case frameMessage payload of
             Inl e \<Rightarrow> Inl e
           | Inr frame \<Rightarrow> Inr (directmq_result_init\<lparr>dr_ok := True\<rparr>))"

definition receiveAck :: "directmq_client \<Rightarrow> directmq_result" where
  "receiveAck c =
     (if \<not> dm_connected c
      then directmq_result_init\<lparr>dr_errorMessage := ''DirectMQClient::receiveAck: not connected (TLS required)''\<rparr>
      else directmq_result_init\<lparr>dr_ok := True\<rparr>)"

definition client_disconnect :: "directmq_client \<Rightarrow> directmq_client" where
  "client_disconnect c =
     (if \<not> dm_connected c \<and> dm_ssl c = None \<and> dm_sslCtx c = None then c
      else c\<lparr>dm_ssl := None, dm_sslCtx := None, dm_socketFd := - 1, dm_connected := False\<rparr>)"

text \<open>Move construction and assignment: the new client and what is left of the other.\<close>

definition moved_from :: "directmq_client \<Rightarrow> directmq_client" where
  "moved_from other = other\<lparr>dm_sslCtx := None, dm_ssl := None, dm_socketFd := - 1, dm_connected := False\<rparr>"

definition client_move :: "directmq_client \<Rightarrow> directmq_client \<times> directmq_client" where
  "client_move other = (other, moved_from other)"

definition client_move_assign :: "directmq_client \<Rightarrow> directmq_client \<Rightarrow> directmq_client \<times> directmq_client" where
  "client_move_assign self other =
     (let self = client_disconnect self
      in (self\<lparr>dm_config := dm_config other, dm_retryPolicy := dm_retryPolicy other, dm_sslCtx := dm_sslCtx other,
               dm_ssl := dm_ssl other, dm_socketFd := dm_socketFd other, dm_connected := dm_connected other\<rparr>,
          moved_from other))"

section \<open>Backoff\<close>

lemma unat_min: "unat (min a b) = min (unat a) (unat b)"
  by (simp add: min_def word_le_nat_alt)

lemma unat_ucast_u64 [simp]: "unat (ucast (w :: u32) :: u64) = unat w"
  by (simp add: unsigned_ucast_eq take_bit_nat_eq_self unat_lt_2_32 [THEN less_trans])

lemma rawDelay_eq:
  assumes "unat (rt_attempt p) \<le> 32"
  obtains r where "rawDelay p = Some r"
    "unat r = min (unat (rt_baseDelayMs p) * 2 ^ unat (rt_attempt p)) (unat (rt_maxDelayMs p))"
proof -
  let ?n = "unat (rt_attempt p)" and ?b = "unat (rt_baseDelayMs p)"
  have "?b * 2 ^ ?n < 2 ^ 32 * 2 ^ 32"
    using unat_lt_2_32 [of "rt_baseDelayMs p"] power_increasing [OF assms, of "2 :: nat"]
    by (intro mult_less_le_imp_less) simp_all
  then have "unat (push_bit ?n (ucast (rt_baseDelayMs p) :: u64)) = ?b * 2 ^ ?n"
    unfolding unsigned_push_bit_eq by (simp add: push_bit_eq_mult take_bit_nat_eq_self)
  then show ?thesis using assms that by (simp add: rawDelay_def unat_min)
qed

lemma jitter_bounds:
  assumes "1 / 2 \<le> j" and "j \<le> 3 / 2" and "n < 2 ^ 32"
  shows "int n div 2 \<le> \<lfloor>dmul (of_nat n) j\<rfloor>" and "\<lfloor>dmul (of_nat n) j\<rfloor> \<le> 3 * int n div 2"
proof -
  have half: "rnd (of_int k / 2) = of_int k / 2" if "\<bar>k\<bar> \<le> 2 ^ 53" for k
    using rnd_exact [OF that, of "- 1"] by (simp add: power_int_minus)
  have b: "\<bar>int n\<bar> \<le> 2 ^ 53" "\<bar>3 * int n\<bar> \<le> 2 ^ 53" using assms(3) by simp_all
  have "of_int (int n) / 2 \<le> of_nat n * j" using assms(1) by (simp add: mult_left_mono [of "1 / 2" j "of_nat n", simplified])
  from rnd_mono [OF this] have lo: "of_int (int n) / 2 \<le> dmul (of_nat n) j"
    unfolding half [OF b(1)] dmul_def .
  have "of_nat n * j \<le> of_int (3 * int n) / 2"
    using mult_left_mono [OF assms(2), of "of_nat n"] by simp
  from rnd_mono [OF this] have hi: "dmul (of_nat n) j \<le> of_int (3 * int n) / 2"
    unfolding half [OF b(2)] dmul_def .
  show "int n div 2 \<le> \<lfloor>dmul (of_nat n) j\<rfloor>" using floor_mono [OF lo] floor_divide_of_int_eq [where 'a = rat, of "int n" 2] by simp
  show "\<lfloor>dmul (of_nat n) j\<rfloor> \<le> 3 * int n div 2"
    using floor_mono [OF hi] floor_divide_of_int_eq [where 'a = rat, of "3 * int n" 2] by simp
qed

section \<open>Connecting\<close>

text \<open>A connection attempt whose outcome is scripted by the attempt number.\<close>

definition scripted :: "(nat \<Rightarrow> directmq_result) \<Rightarrow> directmq_client \<Rightarrow> directmq_result \<times> directmq_client" where
  "scripted outs c = (let r = outs (unat (rt_attempt (dm_retryPolicy c)))
     in (r, if dr_ok r then c\<lparr>dm_connected := True\<rparr> else c))"

lemma nextDelay_total: "unat (rt_attempt p) < 64 \<Longrightarrow> \<exists>d. nextDelay j p = Some (d, p\<lparr>rt_attempt := rt_attempt p + 1\<rparr>)"
  by (simp add: nextDelay_def rawDelay_def Let_def)

lemma connect_loop_success:
  assumes "unat (rt_maxRetries (dm_retryPolicy c)) \<le> 64" and "unat (rt_attempt (dm_retryPolicy c)) < k"
    and "k \<le> unat (rt_maxRetries (dm_retryPolicy c))" and "dr_ok (outs k)" and "\<forall>i < k. \<not> dr_ok (outs i)"
  shows "\<exists>c' s. connect_loop (scripted outs) j c r slept = Some (outs k, c', s) \<and> dm_connected c' \<and>
           length s = length slept + (k - unat (rt_attempt (dm_retryPolicy c)))"
  using assms
proof (induction "k - unat (rt_attempt (dm_retryPolicy c))" arbitrary: c r slept)
  case 0
  then show ?case by simp
next
  case (Suc n)
  let ?p = "dm_retryPolicy c" and ?a = "rt_attempt (dm_retryPolicy c)"
  have lt: "unat ?a < 64" using Suc.prems(1-3) by linarith
  have sr: "shouldRetry ?p" using Suc.prems by (simp add: shouldRetry_def word_less_nat_alt)
  obtain d where d: "nextDelay (j ?a) ?p = Some (d, ?p\<lparr>rt_attempt := ?a + 1\<rparr>)"
    using nextDelay_total [of ?p "j ?a"] lt by auto
  have a1: "unat (?a + 1) = Suc (unat ?a)" using sr unat_attempt_next by (simp add: shouldRetry_def)
  let ?p1 = "?p\<lparr>rt_attempt := ?a + 1\<rparr>" and ?o = "outs (Suc (unat ?a))"
  have unfold: "connect_loop (scripted outs) j c r slept =
      (if dr_ok ?o then Some (?o, c\<lparr>dm_retryPolicy := ?p1, dm_connected := True\<rparr>, slept @ [d])
       else connect_loop (scripted outs) j (c\<lparr>dm_retryPolicy := ?p1\<rparr>) ?o (slept @ [d]))"
    by (subst connect_loop.simps) (simp add: sr d scripted_def a1 Let_def)
  show ?case
  proof (cases "k = Suc (unat ?a)")
    case True
    with unfold Suc.prems(4) show ?thesis by simp
  next
    case False
    then have no: "\<not> dr_ok ?o" using Suc.prems(2,5) by auto
    have "\<exists>c' s. connect_loop (scripted outs) j (c\<lparr>dm_retryPolicy := ?p1\<rparr>) ?o (slept @ [d]) = Some (outs k, c', s) \<and>
        dm_connected c' \<and> length s = length (slept @ [d]) + (k - unat (rt_attempt (dm_retryPolicy (c\<lparr>dm_retryPolicy := ?p1\<rparr>))))"
      by (rule Suc.hyps(1)) (use Suc.hyps(2) Suc.prems False a1 in auto)
    with no unfold a1 Suc.prems(2) False show ?thesis by auto
  qed
qed

lemma connect_loop_failure:
  assumes "unat (rt_maxRetries (dm_retryPolicy c)) \<le> 64"
    and "unat (rt_attempt (dm_retryPolicy c)) \<le> unat (rt_maxRetries (dm_retryPolicy c))"
    and "\<forall>i \<le> unat (rt_maxRetries (dm_retryPolicy c)). \<not> dr_ok (outs i)" and "\<not> dr_ok r" and "\<not> dm_connected c"
  shows "\<exists>r' c' s. connect_loop (scripted outs) j c r slept = Some (r', c', s) \<and> \<not> dr_ok r' \<and> \<not> dm_connected c' \<and>
           length s = length slept + (unat (rt_maxRetries (dm_retryPolicy c)) - unat (rt_attempt (dm_retryPolicy c))) \<and>
           dr_errorMessage r' = ''DirectMQClient::connect: all retry attempts exhausted connecting to '' @
             tc_targetUrl (dm_config c)"
  using assms
proof (induction "unat (rt_maxRetries (dm_retryPolicy c)) - unat (rt_attempt (dm_retryPolicy c))" arbitrary: c r slept)
  case 0
  then have "\<not> shouldRetry (dm_retryPolicy c)" by (simp add: shouldRetry_def word_less_nat_alt)
  then show ?case using 0 by (subst connect_loop.simps) simp
next
  case (Suc n)
  let ?p = "dm_retryPolicy c" and ?a = "rt_attempt (dm_retryPolicy c)"
  have lt: "unat ?a < 64" using Suc.prems(1) Suc.hyps(2) by linarith
  have sr: "shouldRetry ?p" using Suc.hyps(2) by (simp add: shouldRetry_def word_less_nat_alt)
  obtain d where d: "nextDelay (j ?a) ?p = Some (d, ?p\<lparr>rt_attempt := ?a + 1\<rparr>)"
    using nextDelay_total [of ?p "j ?a"] lt by auto
  have a1: "unat (?a + 1) = Suc (unat ?a)" using sr unat_attempt_next by (simp add: shouldRetry_def)
  let ?p1 = "?p\<lparr>rt_attempt := ?a + 1\<rparr>" and ?o = "outs (Suc (unat ?a))"
  let ?c1 = "c\<lparr>dm_retryPolicy := ?p1\<rparr>"
  have no: "\<not> dr_ok ?o" using Suc.prems(3) Suc.hyps(2) by simp
  have unfold: "connect_loop (scripted outs) j c r slept = connect_loop (scripted outs) j ?c1 ?o (slept @ [d])"
    by (subst connect_loop.simps) (simp add: sr d scripted_def a1 Let_def no)
  have "\<exists>r' c' s. connect_loop (scripted outs) j ?c1 ?o (slept @ [d]) = Some (r', c', s) \<and> \<not> dr_ok r' \<and> \<not> dm_connected c' \<and>
      length s = length (slept @ [d]) + (unat (rt_maxRetries (dm_retryPolicy ?c1)) - unat (rt_attempt (dm_retryPolicy ?c1))) \<and>
      dr_errorMessage r' = ''DirectMQClient::connect: all retry attempts exhausted connecting to '' @
        tc_targetUrl (dm_config ?c1)"
    by (rule Suc.hyps(1)) (use Suc.hyps(2) Suc.prems no a1 in auto)
  then show ?case unfolding unfold using a1 Suc.hyps(2) by auto
qed

section \<open>Properties\<close>

text \<open>C28. Backoff: up to attempt 32 the raw delay is \<open>min(base * 2^attempt, max)\<close> computed without
  overflow, for every base and maximum; with a jitter factor in \<open>[0.5, 1.5]\<close> the delay slept lies
  between half and one and a half times the raw delay (in whole milliseconds, the \<open>double\<close>
  multiplication included), and the attempt counter advances by one.\<close>

theorem backoff_bounds:
  assumes "unat (rt_attempt p) \<le> 32" and "1 / 2 \<le> j" and "j \<le> 3 / 2"
  shows "\<exists>r d. rawDelay p = Some r \<and>
           unat r = min (unat (rt_baseDelayMs p) * 2 ^ unat (rt_attempt p)) (unat (rt_maxDelayMs p)) \<and>
           nextDelay j p = Some (d, p\<lparr>rt_attempt := rt_attempt p + 1\<rparr>) \<and>
           unat r div 2 \<le> unat d \<and> unat d \<le> 3 * unat r div 2"
proof -
  obtain r where r: "rawDelay p = Some r"
    "unat r = min (unat (rt_baseDelayMs p) * 2 ^ unat (rt_attempt p)) (unat (rt_maxDelayMs p))"
    by (rule rawDelay_eq [OF assms(1)])
  define n where "n = unat r"
  have n: "n < 2 ^ 32" unfolding n_def r(2) using unat_lt_2_32 [of "rt_maxDelayMs p"] by (simp add: min.strict_coboundedI2)
  have dbl: "double_of_u64 r = of_nat n" unfolding double_of_u64_def n_def [symmetric] by (rule rnd_nat) (use n in simp)
  define f where "f = \<lfloor>dmul (of_nat n) j\<rfloor>"
  note f = jitter_bounds [OF assms(2,3) n, folded f_def]
  have "0 \<le> f" using f(1) by linarith
  have "f < 2 ^ 64" using f(2) n by simp
  then have d: "int (unat (word_of_int f :: u64)) = f"
    using \<open>0 \<le> f\<close> by (simp add: uint_word_of_int_eq take_bit_int_eq_self)
  have nd: "nextDelay j p = Some (word_of_int f, p\<lparr>rt_attempt := rt_attempt p + 1\<rparr>)"
    by (simp add: nextDelay_def r(1) dbl f_def)
  have "int (n div 2) \<le> int (unat (word_of_int f :: u64))" "int (unat (word_of_int f :: u64)) \<le> int (3 * n div 2)"
    unfolding d using f by simp_all
  then have "n div 2 \<le> unat (word_of_int f :: u64)" "unat (word_of_int f :: u64) \<le> 3 * n div 2"
    by (simp_all only: of_nat_le_iff)
  with r nd show ?thesis unfolding n_def by blast
qed

lemma backoff_bounds_witness:
  "\<exists>d. nextDelay (3 / 2) \<lparr>rt_maxRetries = 5, rt_baseDelayMs = 100, rt_maxDelayMs = 30000, rt_attempt = 3\<rparr> =
     Some (d, \<lparr>rt_maxRetries = 5, rt_baseDelayMs = 100, rt_maxDelayMs = 30000, rt_attempt = 4\<rparr>) \<and>
     400 \<le> unat d \<and> unat d \<le> 1200"
proof -
  let ?p = "\<lparr>rt_maxRetries = 5, rt_baseDelayMs = 100, rt_maxDelayMs = 30000, rt_attempt = 3\<rparr>"
  have "unat (rt_attempt ?p) \<le> 32" "(1 :: rat) / 2 \<le> 3 / 2" "(3 :: rat) / 2 \<le> 3 / 2" by simp_all
  from backoff_bounds [OF this] show ?thesis by auto
qed

text \<open>C29. Connecting retries at most \<open>maxRetries\<close> times: if some attempt among the first
  \<open>maxRetries + 1\<close> succeeds, \<open>connect\<close> returns the result of the first one that does, connected,
  after as many sleeps as there were failures; if all fail it returns an error naming the target
  after exactly \<open>maxRetries\<close> sleeps and is not connected.\<close>

theorem connect_retries:
  assumes "\<not> dm_connected c" and "unat (rt_maxRetries (dm_retryPolicy c)) \<le> 64"
  shows "case find (\<lambda>k. dr_ok (outs k)) [0..<Suc (unat (rt_maxRetries (dm_retryPolicy c)))] of
           Some k \<Rightarrow> \<exists>c' s. connect_with (scripted outs) j c = Some (outs k, c', s) \<and> dm_connected c' \<and> length s = k
         | None \<Rightarrow> \<exists>r c' s. connect_with (scripted outs) j c = Some (r, c', s) \<and> \<not> dr_ok r \<and> \<not> dm_connected c' \<and>
             length s = unat (rt_maxRetries (dm_retryPolicy c)) \<and>
             dr_errorMessage r = ''DirectMQClient::connect: all retry attempts exhausted connecting to '' @
               tc_targetUrl (dm_config c)"
proof -
  let ?m = "unat (rt_maxRetries (dm_retryPolicy c))"
  let ?c0 = "c\<lparr>dm_retryPolicy := retry_reset (dm_retryPolicy c)\<rparr>"
  have p0: "rt_attempt (retry_reset (dm_retryPolicy c)) = 0"
    "rt_maxRetries (retry_reset (dm_retryPolicy c)) = rt_maxRetries (dm_retryPolicy c)"
    by (simp_all add: retry_reset_def)
  have w: "connect_with (scripted outs) j c =
      (if dr_ok (outs 0) then Some (outs 0, ?c0\<lparr>dm_connected := True\<rparr>, [])
       else connect_loop (scripted outs) j ?c0 (outs 0) [])"
    using assms(1) by (simp add: connect_with_def scripted_def retry_reset_def Let_def)
  show ?thesis
  proof (cases "find (\<lambda>k. dr_ok (outs k)) [0..<Suc ?m]")
    case None
    then have no: "\<forall>i \<le> ?m. \<not> dr_ok (outs i)" by (simp add: find_None_iff del: upt_Suc)
    have "\<exists>r c' s. connect_loop (scripted outs) j ?c0 (outs 0) [] = Some (r, c', s) \<and> \<not> dr_ok r \<and> \<not> dm_connected c' \<and>
        length s = length ([] :: u64 list) + (unat (rt_maxRetries (dm_retryPolicy ?c0)) - unat (rt_attempt (dm_retryPolicy ?c0))) \<and>
        dr_errorMessage r = ''DirectMQClient::connect: all retry attempts exhausted connecting to '' @
          tc_targetUrl (dm_config ?c0)"
      by (rule connect_loop_failure) (use assms no p0 in auto)
    with None no w show ?thesis by (simp add: p0 del: upt_Suc)
  next
    case (Some k)
    then have k: "k \<le> ?m" "dr_ok (outs k)" "\<forall>i < k. \<not> dr_ok (outs i)"
      by (auto simp: find_Some_iff simp del: upt_Suc)
    show ?thesis
    proof (cases "k = 0")
      case True
      with Some k w show ?thesis by (simp del: upt_Suc)
    next
      case False
      have "\<exists>c' s. connect_loop (scripted outs) j ?c0 (outs 0) [] = Some (outs k, c', s) \<and> dm_connected c' \<and>
          length s = length ([] :: u64 list) + (k - unat (rt_attempt (dm_retryPolicy ?c0)))"
        by (rule connect_loop_success) (use assms False k p0 in auto)
      with Some k w False show ?thesis by (simp add: p0 del: upt_Suc)
    qed
  qed
qed

lemma connect_retries_witness:
  "let c = new_client \<lparr>tc_targetUrl = ''u'', tc_clientCertPath = ''c'', tc_clientKeyPath = ''k'', tc_caPath = ''a'',
             tc_minTlsVersion = ''1.2'', tc_cipherSuites = []\<rparr>
           \<lparr>rt_maxRetries = 3, rt_baseDelayMs = 100, rt_maxDelayMs = 30000, rt_attempt = 0\<rparr>;
       outs = (\<lambda>k. directmq_result_init\<lparr>dr_ok := (k = 2)\<rparr>)
   in \<exists>c' s. connect_with (scripted outs) (\<lambda>_. 1) c = Some (outs 2, c', s) \<and> dm_connected c' \<and> length s = 2"
proof -
  let ?c = "new_client \<lparr>tc_targetUrl = ''u'', tc_clientCertPath = ''c'', tc_clientKeyPath = ''k'', tc_caPath = ''a'',
             tc_minTlsVersion = ''1.2'', tc_cipherSuites = []\<rparr>
           \<lparr>rt_maxRetries = 3, rt_baseDelayMs = 100, rt_maxDelayMs = 30000, rt_attempt = 0\<rparr>"
  let ?outs = "\<lambda>k. directmq_result_init\<lparr>dr_ok := (k = 2)\<rparr>"
  have c: "\<not> dm_connected ?c" "unat (rt_maxRetries (dm_retryPolicy ?c)) \<le> 64" by (simp_all add: new_client_def)
  have f: "find (\<lambda>k. dr_ok (?outs k)) [0..<Suc (unat (rt_maxRetries (dm_retryPolicy ?c)))] = Some 2"
  proof -
    have m: "unat (rt_maxRetries (dm_retryPolicy ?c)) = 3" by (simp add: new_client_def)
    have u: "[0..<Suc 3] = [0, 1, 2, 3]" by (simp add: upt_rec)
    show ?thesis unfolding m u by (simp add: directmq_result_init_def)
  qed
  from connect_retries [OF c, of ?outs "\<lambda>_. 1"] show ?thesis unfolding f by (simp add: Let_def)
qed

text \<open>Past attempt 32 the 64-bit shift does overflow: with the default base the delay of attempt 62
  is 0 milliseconds, and the shift of attempt 64 is undefined.\<close>

lemma backoff_overflow:
  "rawDelay \<lparr>rt_maxRetries = 100, rt_baseDelayMs = 100, rt_maxDelayMs = 30000, rt_attempt = 62\<rparr> = Some 0 \<and>
   rawDelay \<lparr>rt_maxRetries = 100, rt_baseDelayMs = 100, rt_maxDelayMs = 30000, rt_attempt = 64\<rparr> = None"
  by (simp add: rawDelay_def)

text \<open>With the calls to OpenSSL commented out, connecting succeeds at once and opens nothing.\<close>

lemma client_connect_opens_nothing:
  "\<not> dm_connected c \<Longrightarrow> \<exists>c'. client_connect j c = Some (directmq_result_init\<lparr>dr_ok := True\<rparr>, c', []) \<and>
     dm_connected c' \<and> dm_ssl c' = dm_ssl c \<and> dm_sslCtx c' = dm_sslCtx c \<and> dm_socketFd c' = dm_socketFd c"
  by (simp add: client_connect_def connect_with_def performConnect_def initializeSslContext_def
      directmq_result_init_def Let_def)

end
