(* ===== verification/Rest_Replication.thy ===== *)
theory Rest_Replication
  imports Doubles
begin

text \<open>
  The REST surface of replication (\<^verbatim>\<open>RestReplicationHandler.ipp\<close>) and the templates
  behind it: the status builder, the paged feed and the checkpoint receiver
  (\<^verbatim>\<open>ReplicationStatusBuilder.ipp\<close>, \<^verbatim>\<open>ReplicationFeedStream.ipp\<close>,
  \<^verbatim>\<open>CheckpointReceiver.ipp\<close>).  They are templates over a tracker and a tailer; here the two are
  records of the member functions the templates call.  The locales state what the templates rely
  on and are interpreted on the tracker and tailer of
  \<^verbatim>\<open>tests/mocks/ReplicationMocks.h\<close>, the only types of the repository that have these
  members.  How a \<open>double\<close> is printed is an argument.
\<close>

section \<open>Tracker and tailer interfaces\<close>

record shard_state =
  ss_shardId :: string
  ss_lastGenerated :: u64
  ss_lastApplied :: u64
  ss_pendingCount :: u64

record replication_message =
  rm_shardId :: string
  rm_sequence :: u64
  rm_operation :: string
  rm_payload :: string

record 't tracker_ops =
  tk_getState :: "'t \<Rightarrow> string \<Rightarrow> shard_state"
  tk_getAllStates :: "'t \<Rightarrow> shard_state list"
  tk_updateApplied :: "'t \<Rightarrow> string \<Rightarrow> u64 \<Rightarrow> 't"
  tk_resetAll :: "'t \<Rightarrow> 't"
  tk_totalPending :: "'t \<Rightarrow> u64"

record 'l tailer_ops =
  ta_isRunning :: "'l \<Rightarrow> bool"
  ta_start :: "'l \<Rightarrow> 'l"
  ta_stop :: "'l \<Rightarrow> 'l"
  ta_nextBatch :: "'l \<Rightarrow> string \<Rightarrow> u64 \<Rightarrow> u32 \<Rightarrow> replication_message list"
  ta_messagesSent :: "'l \<Rightarrow> u64"
  ta_messagesAcked :: "'l \<Rightarrow> u64"

section \<open>CheckpointReceiverT\<close>

record receive_result =
  re_accepted :: bool
  re_reason :: string

definition receive :: "'t tracker_ops \<Rightarrow> 't \<Rightarrow> string \<Rightarrow> u64 \<Rightarrow> receive_result \<times> 't" where
  "receive tk t shardId appliedSequence =
     (let state = tk_getState tk t shardId
      in if ss_lastGenerated state = 0 \<and> ss_lastApplied state = 0
         then (\<lparr>re_accepted = False, re_reason = ''unknown shard: '' @ shardId\<rparr>, t)
         else if appliedSequence \<le> ss_lastApplied state
         then (\<lparr>re_accepted = False, re_reason = ''appliedSequence '' @ dec (unat appliedSequence) @
                 '' is not ahead of current lastApplied '' @ dec (unat (ss_lastApplied state)) @
                 '' for shard '' @ shardId\<rparr>, t)
         else if appliedSequence > ss_lastGenerated state
         then (\<lparr>re_accepted = False, re_reason = ''appliedSequence '' @ dec (unat appliedSequence) @
                 '' exceeds lastGenerated '' @ dec (unat (ss_lastGenerated state)) @
                 '' for shard '' @ shardId\<rparr>, t)
         else (\<lparr>re_accepted = True, re_reason = []\<rparr>, tk_updateApplied tk t shardId appliedSequence))"

section \<open>ReplicationFeedStreamT\<close>

text \<open>A page: the messages, whether there are more, and the sequence to continue from.\<close>

record feed_page =
  fp_messages :: "replication_message list"
  fp_hasMore :: bool
  fp_lastSequence :: u64

definition fetch_page :: "'l tailer_ops \<Rightarrow> 'l \<Rightarrow> string \<Rightarrow> u64 \<Rightarrow> u32 \<Rightarrow> feed_page" where
  "fetch_page ta l shardId afterSequence maxCount =
     (let messages = ta_nextBatch ta l shardId afterSequence (maxCount + 1);
          hasMore = length messages > unat maxCount;
          messages = (if hasMore then take (unat maxCount) messages else messages)
      in \<lparr>fp_messages = messages, fp_hasMore = hasMore,
          fp_lastSequence = foldl (\<lambda>lastSequence m. rm_sequence m) afterSequence messages\<rparr>)"

abbreviation (input) nl :: string where "nl \<equiv> ''\<newline>''"

definition json_bool :: "bool \<Rightarrow> string" where
  "json_bool b = (if b then ''true'' else ''false'')"

fun feed_messages :: "nat \<Rightarrow> replication_message list \<Rightarrow> string" where
  \<open>feed_messages i [] = []\<close>
| \<open>feed_messages i (m # ms) =
     (if i > 0 then '', '' else []) @ ''{\<newline>'' @
     ''    "shardId": "'' @ rm_shardId m @ ''",\<newline>'' @
     ''    "sequence": '' @ dec (unat (rm_sequence m)) @ '',\<newline>'' @
     ''    "operation": "'' @ rm_operation m @ ''",\<newline>'' @
     ''    "payload": "'' @ rm_payload m @ ''"\<newline>'' @
     ''  }'' @ feed_messages (Suc i) ms\<close>

definition render_page :: "feed_page \<Rightarrow> string" where
  \<open>render_page p = ''{\<newline>  "messages": ['' @ feed_messages 0 (fp_messages p) @ ''],\<newline>'' @
     ''  "hasMore": '' @ json_bool (fp_hasMore p) @ '',\<newline>'' @
     ''  "lastSequence": '' @ dec (unat (fp_lastSequence p)) @ ''\<newline>}''\<close>

definition fetch :: "'l tailer_ops \<Rightarrow> 'l \<Rightarrow> string \<Rightarrow> u64 \<Rightarrow> u32 \<Rightarrow> string" where
  "fetch ta l shardId afterSequence maxCount = render_page (fetch_page ta l shardId afterSequence maxCount)"

section \<open>ReplicationStatusBuilderT\<close>

definition estimateLagSeconds :: "u64 \<Rightarrow> u64 \<Rightarrow> u64 \<Rightarrow> rat" where
  "estimateLagSeconds maxPending messagesSent messagesAcked =
     (if maxPending = 0 then 0
      else if messagesAcked = 0 \<or> messagesSent = 0 then double_of_u64 maxPending
      else let ratio = ddiv (double_of_u64 messagesSent) (double_of_u64 messagesAcked)
           in dmul (double_of_u64 maxPending) ratio)"

fun status_shards :: "nat \<Rightarrow> shard_state list \<Rightarrow> string" where
  \<open>status_shards i [] = []\<close>
| \<open>status_shards i (s # ss) =
     (if i > 0 then '', '' else []) @ ''{\<newline>'' @
     ''    "shardId": "'' @ ss_shardId s @ ''",\<newline>'' @
     ''    "lastGenerated": '' @ dec (unat (ss_lastGenerated s)) @ '',\<newline>'' @
     ''    "lastApplied": '' @ dec (unat (ss_lastApplied s)) @ '',\<newline>'' @
     ''    "pending": '' @ dec (unat (ss_pendingCount s)) @ ''\<newline>'' @
     ''  }'' @ status_shards (Suc i) ss\<close>

definition status_build ::
  "(rat \<Rightarrow> string) \<Rightarrow> 't tracker_ops \<Rightarrow> 'l tailer_ops \<Rightarrow> 't \<Rightarrow> 'l \<Rightarrow> string" where
  \<open>status_build show_double tk ta t l =
     (let states = tk_getAllStates tk t;
          totalPending = tk_totalPending tk t;
          sent = ta_messagesSent ta l;
          acked = ta_messagesAcked ta l;
          running = ta_isRunning ta l;
          maxPending = foldl (\<lambda>m s. max m (ss_pendingCount s)) 0 states;
          lag = estimateLagSeconds maxPending sent acked
      in ''{\<newline>'' @
         ''  "isRunning": '' @ json_bool running @ '',\<newline>'' @
         ''  "lagSeconds": '' @ show_double lag @ '',\<newline>'' @
         ''  "totalMessagesSent": '' @ dec (unat sent) @ '',\<newline>'' @
         ''  "totalMessagesAcked": '' @ dec (unat acked) @ '',\<newline>'' @
         ''  "totalPending": '' @ dec (unat totalPending) @ '',\<newline>'' @
         ''  "shardStates": ['' @ status_shards 0 states @ '']\<newline>}'')\<close>

section \<open>RestReplicationHandlerT\<close>

datatype replication_route = STATUS | START | STOP | RESET | FEED | CHECKPOINT | UNKNOWN

definition repl_parseRoute :: "string \<Rightarrow> replication_route" where
  "repl_parseRoute path =
     (if path = ''status'' then STATUS else if path = ''start'' then START
      else if path = ''stop'' then STOP else if path = ''reset'' then RESET
      else if path = ''feed'' then FEED else if path = ''checkpoint'' then CHECKPOINT else UNKNOWN)"

definition repl_formatSuccess :: "string \<Rightarrow> string" where
  \<open>repl_formatSuccess resultJson =
     ''{\<newline>  "error": false,\<newline>  "code": 200,\<newline>  "result": '' @ resultJson @ ''\<newline>}''\<close>

definition repl_formatError :: "nat \<Rightarrow> string \<Rightarrow> string" where
  \<open>repl_formatError code message =
     ''{\<newline>  "error": true,\<newline>  "code": '' @ dec code @ '',\<newline>  "errorMessage": "'' @ message @ ''"\<newline>}''\<close>

definition executeStatus ::
  "(rat \<Rightarrow> string) \<Rightarrow> 't tracker_ops \<Rightarrow> 'l tailer_ops \<Rightarrow> 't \<Rightarrow> 'l \<Rightarrow> string" where
  "executeStatus show_double tk ta t l = repl_formatSuccess (status_build show_double tk ta t l)"

definition executeStart :: "'l tailer_ops \<Rightarrow> nat \<Rightarrow> 'l \<Rightarrow> string \<times> 'l" where
  \<open>executeStart ta epoch l =
     (if ta_isRunning ta l then (repl_formatError 409 ''replication is already running'', l)
      else (repl_formatSuccess (''{"started": true, "timestamp": '' @ dec epoch @ '', "previousState": "stopped"}''),
            ta_start ta l))\<close>

definition executeStop :: "'l tailer_ops \<Rightarrow> nat \<Rightarrow> 'l \<Rightarrow> string \<times> 'l" where
  \<open>executeStop ta epoch l =
     (if \<not> ta_isRunning ta l then (repl_formatError 409 ''replication is not running'', l)
      else (repl_formatSuccess (''{"stopped": true, "timestamp": '' @ dec epoch @ '', "previousState": "running"}''),
            ta_stop ta l))\<close>

definition executeReset :: "'t tracker_ops \<Rightarrow> 't \<Rightarrow> string \<times> 't" where
  \<open>executeReset tk t =
     (let count = (of_nat (length (tk_getAllStates tk t)) :: u32)
      in (repl_formatSuccess (''{"reset": true, "shardsReset": '' @ dec (unat count) @ ''}''), tk_resetAll tk t))\<close>

definition clampMaxCount :: "u32 \<Rightarrow> u32" where
  "clampMaxCount maxCount =
     (let maxCount = (if maxCount = 0 then 1000 else maxCount)
      in if maxCount > 10000 then 10000 else maxCount)"

definition executeFeed :: "'l tailer_ops \<Rightarrow> 'l \<Rightarrow> string \<Rightarrow> u64 \<Rightarrow> u32 \<Rightarrow> string" where
  "executeFeed ta l shardId afterSequence maxCount =
     (if shardId = [] then repl_formatError 400 ''missing required parameter: shardId''
      else repl_formatSuccess (fetch ta l shardId afterSequence (clampMaxCount maxCount)))"

definition executeCheckpoint :: "'t tracker_ops \<Rightarrow> 't \<Rightarrow> string \<Rightarrow> u64 \<Rightarrow> string \<times> 't" where
  \<open>executeCheckpoint tk t shardId appliedSequence =
     (if shardId = [] then (repl_formatError 400 ''missing required field: shardId'', t)
      else if appliedSequence = 0 then (repl_formatError 400 ''appliedSequence must be greater than 0'', t)
      else let (result, t) = receive tk t shardId appliedSequence
           in if \<not> re_accepted result then (repl_formatError 409 (re_reason result), t)
              else (repl_formatSuccess (''{"acknowledged": true, "shardId": "'' @ shardId @
                      ''", "appliedSequence": '' @ dec (unat appliedSequence) @ ''}''), t))\<close>

text \<open>A sequence of checkpoint requests.\<close>

definition checkpoint_run :: "'t tracker_ops \<Rightarrow> 't \<Rightarrow> (string \<times> u64) list \<Rightarrow> 't" where
  "checkpoint_run tk t reqs = foldl (\<lambda>t (s, q). snd (executeCheckpoint tk t s q)) t reqs"

text \<open>A client that follows \<open>lastSequence\<close> as long as \<open>hasMore\<close>, for at most \<open>fuel\<close> further pages.\<close>

fun read_all :: "'l tailer_ops \<Rightarrow> 'l \<Rightarrow> string \<Rightarrow> u32 \<Rightarrow> u64 \<Rightarrow> nat \<Rightarrow> replication_message list" where
  "read_all ta l s n a 0 = fp_messages (fetch_page ta l s a n)"
| "read_all ta l s n a (Suc fuel) =
     (let p = fetch_page ta l s a n
      in fp_messages p @ (if fp_hasMore p then read_all ta l s n (fp_lastSequence p) fuel else []))"

section \<open>The tracker's contract\<close>

locale rest_tracker =
  fixes tk :: "'t tracker_ops"
  assumes update_same:
    "ss_lastGenerated (tk_getState tk t s) \<noteq> 0 \<or> ss_lastApplied (tk_getState tk t s) \<noteq> 0 \<Longrightarrow>
       ss_lastApplied (tk_getState tk (tk_updateApplied tk t s q) s) = q \<and>
       ss_lastGenerated (tk_getState tk (tk_updateApplied tk t s q) s) = ss_lastGenerated (tk_getState tk t s)"
    and update_other: "s' \<noteq> s \<Longrightarrow> tk_getState tk (tk_updateApplied tk t s q) s' = tk_getState tk t s'"
begin

abbreviation applied where "applied t s \<equiv> ss_lastApplied (tk_getState tk t s)"
abbreviation generated where "generated t s \<equiv> ss_lastGenerated (tk_getState tk t s)"

text \<open>One checkpoint request: the numbers of its shard move exactly when the report is ahead of what
  is applied and not ahead of what was generated.\<close>

lemma checkpoint_effect:
  fixes q :: u64 and s' :: string
  assumes "applied t s \<le> generated t s"
  defines "t' \<equiv> snd (executeCheckpoint tk t s' q)"
  shows "generated t' s = generated t s"
    and "applied t' s = (if s' = s \<and> s \<noteq> [] \<and> q \<le> generated t s then max (applied t s) q else applied t s)"
proof -
  have out: "t' = (if s' \<noteq> [] \<and> q \<noteq> 0 \<and> (generated t s' \<noteq> 0 \<or> applied t s' \<noteq> 0) \<and>
      applied t s' < q \<and> q \<le> generated t s' then tk_updateApplied tk t s' q else t)"
    by (auto simp: t'_def executeCheckpoint_def receive_def Let_def not_less not_le)
  show "generated t' s = generated t s"
    using update_same [of t s q] update_other [of s s' t q] by (cases "s = s'") (auto simp: out)
  show "applied t' s = (if s' = s \<and> s \<noteq> [] \<and> q \<le> generated t s then max (applied t s) q else applied t s)"
  proof (cases "s = s'")
    case True
    show ?thesis
    proof (cases "applied t s < q \<and> q \<le> generated t s")
      case T: True
      then have "q \<noteq> 0" "generated t s \<noteq> 0" by auto
      with T True show ?thesis using update_same [of t s q] by (auto simp: out max_def)
    next
      case False
      with True show ?thesis by (auto simp: out max_def not_less)
    qed
  next
    case False
    then show ?thesis using update_other [OF False, of t q] by (auto simp: out)
  qed
qed

lemma checkpoint_run_max:
  assumes "applied t s \<le> generated t s" and "s \<noteq> []"
  shows "generated (checkpoint_run tk t reqs) s = generated t s \<and>
         applied (checkpoint_run tk t reqs) s = Max (insert (applied t s) {q. (s, q) \<in> set reqs \<and> q \<le> generated t s})"
proof (induction reqs rule: rev_induct)
  case Nil
  then show ?case by (simp add: checkpoint_run_def)
next
  case (snoc x reqs)
  obtain s' q where x: "x = (s', q)" by (cases x)
  let ?t = "checkpoint_run tk t reqs" and ?Q = "\<lambda>rs. {q. (s, q) \<in> set rs \<and> q \<le> generated t s}"
  have run: "checkpoint_run tk t (reqs @ [x]) = snd (executeCheckpoint tk ?t s' q)"
    by (simp add: checkpoint_run_def x)
  have fin: "finite (?Q rs)" for rs
    by (rule finite_subset [of _ "snd ` set rs"]) force+
  have le: "applied ?t s \<le> generated ?t s" using snoc assms(1) fin [of reqs] by auto
  note e = checkpoint_effect [OF le, of s' q, folded run]
  have Q: "insert (applied t s) (?Q (reqs @ [x])) =
      (if s' = s \<and> q \<le> generated t s then insert q (insert (applied t s) (?Q reqs)) else insert (applied t s) (?Q reqs))"
    by (auto simp: x)
  show ?case unfolding Q e using snoc assms(2) fin [of reqs] by (simp add: max.commute)
qed

end

subsection \<open>The tracker of the repository\<close>

type_synonym mock_tracker = "(string \<times> shard_state) list"

definition mock_addShard :: "mock_tracker \<Rightarrow> string \<Rightarrow> u64 \<Rightarrow> u64 \<Rightarrow> mock_tracker" where
  "mock_addShard t shardId generated applied = AList.update shardId
     \<lparr>ss_shardId = shardId, ss_lastGenerated = generated, ss_lastApplied = applied,
      ss_pendingCount = (if generated \<ge> applied then generated - applied else 0)\<rparr> t"

definition mock_getState :: "mock_tracker \<Rightarrow> string \<Rightarrow> shard_state" where
  "mock_getState t shardId = (case map_of t shardId of Some s \<Rightarrow> s
     | None \<Rightarrow> \<lparr>ss_shardId = [], ss_lastGenerated = 0, ss_lastApplied = 0, ss_pendingCount = 0\<rparr>)"

definition mock_updateApplied :: "mock_tracker \<Rightarrow> string \<Rightarrow> u64 \<Rightarrow> mock_tracker" where
  "mock_updateApplied t shardId q = (case map_of t shardId of None \<Rightarrow> t
     | Some s \<Rightarrow> AList.update shardId (s\<lparr>ss_lastApplied := q,
         ss_pendingCount := (if ss_lastGenerated s \<ge> q then ss_lastGenerated s - q else 0)\<rparr>) t)"

definition mock_totalPending :: "mock_tracker \<Rightarrow> u64" where
  "mock_totalPending t = foldl (\<lambda>total (k, v). total + ss_pendingCount v) 0 t"

definition mock_tracker_ops :: "mock_tracker tracker_ops" where
  "mock_tracker_ops = \<lparr>tk_getState = mock_getState, tk_getAllStates = map snd,
     tk_updateApplied = mock_updateApplied, tk_resetAll = (\<lambda>_. []), tk_totalPending = mock_totalPending\<rparr>"

interpretation mock_tracker: rest_tracker mock_tracker_ops
  by unfold_locales (auto simp: mock_tracker_ops_def mock_getState_def mock_updateApplied_def split: option.splits)

section \<open>The tailer's contract and paging\<close>

locale rest_tailer =
  fixes ta :: "'l tailer_ops"
    and feed :: "'l \<Rightarrow> string \<Rightarrow> replication_message list"
  assumes next_batch: "0 < n \<Longrightarrow>
    ta_nextBatch ta l s a n = take (unat n) (filter (\<lambda>m. a < rm_sequence m) (feed l s))"
begin

lemma fetch_page_eq:
  fixes l :: 'l and s :: string and a :: u64
  assumes "0 < n" and "n \<le> 10000"
  defines "ms \<equiv> filter (\<lambda>m. a < rm_sequence m) (feed l s)"
  shows "fetch_page ta l s a n = \<lparr>fp_messages = take (unat n) ms, fp_hasMore = (unat n < length ms),
     fp_lastSequence = foldl (\<lambda>_ m. rm_sequence m) a (take (unat n) ms)\<rparr>"
proof -
  have "unat n \<le> 10000" using assms(2) by (simp add: word_le_nat_alt)
  then have n1: "unat (n + 1) = Suc (unat n)" by (simp add: unat_word_ariths)
  then have "0 < n + 1" by (simp add: word_less_nat_alt)
  from next_batch [OF this, of l s a] have nb: "ta_nextBatch ta l s a (n + 1) = take (Suc (unat n)) ms"
    by (simp add: n1 ms_def)
  show ?thesis
    by (auto simp: fetch_page_def nb Let_def min_def not_le not_less)
qed

lemma filter_after_last:
  fixes a :: u64
  assumes "sorted_wrt (<) (map rm_sequence xs)" and "0 < k" and "k < length (filter (\<lambda>m. a < rm_sequence m) xs)"
  defines "ms \<equiv> filter (\<lambda>m. a < rm_sequence m) xs"
  shows "filter (\<lambda>m. foldl (\<lambda>_ m. rm_sequence m) a (take k ms) < rm_sequence m) xs = drop k ms"
proof -
  have srt: "sorted_wrt (<) (map rm_sequence ms)"
    using assms(1) unfolding ms_def by (simp add: sorted_wrt_map sorted_wrt_filter)
  define b where "b = rm_sequence (ms ! (k - 1))"
  have "take k ms = take (k - 1) ms @ [ms ! (k - 1)]"
    using assms(2,3) take_Suc_conv_app_nth [of "k - 1" ms] by (simp add: ms_def)
  then have last: "foldl (\<lambda>_ m. rm_sequence m) a (take k ms) = b" by (simp add: b_def)
  have kl: "k - 1 < length ms" using assms(3) by (simp add: ms_def)
  have "a < b" using nth_mem [OF kl] by (auto simp: b_def ms_def)
  have ge: "i < k \<longleftrightarrow> rm_sequence (ms ! i) \<le> b" if "i < length ms" for i
  proof -
    have mono: "i < j \<Longrightarrow> j < length ms \<Longrightarrow> rm_sequence (ms ! i) < rm_sequence (ms ! j)" for i j
      using sorted_wrt_nth_less [OF srt, of i j] by simp
    consider "i < k - 1" | "i = k - 1" | "k - 1 < i" by linarith
    then show ?thesis
    proof cases
      case 1
      with mono [OF 1 kl] show ?thesis by (simp add: b_def less_imp_le)
    next
      case 2
      with assms(2) show ?thesis by (simp add: b_def)
    next
      case 3
      with mono [OF 3 that] show ?thesis by (simp add: b_def not_le [symmetric])
    qed
  qed
  have "filter (\<lambda>m. b < rm_sequence m) xs = filter (\<lambda>m. b < rm_sequence m) ms"
    unfolding ms_def filter_filter using \<open>a < b\<close> by (intro filter_cong refl) auto
  also have "\<dots> = filter (\<lambda>m. b < rm_sequence m) (take k ms) @ filter (\<lambda>m. b < rm_sequence m) (drop k ms)"
    by (metis append_take_drop_id filter_append)
  also have "filter (\<lambda>m. b < rm_sequence m) (take k ms) = []"
    using ge by (auto simp: filter_empty_conv in_set_conv_nth not_less)
  also have "filter (\<lambda>m. b < rm_sequence m) (drop k ms) = drop k ms"
  proof (rule filter_True, rule ballI)
    fix m assume "m \<in> set (drop k ms)"
    then obtain i where i: "i < length ms - k" "m = ms ! (k + i)" by (auto simp: in_set_conv_nth)
    then have "\<not> rm_sequence (ms ! (k + i)) \<le> b" using ge [of "k + i"] by simp
    then show "b < rm_sequence m" by (simp add: i)
  qed
  finally show ?thesis by (simp add: last)
qed

lemma read_all_complete:
  assumes "sorted_wrt (<) (map rm_sequence (feed l s))" and "0 < n" and "n \<le> 10000"
  shows "length (filter (\<lambda>m. a < rm_sequence m) (feed l s)) \<le> fuel \<Longrightarrow>
    read_all ta l s n a fuel = filter (\<lambda>m. a < rm_sequence m) (feed l s)"
proof (induction fuel arbitrary: a)
  case 0
  then show ?case by (simp add: fetch_page_eq [OF assms(2,3)])
next
  case (Suc fuel)
  let ?ms = "filter (\<lambda>m. a < rm_sequence m) (feed l s)"
  let ?b = "foldl (\<lambda>_ m. rm_sequence m) a (take (unat n) ?ms)"
  have n: "0 < unat n" using assms(2) by (simp add: unat_gt_0)
  show ?case
  proof (cases "unat n < length ?ms")
    case True
    note rest = filter_after_last [OF assms(1) n True]
    have "read_all ta l s n ?b fuel = drop (unat n) ?ms"
      using Suc.IH [of ?b] Suc.prems n unfolding rest by simp
    with True show ?thesis by (simp add: fetch_page_eq [OF assms(2,3)] Let_def)
  next
    case False
    then show ?thesis by (simp add: fetch_page_eq [OF assms(2,3)] Let_def)
  qed
qed

end

subsection \<open>The tailer of the repository\<close>

record mock_tailer =
  mt_running :: bool
  mt_messages :: "replication_message list"
  mt_sent :: u64
  mt_acked :: u64

definition mock_addMessage :: "mock_tailer \<Rightarrow> replication_message \<Rightarrow> mock_tailer" where
  "mock_addMessage l m = l\<lparr>mt_messages := mt_messages l @ [m], mt_sent := mt_sent l + 1\<rparr>"

fun mock_next :: "string \<Rightarrow> u64 \<Rightarrow> u32 \<Rightarrow> replication_message list \<Rightarrow> replication_message list \<Rightarrow>
    replication_message list" where
  "mock_next shardId a n [] result = result"
| "mock_next shardId a n (m # ms) result =
     (if rm_shardId m = shardId \<and> rm_sequence m > a
      then let result = result @ [m]
           in if length result \<ge> unat n then result else mock_next shardId a n ms result
      else mock_next shardId a n ms result)"

definition mock_tailer_ops :: "mock_tailer tailer_ops" where
  "mock_tailer_ops = \<lparr>ta_isRunning = mt_running, ta_start = (\<lambda>l. l\<lparr>mt_running := True\<rparr>),
     ta_stop = (\<lambda>l. l\<lparr>mt_running := False\<rparr>),
     ta_nextBatch = (\<lambda>l shardId a n. mock_next shardId a n (mt_messages l) []),
     ta_messagesSent = mt_sent, ta_messagesAcked = mt_acked\<rparr>"

definition mock_feed :: "mock_tailer \<Rightarrow> string \<Rightarrow> replication_message list" where
  "mock_feed l s = filter (\<lambda>m. rm_shardId m = s) (mt_messages l)"

lemma mock_next_eq:
  "length r < unat n \<Longrightarrow> mock_next s a n ms r =
     r @ take (unat n - length r) (filter (\<lambda>m. a < rm_sequence m) (filter (\<lambda>m. rm_shardId m = s) ms))"
proof (induction s a n ms r rule: mock_next.induct)
  case (2 s a n m ms r)
  then show ?case by (auto simp: Let_def take_Cons' not_le)
qed simp

interpretation mock_tailer: rest_tailer mock_tailer_ops mock_feed
  by unfold_locales (simp add: mock_tailer_ops_def mock_feed_def mock_next_eq unat_gt_0)

section \<open>Properties\<close>

text \<open>C30. Checkpoint reports are safe: after any sequence of checkpoint requests, valid or not, the
  last applied number of a shard is the largest of its previous one and the reported ones that
  were actually generated, and what was generated is unchanged; so it never decreases, never
  passes what was generated, and reports for other shards leave it alone.\<close>

theorem checkpoint_reports_safe:
  assumes "ss_lastApplied (mock_getState t s) \<le> ss_lastGenerated (mock_getState t s)" and "s \<noteq> []"
  shows "ss_lastGenerated (mock_getState (checkpoint_run mock_tracker_ops t reqs) s) = ss_lastGenerated (mock_getState t s) \<and>
         ss_lastApplied (mock_getState (checkpoint_run mock_tracker_ops t reqs) s) =
           Max (insert (ss_lastApplied (mock_getState t s))
                  {q. (s, q) \<in> set reqs \<and> q \<le> ss_lastGenerated (mock_getState t s)})"
proof -
  have g: "tk_getState mock_tracker_ops = mock_getState" by (simp add: mock_tracker_ops_def)
  from mock_tracker.checkpoint_run_max [of t s reqs] assms show ?thesis unfolding g by blast
qed

lemma checkpoint_reports_safe_witness:
  "let t = mock_addShard [] ''s'' 10 3; t' = checkpoint_run mock_tracker_ops t [(''s'', 7), (''s'', 5), (''s'', 12), (''x'', 9)]
   in ss_lastApplied (mock_getState t ''s'') = 3 \<and> ss_lastApplied (mock_getState t' ''s'') = 7"
proof -
  let ?t = "mock_addShard [] ''s'' 10 3" and ?r = "[(''s'', 7), (''s'', 5), (''s'', 12), (''x'', 9)] :: (string \<times> u64) list"
  have s: "ss_lastApplied (mock_getState ?t ''s'') = 3" "ss_lastGenerated (mock_getState ?t ''s'') = 10"
    by (simp_all add: mock_addShard_def mock_getState_def)
  have set: "{q. (''s'', q) \<in> set ?r \<and> q \<le> 10} = {7, 5}" by (auto simp: word_le_nat_alt)
  have "ss_lastApplied (mock_getState ?t ''s'') \<le> ss_lastGenerated (mock_getState ?t ''s'')" "''s'' \<noteq> []"
    by (simp_all add: s word_le_nat_alt)
  from checkpoint_reports_safe [OF this, of ?r] have
    "ss_lastApplied (mock_getState (checkpoint_run mock_tracker_ops ?t ?r) ''s'') = Max {3, 7, 5}"
    unfolding s set by simp
  then show ?thesis using s by (simp add: Let_def max_def word_le_nat_alt)
qed

text \<open>C31. Paging is complete: a client that starts anywhere and follows \<open>lastSequence\<close> while
  \<open>hasMore\<close> is set, with any page size the handler lets through (1 to 10000), receives every
  message of the shard after its starting point exactly once and in order, when the shard's
  messages are in the log in sequence order.\<close>

theorem feed_paging_complete:
  assumes "sorted_wrt (<) (map rm_sequence (mock_feed l s))"
    and "length (filter (\<lambda>m. a < rm_sequence m) (mock_feed l s)) \<le> fuel"
  shows "read_all mock_tailer_ops l s (clampMaxCount n) a fuel = filter (\<lambda>m. a < rm_sequence m) (mock_feed l s)"
proof -
  have "0 < clampMaxCount n" "clampMaxCount n \<le> 10000"
    by (auto simp: clampMaxCount_def Let_def word_le_nat_alt word_less_nat_alt unat_gt_0)
  then show ?thesis by (rule mock_tailer.read_all_complete [OF assms(1) _ _ assms(2)])
qed

lemma feed_paging_complete_witness:
  "let m = (\<lambda>q. \<lparr>rm_shardId = ''s'', rm_sequence = q, rm_operation = ''insert'', rm_payload = []\<rparr>);
       l = \<lparr>mt_running = True, mt_messages = [m 1, m 2, m 3, m 4], mt_sent = 4, mt_acked = 0\<rparr>
   in read_all mock_tailer_ops l ''s'' (clampMaxCount 2) 1 3 = [m 2, m 3, m 4]"
proof -
  let ?m = "\<lambda>q. \<lparr>rm_shardId = ''s'', rm_sequence = q, rm_operation = ''insert'', rm_payload = []\<rparr>"
  let ?l = "\<lparr>mt_running = True, mt_messages = [?m 1, ?m 2, ?m 3, ?m 4], mt_sent = 4, mt_acked = 0\<rparr>"
  have f: "filter (\<lambda>m. 1 < rm_sequence m) (mock_feed ?l ''s'') = [?m 2, ?m 3, ?m 4]"
    by (simp add: mock_feed_def word_less_nat_alt)
  have "sorted_wrt (<) (map rm_sequence (mock_feed ?l ''s''))" by (simp add: mock_feed_def word_less_nat_alt)
  from feed_paging_complete [OF this, of 1 3 2] show ?thesis unfolding f by (simp add: Let_def)
qed

end
