(* ===== verification/MinHash.thy ===== *)
theory MinHash
  imports Doubles
begin

text \<open>
  MinHash signatures (\<^verbatim>\<open>Enterprise/Aql/MinHashFunctions.cpp\<close>) and the search analyzer
  built on them (\<^verbatim>\<open>Enterprise/IResearch/IResearchAnalyzerFeature.cpp\<close>): the base hash, the
  permutations modulo \<open>2^61 - 1\<close> with the 128-bit product and the shift-and-add reduction as the
  code has them, the running minimums, and the tokenizer.
\<close>

section \<open>Hashing\<close>

definition kMinHashPrime :: u64 where "kMinHashPrime = push_bit 61 1 - 1"
definition kMaxMinHashK :: u32 where "kMaxMinHashK = 4096"
definition kMasterSeed :: u64 where "kMasterSeed = 0x9E3779B97F4A7C15"

definition base_step :: "u64 \<Rightarrow> char \<Rightarrow> u64" where
  "base_step hash c = (hash XOR of_char c) * 1099511628211"

definition baseHash :: "string \<Rightarrow> u64 \<Rightarrow> u64" where
  "baseHash element seed = foldl base_step (14695981039346656037 XOR seed) element"

definition mulmod :: "u64 \<Rightarrow> u64 \<Rightarrow> u64 \<Rightarrow> u64" where
  "mulmod a b p =
     (let result = (ucast a :: 128 word) * ucast b;
          lo = (ucast result :: u64) AND p;
          hi = (ucast (drop_bit 61 result) :: u64);
          val = lo + hi
      in if val \<ge> p then val - p else val)"

definition reduceMod :: "u64 \<Rightarrow> u64 \<Rightarrow> u64" where
  "reduceMod x p =
     (let lo = x AND p;
          hi = drop_bit 61 x;
          val = lo + hi
      in if val \<ge> p then val - p else val)"

record permutation_seed =
  ps_a :: u64
  ps_b :: u64

definition permutationHash :: "u64 \<Rightarrow> permutation_seed \<Rightarrow> u64" where
  "permutationHash x seed =
     (let p = kMinHashPrime;
          xr = reduceMod x p;
          ax = mulmod (ps_a seed) xr p;
          result = ax + ps_b seed
      in if result \<ge> p then result - p else result)"

text \<open>The four bytes of the loop index, least significant first (the memory of a little-endian
  machine, as the code reads it).\<close>

definition index_bytes :: "u32 \<Rightarrow> string" where
  "index_bytes i = map (\<lambda>k. char_of (unat (drop_bit (8 * k) i))) [0, 1, 2, 3]"

definition permutation_seed_at :: "u64 \<Rightarrow> u32 \<Rightarrow> permutation_seed" where
  "permutation_seed_at masterSeed i =
     (let a = baseHash (index_bytes i) masterSeed;
          b = baseHash (index_bytes i) (masterSeed XOR 0xDEADBEEF)
      in \<lparr>ps_a = a mod (kMinHashPrime - 1) + 1, ps_b = b mod kMinHashPrime\<rparr>)"

definition generatePermutationSeeds :: "u32 \<Rightarrow> u64 \<Rightarrow> permutation_seed list" where
  "generatePermutationSeeds k masterSeed =
     map (\<lambda>i. permutation_seed_at masterSeed (of_nat i)) [0..<unat k]"

section \<open>MinHashGenerator\<close>

record minhash_generator =
  mg_seeds :: "permutation_seed list"
  mg_minimums :: "u64 list"

definition new_minhash_generator :: "permutation_seed list \<Rightarrow> minhash_generator" where
  "new_minhash_generator seeds = \<lparr>mg_seeds = seeds, mg_minimums = replicate (length seeds) (- 1)\<rparr>"

definition addElement :: "minhash_generator \<Rightarrow> string \<Rightarrow> minhash_generator" where
  "addElement g element =
     (let h = baseHash element 0
      in g\<lparr>mg_minimums := map2 (\<lambda>seed m. let ph = permutationHash h seed in if ph < m then ph else m)
             (mg_seeds g) (mg_minimums g)\<rparr>)"

definition minhash_finalize :: "minhash_generator \<Rightarrow> u64 list" where
  "minhash_finalize g = mg_minimums g"

definition minhash_reset :: "minhash_generator \<Rightarrow> minhash_generator" where
  "minhash_reset g = g\<lparr>mg_minimums := replicate (length (mg_minimums g)) (- 1)\<rparr>"

definition minhash_signature :: "permutation_seed list \<Rightarrow> string list \<Rightarrow> u64 list" where
  "minhash_signature seeds elements =
     minhash_finalize (foldl addElement (new_minhash_generator seeds) elements)"

definition estimateJaccard :: "u64 list \<Rightarrow> u64 list \<Rightarrow> rat" where
  "estimateJaccard sig1 sig2 =
     (if length sig1 \<noteq> length sig2 \<or> sig1 = [] then 0
      else let matches = (foldl (\<lambda>n (x, y). if x = y then n + 1 else n) 0 (zip sig1 sig2) :: u32)
           in ddiv (of_nat (unat matches)) (rnd (of_nat (length sig1))))"

section \<open>MinHashAnalyzer\<close>

record analyzer_config =
  ac_numHashes :: u32
  ac_analyzerType :: string
  ac_analyzerProperties :: string

definition analyzer_config_init :: analyzer_config where
  \<open>analyzer_config_init = \<lparr>ac_numHashes = 128, ac_analyzerType = ''delimiter'',
     ac_analyzerProperties = ''{"delimiter": " "}''\<rparr>\<close>

record analyzer =
  an_config :: analyzer_config
  an_signatureTokens :: "string list"
  an_currentToken :: nat

definition new_analyzer :: "analyzer_config \<Rightarrow> analyzer" where
  "new_analyzer c = \<lparr>an_config = c, an_signatureTokens = [], an_currentToken = 0\<rparr>"

text \<open>The value of a string field after \<open>key\<close>: the text between the next two quotes after the
  next colon.\<close>

definition quoted_after :: "string \<Rightarrow> string \<Rightarrow> string option" where
  "quoted_after key input =
     (case str_find input key 0 of None \<Rightarrow> None | Some pos \<Rightarrow>
      case str_find input '':'' pos of None \<Rightarrow> None | Some colonPos \<Rightarrow>
      case str_find input [CHR 0x22] (colonPos + 1) of None \<Rightarrow> None | Some quoteStart \<Rightarrow>
      case str_find input [CHR 0x22] (quoteStart + 1) of None \<Rightarrow> None | Some quoteEnd \<Rightarrow>
        Some (substr input (quoteStart + 1) (quoteEnd - quoteStart - 1)))"

datatype make_result = MakeThrows | MakeNull | Made analyzer

text \<open>The \<open>numHashes\<close> field in \<open>make\<close>: \<open>None\<close> is absent, otherwise the digits found.\<close>

definition make_digits :: "string \<Rightarrow> string option" where
  \<open>make_digits input =
     (case str_find input ''"numHashes"'' 0 of None \<Rightarrow> None | Some pos \<Rightarrow>
      case str_find input '':'' pos of None \<Rightarrow> None | Some colonPos \<Rightarrow>
      case find_pred is_digit input colonPos of None \<Rightarrow> None | Some valueStart \<Rightarrow>
        Some (case find_pred (\<lambda>c. \<not> is_digit c) input valueStart of
                None \<Rightarrow> drop valueStart input
              | Some valueEnd \<Rightarrow> substr input valueStart (valueEnd - valueStart)))\<close>

definition analyzer_make :: "string \<Rightarrow> make_result" where
  \<open>analyzer_make args =
     (if args = [] \<or> args = ''{}'' then Made (new_analyzer analyzer_config_init)
      else let digits = make_digits args;
               finish = (\<lambda>n. let c = analyzer_config_init\<lparr>ac_numHashes := n\<rparr>;
                   c = (case quoted_after ''"type"'' args of None \<Rightarrow> c | Some t \<Rightarrow> c\<lparr>ac_analyzerType := t\<rparr>);
                   c = (case quoted_after ''"delimiter"'' args of None \<Rightarrow> c
                        | Some d \<Rightarrow> c\<lparr>ac_analyzerProperties := ''{"delimiter": "'' @ d @ ''"}''\<rparr>)
                 in Made (new_analyzer c))
           in case digits of
                None \<Rightarrow> finish 128
              | Some ds \<Rightarrow>
                  (if undec ds \<ge> 2 ^ 63 then MakeThrows
                   else if undec ds = 0 \<or> undec ds > unat kMaxMinHashK then MakeNull
                   else finish (of_nat (undec ds))))\<close>

text \<open>\<open>std::stoll\<close> on the rest of a string that begins with a minus or a digit: the sign, then
  the longest run of digits; \<open>None\<close> is an exception.\<close>

definition stoll_prefix :: "string \<Rightarrow> int option" where
  "stoll_prefix s =
     (let (neg, r) = (case s of CHR ''-'' # r \<Rightarrow> (True, r) | r \<Rightarrow> (False, r));
          ds = takeWhile is_digit r;
          v = (if neg then - int (undec ds) else int (undec ds))
      in if ds = [] then None else if v < - (2 ^ 63) \<or> v \<ge> 2 ^ 63 then None else Some v)"

definition analyzer_normalize :: "string \<Rightarrow> string option" where
  \<open>analyzer_normalize args =
     (if args = [] \<or> args = ''{}''
      then Some ''{"numHashes":128,"analyzer":{"type":"delimiter","properties":{"delimiter":" "}}}''
      else let bad = (case str_find args ''"numHashes"'' 0 of None \<Rightarrow> False | Some pos \<Rightarrow>
                       case str_find args '':'' pos of None \<Rightarrow> False | Some colonPos \<Rightarrow>
                       case find_pred (\<lambda>c. c = CHR ''-'' \<or> is_digit c) args colonPos of None \<Rightarrow> False
                       | Some valueStart \<Rightarrow>
                           (case stoll_prefix (drop valueStart args) of
                              None \<Rightarrow> True
                            | Some val \<Rightarrow> val \<le> 0 \<or> val > int (unat kMaxMinHashK)))
           in if bad then None else Some args)\<close>

text \<open>\<open>stream >> token\<close> until it fails.\<close>

function space_tokens :: "string \<Rightarrow> string list" where
  "space_tokens s =
     (let r = dropWhile is_space s
      in if r = [] then [] else takeWhile (\<lambda>c. \<not> is_space c) r # space_tokens (dropWhile (\<lambda>c. \<not> is_space c) r))"
  by pat_completeness auto
termination
proof (relation "measure length", goal_cases)
  case (2 s r)
  obtain c cs where r: "r = c # cs" using 2(2) by (meson neq_Nil_conv)
  then have "\<not> is_space c" using 2(1) by (metis hd_dropWhile list.sel(1) list.distinct(1))
  then have "length (dropWhile (\<lambda>c. \<not> is_space c) r) \<le> length cs" by (simp add: r length_dropWhile_le)
  moreover have "length r \<le> length s" by (simp add: 2(1) length_dropWhile_le)
  ultimately show ?case by (simp add: r)
qed simp

declare space_tokens.simps [simp del]

text \<open>The custom tokenizer's loop.  Nothing in the code excludes an empty delimiter, so the loop
  need not end: \<open>None\<close> is a call that does not return.\<close>

partial_function (option) delimiter_loop ::
  "string \<Rightarrow> string \<Rightarrow> nat \<Rightarrow> nat option \<Rightarrow> string list \<Rightarrow> string list option" where
  "delimiter_loop input delimiter start end tokens =
     (case end of
        None \<Rightarrow> Some (let lastTok = drop start input in if lastTok \<noteq> [] then tokens @ [lastTok] else tokens)
      | Some e \<Rightarrow>
          delimiter_loop input delimiter (e + length delimiter) (str_find input delimiter (e + length delimiter))
            (let tok = substr input start (e - start) in if tok \<noteq> [] then tokens @ [tok] else tokens))"

definition delimiter_tokens :: "string \<Rightarrow> string \<Rightarrow> string list option" where
  "delimiter_tokens delimiter input = delimiter_loop input delimiter 0 (str_find input delimiter 0) []"

definition analyzer_tokens :: "analyzer_config \<Rightarrow> string \<Rightarrow> string list option" where
  \<open>analyzer_tokens c data =
     (if ac_analyzerType c = ''delimiter''
      then let delimiter = (case quoted_after ''"delimiter"'' (ac_analyzerProperties c) of None \<Rightarrow> '' '' | Some d \<Rightarrow> d)
           in if delimiter = '' '' then Some (space_tokens data) else delimiter_tokens delimiter data
      else Some [])\<close>

definition analyzer_reset :: "analyzer \<Rightarrow> string \<Rightarrow> (bool \<times> analyzer) option" where
  "analyzer_reset a data =
     (case analyzer_tokens (an_config a) data of
        None \<Rightarrow> None
      | Some tokens \<Rightarrow>
          (let seeds = generatePermutationSeeds (ac_numHashes (an_config a)) kMasterSeed;
               signature = minhash_signature seeds tokens;
               out = map (\<lambda>(i, v). dec i @ '':'' @ dec (unat v)) (zip [0..<length signature] signature)
           in Some (out \<noteq> [] \<or> tokens = [], a\<lparr>an_signatureTokens := out, an_currentToken := 0\<rparr>)))"

definition analyzer_next :: "analyzer \<Rightarrow> bool \<times> analyzer" where
  "analyzer_next a =
     (if an_currentToken a \<ge> length (an_signatureTokens a) then (False, a)
      else (True, a\<lparr>an_currentToken := an_currentToken a + 1\<rparr>))"

definition analyzer_value :: "analyzer \<Rightarrow> string" where
  "analyzer_value a =
     (if an_currentToken a = 0 \<or> an_currentToken a > length (an_signatureTokens a) then []
      else an_signatureTokens a ! (an_currentToken a - 1))"

section \<open>The reduction modulo the Mersenne prime\<close>

definition prime_nat :: nat where "prime_nat = 2 ^ 61 - 1"

lemma kMinHashPrime_mask: "kMinHashPrime = mask 61"
  by (simp add: kMinHashPrime_def mask_eq_exp_minus_1 push_bit_eq_mult)

lemma unat_prime: "unat kMinHashPrime = prime_nat"
  by (simp add: kMinHashPrime_def prime_nat_def push_bit_eq_mult)

lemma mersenne_fold: "(x :: nat) mod prime_nat = (x div 2 ^ 61 + x mod 2 ^ 61) mod prime_nat"
proof -
  have "x = x div 2 ^ 61 * prime_nat + (x div 2 ^ 61 + x mod 2 ^ 61)"
    unfolding prime_nat_def using div_mult_mod_eq [of x "2 ^ 61"] by simp
  then show ?thesis by (metis mod_mult_self3)
qed

lemma subtract_once:
  assumes "s < 2 * prime_nat" shows "(if prime_nat \<le> s then s - prime_nat else s) = s mod prime_nat"
  using assms by (auto simp: mod_if [of s] not_less)

text \<open>The shared tail of both reductions: fold the high part onto the low one, subtract once.\<close>

lemma fold_subtract:
  fixes lo hi :: u64
  assumes "unat lo = x mod 2 ^ 61" and "unat hi = x div 2 ^ 61" and "x div 2 ^ 61 < prime_nat"
  shows "unat (let val = lo + hi in if val \<ge> kMinHashPrime then val - kMinHashPrime else val) = x mod prime_nat"
proof -
  have l: "x mod 2 ^ 61 < 2 ^ 61" by simp
  with assms have s: "unat (lo + hi) = x mod 2 ^ 61 + x div 2 ^ 61"
    by (simp add: unat_word_ariths prime_nat_def)
  have b: "x mod 2 ^ 61 + x div 2 ^ 61 < 2 * prime_nat"
    using l assms(3) by (simp add: prime_nat_def)
  have "unat (if lo + hi \<ge> kMinHashPrime then lo + hi - kMinHashPrime else lo + hi) =
      (if prime_nat \<le> x mod 2 ^ 61 + x div 2 ^ 61 then x mod 2 ^ 61 + x div 2 ^ 61 - prime_nat
       else x mod 2 ^ 61 + x div 2 ^ 61)"
    by (simp add: word_le_nat_alt unat_prime s unat_sub)
  also have "\<dots> = (x mod 2 ^ 61 + x div 2 ^ 61) mod prime_nat" by (rule subtract_once [OF b])
  also have "\<dots> = x mod prime_nat" by (simp add: mersenne_fold [of x] add.commute)
  finally show ?thesis by (simp add: Let_def)
qed

lemma reduceMod_eq: "unat (reduceMod x kMinHashPrime) = unat x mod prime_nat"
proof -
  have lo: "unat (x AND kMinHashPrime) = unat x mod 2 ^ 61"
    unfolding kMinHashPrime_mask take_bit_eq_mask [symmetric] unsigned_take_bit_eq by (simp add: take_bit_eq_mod)
  have hi: "unat (drop_bit 61 x) = unat x div 2 ^ 61"
    unfolding unsigned_drop_bit_eq using unat_lt_2_64 [of x] by (simp add: drop_bit_eq_div take_bit_nat_eq_self)
  have "unat x div 2 ^ 61 < prime_nat" using unat_lt_2_64 [of x] by (simp add: prime_nat_def div_less_iff_less_mult)
  from fold_subtract [OF lo hi this] show ?thesis by (simp add: reduceMod_def Let_def)
qed

lemma mulmod_eq:
  assumes "unat a < prime_nat" and "unat b < prime_nat"
  shows "unat (mulmod a b kMinHashPrime) = unat a * unat b mod prime_nat"
proof -
  let ?r = "(ucast a :: 128 word) * ucast b"
  let ?x = "unat a * unat b"
  have x: "?x < prime_nat * prime_nat" using assms by (intro mult_strict_mono) simp_all
  have t: "take_bit 128 (unat c) = unat c" for c :: u64
    by (rule take_bit_nat_eq_self) (use unat_lt_2_64 [of c] in simp)
  have r: "unat ?r = ?x"
    using x by (simp add: unat_word_ariths unsigned_ucast_eq prime_nat_def t)
  have lo: "unat ((ucast ?r :: u64) AND kMinHashPrime) = ?x mod 2 ^ 61"
  proof -
    have "unat ((ucast ?r :: u64) AND kMinHashPrime) = take_bit 61 (take_bit 64 (unat ?r))"
      by (simp only: kMinHashPrime_mask take_bit_eq_mask [symmetric] unsigned_take_bit_eq unsigned_ucast_eq) simp
    also have "\<dots> = take_bit 61 ?x" unfolding r take_bit_take_bit by simp
    finally show ?thesis by (simp only: take_bit_eq_mod)
  qed
  have hi: "unat (ucast (drop_bit 61 ?r) :: u64) = ?x div 2 ^ 61"
  proof -
    have "unat (ucast (drop_bit 61 ?r) :: u64) = take_bit 64 (drop_bit 61 (unat ?r))"
    proof -
      have "?x < 2 ^ 128" using x by (simp add: prime_nat_def)
      then have "take_bit 128 (unat ?r) = unat ?r" unfolding r by (rule take_bit_nat_eq_self)
      then show ?thesis unfolding unsigned_ucast_eq unsigned_drop_bit_eq by simp
    qed
    moreover have "?x div 2 ^ 61 < 2 ^ 64" using x by (simp add: prime_nat_def div_less_iff_less_mult)
    ultimately show ?thesis by (simp only: r drop_bit_eq_div take_bit_nat_eq_self)
  qed
  have "?x div 2 ^ 61 < prime_nat" using x by (simp add: prime_nat_def div_less_iff_less_mult)
  from fold_subtract [OF lo hi this] show ?thesis by (simp add: mulmod_def Let_def)
qed

definition seed_ok :: "permutation_seed \<Rightarrow> bool" where
  "seed_ok s \<longleftrightarrow> 1 \<le> unat (ps_a s) \<and> unat (ps_a s) < prime_nat \<and> unat (ps_b s) < prime_nat"

lemma permutationHash_eq:
  assumes "seed_ok s"
  shows "unat (permutationHash x s) = (unat (ps_a s) * unat x + unat (ps_b s)) mod prime_nat"
proof -
  let ?ax = "mulmod (ps_a s) (reduceMod x kMinHashPrime) kMinHashPrime"
  have P: "0 < prime_nat" by (simp add: prime_nat_def)
  have "unat (reduceMod x kMinHashPrime) < prime_nat" using P by (simp add: reduceMod_eq)
  then have ax: "unat ?ax = unat (ps_a s) * unat x mod prime_nat"
    using assms by (simp add: mulmod_eq seed_ok_def reduceMod_eq mod_mult_right_eq)
  have b: "unat (ps_b s) < prime_nat" using assms by (simp add: seed_ok_def)
  have lt: "unat (ps_a s) * unat x mod prime_nat + unat (ps_b s) < 2 * prime_nat"
    using P b mod_less_divisor [of prime_nat "unat (ps_a s) * unat x"] by linarith
  then have sum: "unat (?ax + ps_b s) = unat (ps_a s) * unat x mod prime_nat + unat (ps_b s)"
    by (simp add: unat_word_ariths ax prime_nat_def)
  have "unat (permutationHash x s) = (if prime_nat \<le> unat (?ax + ps_b s) then unat (?ax + ps_b s) - prime_nat
      else unat (?ax + ps_b s))"
    by (simp add: permutationHash_def Let_def word_le_nat_alt unat_prime unat_sub)
  also have "\<dots> = (unat (ps_a s) * unat x mod prime_nat + unat (ps_b s)) mod prime_nat"
    unfolding sum by (rule subtract_once [OF lt])
  finally show ?thesis by (simp add: mod_add_left_eq)
qed

lemma seed_at_ok: "seed_ok (permutation_seed_at ms i)"
proof -
  have p: "unat (kMinHashPrime - 1) = prime_nat - 1" by (simp add: kMinHashPrime_def prime_nat_def push_bit_eq_mult)
  have a: "unat (w mod (kMinHashPrime - 1)) < prime_nat - 1" for w
    unfolding unat_mod_distrib p by (rule mod_less_divisor) (simp add: prime_nat_def)
  have "prime_nat - 1 \<le> 2 ^ 64 - 1" by (simp add: prime_nat_def)
  from less_le_trans [OF a this] have "unat (w mod (kMinHashPrime - 1) + 1) = Suc (unat (w mod (kMinHashPrime - 1)))" for w
    by (rule unat_Suc_u64)
  moreover have "unat (w mod kMinHashPrime) < prime_nat" for w
    unfolding unat_mod_distrib unat_prime by (rule mod_less_divisor) (simp add: prime_nat_def)
  ultimately show ?thesis using a by (simp add: seed_ok_def permutation_seed_at_def Let_def less_diff_conv)
qed

section \<open>Signatures\<close>

definition slot_min :: "permutation_seed \<Rightarrow> string set \<Rightarrow> u64" where
  "slot_min s E = Min (insert (- 1) ((\<lambda>e. permutationHash (baseHash e 0) s) ` E))"

lemma slot_min_insert: "finite E \<Longrightarrow> slot_min s (insert e E) = min (permutationHash (baseHash e 0) s) (slot_min s E)"
  by (cases "E = {}") (simp_all add: slot_min_def insert_commute min.commute min.left_commute)

lemma signature_eq: "minhash_signature seeds es = map (\<lambda>s. slot_min s (set es)) seeds"
proof -
  have "mg_seeds (foldl addElement (new_minhash_generator seeds) es) = seeds \<and>
      mg_minimums (foldl addElement (new_minhash_generator seeds) es) = map (\<lambda>s. slot_min s (set es)) seeds"
  proof (induction es rule: rev_induct)
    case Nil
    then show ?case by (simp add: new_minhash_generator_def slot_min_def map_replicate_const)
  next
    case (snoc e es)
    then show ?case
      by (auto simp: addElement_def Let_def slot_min_insert min_def map2_map_map simp flip: not_le
          intro!: nth_equalityI)
  qed
  then show ?thesis by (simp add: minhash_signature_def minhash_finalize_def)
qed

lemma slot_min_union: "slot_min s (set es \<union> set fs) = min (slot_min s (set es)) (slot_min s (set fs))"
  by (induction es) (simp_all add: slot_min_insert min.assoc, simp add: slot_min_def min.absorb2 Min_le)

lemma matches_self:
  assumes "n = length xs" and "n < 2 ^ 32"
  shows "foldl (\<lambda>n (x, y). if x = y then n + 1 else n) (c :: u32) (zip xs xs) = c + of_nat n"
  using assms(1) by (induction xs arbitrary: c n) (simp_all add: algebra_simps)

lemma estimateJaccard_self:
  assumes "xs \<noteq> []" and "length xs < 2 ^ 32" shows "estimateJaccard xs xs = 1"
proof -
  have "unat (of_nat (length xs) :: u32) = length xs"
    unfolding unat_of_nat using assms(2) by simp
  moreover have "rnd (of_nat (length xs)) = of_nat (length xs)" by (rule rnd_nat) (use assms(2) in simp)
  ultimately show ?thesis
    using assms matches_self [OF refl assms(2), of 0] rnd_int [of 1]
    unfolding estimateJaccard_def ddiv_def Let_def by (simp del: unsigned_of_nat of_nat_unat unat_of_nat)
qed

section \<open>The custom tokenizer\<close>

fun join :: "string \<Rightarrow> string list \<Rightarrow> string" where
  "join d [] = []"
| "join d [f] = f"
| "join d (f # fs) = f @ d @ join d fs"

text \<open>The fields of \<open>s\<close> between the occurrences of a non-empty \<open>d\<close>.\<close>

function fields :: "string \<Rightarrow> string \<Rightarrow> string list" where
  "fields d s = (if d = [] then [s] else case find_sub d s of None \<Rightarrow> [s]
     | Some i \<Rightarrow> take i s # fields d (drop (i + length d) s))"
  by pat_completeness auto
termination
proof (relation "measure (\<lambda>(d, s). length s)", goal_cases)
  case (2 d s i)
  from find_sub_Some [OF 2(2)] 2(1) have "0 < length d" "i + length d \<le> length s" by auto
  then have "length s - (i + length d) < length s" by linarith
  then show ?case by simp
qed simp

declare fields.simps [simp del]

lemma fields_nonempty: "fields d s \<noteq> []"
  by (subst fields.simps) (simp split: option.splits)

lemma join_fields: "join d (fields d s) = s"
proof (induction d s rule: fields.induct)
  case (1 d s)
  show ?case
  proof (cases "d = [] \<or> find_sub d s = None")
    case True
    then show ?thesis by (subst fields.simps) auto
  next
    case False
    then obtain i where i: "find_sub d s = Some i" "d \<noteq> []" by auto
    from find_sub_Some [OF i(1)] obtain t where t: "drop i s = d @ t" by (auto simp: prefix_def)
    then have "drop (i + length d) s = t" by (metis append_eq_conv_conj drop_drop add.commute)
    moreover have "join d (take i s # fields d (drop (i + length d) s)) =
        take i s @ d @ join d (fields d (drop (i + length d) s))"
      using fields_nonempty by (cases "fields d (drop (i + length d) s)") auto
    ultimately show ?thesis using 1 [OF i(2) i(1)] i t
      by (subst fields.simps) (simp, metis append_take_drop_id)
  qed
qed

lemma fields_free: "d \<noteq> [] \<Longrightarrow> f \<in> set (fields d s) \<Longrightarrow> \<not> sublist d f"
proof (induction d s rule: fields.induct)
  case (1 d s)
  show ?case
  proof (cases "find_sub d s")
    case None
    then show ?thesis using 1(2,3) find_sub_None [of d s] by (subst (asm) fields.simps) auto
  next
    case (Some i)
    have "\<not> sublist d (take i s)"
    proof
      assume "sublist d (take i s)"
      then obtain ps ss where e: "take i s = ps @ d @ ss" by (auto simp: sublist_def)
      then have "s = ps @ d @ ss @ drop i s" by (metis append.assoc append_take_drop_id)
      then have "prefix d (drop (length ps) s)" by (metis append_eq_conv_conj prefixI)
      moreover have "length (take i s) \<le> i" by simp
      then have "length ps < i" using 1(2) unfolding e by (cases d) auto
      ultimately show False using find_sub_first [OF Some] by blast
    qed
    moreover have "f = take i s \<or> f \<in> set (fields d (drop (i + length d) s))"
      using 1(2,3) Some by (subst (asm) fields.simps) auto
    ultimately show ?thesis using 1(1) [OF 1(2) Some 1(2)] by blast
  qed
qed

lemma delimiter_loop_eq:
  "d \<noteq> [] \<Longrightarrow> start \<le> length s \<Longrightarrow>
     delimiter_loop s d start (str_find s d start) toks = Some (toks @ filter (\<lambda>f. f \<noteq> []) (fields d (drop start s)))"
proof (induction "length s - start" arbitrary: start toks rule: less_induct)
  case less
  show ?case
  proof (cases "find_sub d (drop start s)")
    case None
    then have "fields d (drop start s) = [drop start s]" by (subst fields.simps) simp
    then show ?thesis using None less.prems
      by (subst delimiter_loop.simps) (simp add: str_find_def Let_def)
  next
    case (Some i)
    let ?e = "start + i" and ?n = "start + i + length d"
    have f: "str_find s d start = Some ?e" using Some less.prems(2) by (simp add: str_find_def)
    have "i + length d \<le> length s - start" using find_sub_Some [OF Some] by simp
    then have n: "?n \<le> length s" using less.prems(2) by linarith
    have fl: "fields d (drop start s) = take i (drop start s) # fields d (drop ?n s)"
      using Some less.prems(1) by (subst fields.simps) (simp add: add.assoc add.commute add.left_commute)
    have less_n: "length s - ?n < length s - start" using n less.prems(1) by (cases d) auto
    from less.hyps [OF less_n less.prems(1) n] show ?thesis
      unfolding f by (subst delimiter_loop.simps) (simp add: fl substr_def Let_def)
  qed
qed

lemma delimiter_loop_empty:
  assumes "delimiter_loop s d start end' toks = Some r"
  shows "\<not> (d = [] \<and> (\<exists>e \<le> length s. end' = Some e))"
proof (rule delimiter_loop.raw_induct [where P = "\<lambda>s d start end' toks r. \<not> (d = [] \<and> (\<exists>e \<le> length s. end' = Some e))",
      OF _ assms], goal_cases)
  case (1 loop input d start end' toks r)
  show ?case
  proof
    assume d: "d = [] \<and> (\<exists>e \<le> length input. end' = Some e)"
    then obtain e where e: "e \<le> length input" "end' = Some e" by blast
    have "str_find input [] e = Some e"
      using e(1) by (cases "drop e input") (simp_all add: str_find_def)
    with 1(2) d e have "\<exists>toks'. loop input [] e (Some e) toks' = Some r" by (auto simp: Let_def)
    with 1(1) e(1) show False by blast
  qed
qed


lemma delimiter_tokens_empty: "delimiter_tokens [] s = None"
proof -
  have "str_find s [] 0 = Some 0" by (cases s) (simp_all add: str_find_def)
  then have "delimiter_loop s [] 0 (str_find s [] 0) [] \<noteq> Some r" for r
    using delimiter_loop_empty by fastforce
  then show ?thesis by (auto simp: delimiter_tokens_def)
qed

section \<open>The analyzer's protocol\<close>

lemma analyzer_make_bounds:
  assumes "analyzer_make args = Made a"
  shows "1 \<le> unat (ac_numHashes (an_config a)) \<and> unat (ac_numHashes (an_config a)) \<le> 4096"
proof -
  have d: "1 \<le> undec ds \<and> undec ds \<le> 4096 \<Longrightarrow> unat (of_nat (undec ds) :: u32) = undec ds" for ds
    unfolding unat_of_nat by simp
  show ?thesis
    using assms d
    by (auto simp: analyzer_make_def Let_def analyzer_config_init_def new_analyzer_def kMaxMinHashK_def not_less
        split: if_splits option.splits)
qed

text \<open>A consumer of the analyzer: at most \<open>n\<close> calls of \<open>next\<close>, the value read after each.\<close>

fun analyzer_run :: "nat \<Rightarrow> analyzer \<Rightarrow> string list" where
  "analyzer_run 0 a = []"
| "analyzer_run (Suc n) a =
     (case analyzer_next a of (False, _) \<Rightarrow> [] | (True, a') \<Rightarrow> analyzer_value a' # analyzer_run n a')"

lemma analyzer_run_drop:
  "length (an_signatureTokens a) - an_currentToken a \<le> n \<Longrightarrow>
     analyzer_run n a = drop (an_currentToken a) (an_signatureTokens a)"
proof (induction n arbitrary: a)
  case 0
  then show ?case by simp
next
  case (Suc n)
  show ?case
  proof (cases "an_currentToken a \<ge> length (an_signatureTokens a)")
    case True
    then show ?thesis by (simp add: analyzer_next_def)
  next
    case False
    then show ?thesis
      using Suc.IH [of "a\<lparr>an_currentToken := an_currentToken a + 1\<rparr>"] Suc.prems
      by (simp add: analyzer_next_def analyzer_value_def Cons_nth_drop_Suc)
  qed
qed

section \<open>Properties\<close>

text \<open>C32. Every seed the generator makes is a pair with \<open>1 \<le> a < p\<close> and \<open>b < p\<close>, where
  \<open>p = 2^61 - 1\<close>, and the permutation hash computed with 128-bit products, masks, shifts and
  one conditional subtraction is exactly \<open>(a x + b) mod p\<close>: no intermediate value wraps.\<close>

theorem permutation_hash_exact:
  assumes "s \<in> set (generatePermutationSeeds k masterSeed)"
  shows "1 \<le> unat (ps_a s) \<and> unat (ps_a s) < 2 ^ 61 - 1 \<and> unat (ps_b s) < 2 ^ 61 - 1 \<and>
    unat (permutationHash x s) = (unat (ps_a s) * unat x + unat (ps_b s)) mod (2 ^ 61 - 1)"
proof -
  have "seed_ok s" using assms seed_at_ok by (auto simp: generatePermutationSeeds_def)
  then show ?thesis using permutationHash_eq [of s x] by (simp add: seed_ok_def prime_nat_def)
qed

theorem permutation_hash_exact_witness:
  "\<exists>s \<in> set (generatePermutationSeeds 1 kMasterSeed). 1 \<le> unat (ps_a s)"
proof -
  have "permutation_seed_at kMasterSeed 0 \<in> set (generatePermutationSeeds 1 kMasterSeed)"
    by (simp add: generatePermutationSeeds_def)
  from permutation_hash_exact [OF this, of 5] this show ?thesis by blast
qed

text \<open>C33. A signature depends only on the set of elements: slot \<open>i\<close> is the minimum of the
  \<open>i\<close>-th permutation hash over the elements (all ones for the empty set), the order and the
  repetition of the elements do not matter, the signature of a union is the slot-wise minimum,
  and two lists with the same elements have an estimated Jaccard similarity of exactly 1.\<close>

theorem minhash_signature_of_set:
  shows "minhash_signature seeds es =
      map (\<lambda>s. Min (insert (- 1) ((\<lambda>e. permutationHash (baseHash e 0) s) ` set es))) seeds \<and>
    minhash_signature seeds (es @ fs) = map2 min (minhash_signature seeds es) (minhash_signature seeds fs) \<and>
    (set es = set fs \<longrightarrow> seeds \<noteq> [] \<longrightarrow> length seeds < 2 ^ 32 \<longrightarrow>
      minhash_signature seeds es = minhash_signature seeds fs \<and>
      estimateJaccard (minhash_signature seeds es) (minhash_signature seeds fs) = 1)"
  by (auto simp: signature_eq slot_min_def [symmetric] slot_min_union map2_map_map intro!: estimateJaccard_self)

theorem minhash_signature_of_set_witness:
  "estimateJaccard (minhash_signature [\<lparr>ps_a = 3, ps_b = 4\<rparr>] [''a'', ''b'', ''a''])
     (minhash_signature [\<lparr>ps_a = 3, ps_b = 4\<rparr>] [''b'', ''a'']) = 1"
proof -
  let ?s = "[\<lparr>ps_a = 3, ps_b = 4\<rparr>]" and ?a = "[''a'', ''b'', ''a'']" and ?b = "[''b'', ''a'']"
  have e: "set ?a = set ?b" "?s \<noteq> []" "length ?s < 2 ^ 32" by auto
  show ?thesis using minhash_signature_of_set [of ?s ?a ?b] e by blast
qed

text \<open>The custom tokenizer, for a non-empty delimiter, returns the non-empty fields of the
  input in order, where the fields joined by the delimiter give the input back and none contains
  the delimiter.  For an empty delimiter the loop never returns.\<close>

theorem tokenizer_splits:
  shows "(d \<noteq> [] \<longrightarrow> delimiter_tokens d s = Some (filter (\<lambda>f. f \<noteq> []) (fields d s)) \<and>
      join d (fields d s) = s \<and> (\<forall>f \<in> set (fields d s). \<not> sublist d f)) \<and>
    delimiter_tokens [] s = None"
  using delimiter_loop_eq [of d 0 s "[]"] fields_free [of d _ s]
  by (auto simp: delimiter_tokens_def join_fields delimiter_tokens_empty [unfolded delimiter_tokens_def])

theorem tokenizer_splits_witness: "delimiter_tokens '','' ''ab,,c'' \<noteq> None"
  using tokenizer_splits [of "'',''" "''ab,,c''"] by simp

text \<open>An analyzer that \<open>make\<close> accepts has between 1 and 4096 hashes.  After a \<open>reset\<close>
  that returns, it reports success, and a consumer that calls \<open>next\<close> until it fails reads exactly
  one token \<open>i:v\<close> per hash, \<open>v\<close> being slot \<open>i\<close> of the signature of the input's tokens.\<close>

theorem analyzer_emits_signature:
  assumes "analyzer_make args = Made a"
    and "analyzer_tokens (an_config a) data = Some toks"
    and "4096 \<le> n"
  shows "\<exists>a'. analyzer_reset a data = Some (True, a') \<and>
    analyzer_run n a' = map (\<lambda>i. dec i @ '':'' @ dec (unat (minhash_signature
        (generatePermutationSeeds (ac_numHashes (an_config a)) kMasterSeed) toks ! i)))
      [0..<unat (ac_numHashes (an_config a))] \<and>
    1 \<le> unat (ac_numHashes (an_config a)) \<and> unat (ac_numHashes (an_config a)) \<le> 4096"
proof -
  let ?seeds = "generatePermutationSeeds (ac_numHashes (an_config a)) kMasterSeed"
  let ?sig = "minhash_signature ?seeds toks"
  let ?out = "map (\<lambda>(i, v). dec i @ '':'' @ dec (unat v)) (zip [0..<length ?sig] ?sig)"
  note b = analyzer_make_bounds [OF assms(1)]
  have l: "length ?sig = unat (ac_numHashes (an_config a))" by (simp add: signature_eq generatePermutationSeeds_def)
  then have ne: "?out \<noteq> []" using b by (cases ?sig) auto
  have r: "analyzer_reset a data = Some (True, a\<lparr>an_signatureTokens := ?out, an_currentToken := 0\<rparr>)"
    using ne by (simp add: analyzer_reset_def assms(2) Let_def)
  have out: "?out = map (\<lambda>i. dec i @ '':'' @ dec (unat (?sig ! i))) [0..<unat (ac_numHashes (an_config a))]"
    by (rule nth_equalityI) (simp_all add: l)
  have "analyzer_run n (a\<lparr>an_signatureTokens := ?out, an_currentToken := 0\<rparr>) = ?out"
    using b assms(3) by (subst analyzer_run_drop) (simp_all add: l)
  then show ?thesis unfolding out using r b unfolding out by blast
qed

theorem analyzer_emits_signature_witness:
  \<open>\<exists>a'. analyzer_reset (new_analyzer analyzer_config_init) ''x y'' = Some (True, a')\<close>
proof -
  have m: \<open>analyzer_make ''{}'' = Made (new_analyzer analyzer_config_init)\<close> by (simp add: analyzer_make_def)
  have t: \<open>analyzer_tokens (an_config (new_analyzer analyzer_config_init)) ''x y'' = Some (space_tokens ''x y'')\<close>
    by code_simp
  from analyzer_emits_signature [OF m t order.refl] show ?thesis by blast
qed

end
