(* ===== verification/Topk_Heap.thy ===== *)
theory Topk_Heap
  imports Prelude Complex_Main "HOL-Library.Multiset"
begin

text \<open>
  The heap of the best scores (\<^verbatim>\<open>ScoreThresholdManager\<close> of
  \<^verbatim>\<open>Enterprise/IResearch/IResearchOptimizeTopK.cpp\<close>).  A score is a rational (a finite \<open>float\<close>, which
  the code only compares).  \<open>std::push_heap\<close> and \<open>std::pop_heap\<close> with \<open>std::greater\<close> are
  written out on lists; the manager's lemmas rest on the locale \<open>heap_algorithms\<close>.
\<close>

section \<open>std::push_heap and std::pop_heap\<close>

definition parent :: "nat \<Rightarrow> nat" where "parent i = (i - 1) div 2"

definition swap :: "'a list \<Rightarrow> nat \<Rightarrow> nat \<Rightarrow> 'a list" where
  "swap h i j = h[i := h ! j, j := h ! i]"

lemma parent_less [simp]: "0 < i \<Longrightarrow> parent i < i"
  by (auto simp: parent_def)

fun sift_up :: "'a :: linorder list \<Rightarrow> nat \<Rightarrow> 'a list" where
  "sift_up h i =
     (if i = 0 then h
      else if h ! i < h ! parent i then sift_up (swap h i (parent i)) (parent i) else h)"

declare sift_up.simps [simp del]

lemma sift_up_0: "sift_up h 0 = h"
  by (simp add: sift_up.simps)

definition smaller_child :: "'a :: linorder list \<Rightarrow> nat \<Rightarrow> nat" where
  "smaller_child h i = (if 2 * i + 2 < length h \<and> h ! (2 * i + 2) < h ! (2 * i + 1) then 2 * i + 2 else 2 * i + 1)"

function sift_down :: "'a :: linorder list \<Rightarrow> nat \<Rightarrow> 'a list" where
  "sift_down h i =
     (if 2 * i + 1 < length h \<and> h ! smaller_child h i < h ! i
      then sift_down (swap h i (smaller_child h i)) (smaller_child h i) else h)"
  by pat_completeness auto
termination
  by (relation "measure (\<lambda>(h, i). length h - i)") (auto simp: swap_def smaller_child_def)

declare sift_down.simps [simp del]

text \<open>The last element is pushed onto the heap before it; the first is popped to the end.\<close>

definition push_heap :: "'a :: linorder list \<Rightarrow> 'a list" where
  "push_heap h = sift_up h (length h - 1)"

definition pop_heap :: "'a :: linorder list \<Rightarrow> 'a list" where
  "pop_heap h = (let s = swap h 0 (length h - 1) in sift_down (butlast s) 0 @ [last s])"

section \<open>ScoreThresholdManager\<close>

record threshold_manager =
  tm_k :: nat
  tm_heap :: "rat list"

definition ScoreThresholdManager :: "nat \<Rightarrow> threshold_manager" where
  "ScoreThresholdManager k = \<lparr>tm_k = k, tm_heap = []\<rparr>"

text \<open>\<open>front()\<close> of an empty heap is undefined behaviour: \<open>None\<close>.\<close>

definition heap_front :: "threshold_manager \<Rightarrow> rat option" where
  "heap_front m = (case tm_heap m of [] \<Rightarrow> None | x # _ \<Rightarrow> Some x)"

definition addScore :: "threshold_manager \<Rightarrow> rat \<Rightarrow> (bool \<times> threshold_manager) option" where
  "addScore m score =
     (if length (tm_heap m) < tm_k m
      then Some (True, m\<lparr>tm_heap := push_heap (tm_heap m @ [score])\<rparr>)
      else case heap_front m of
             None \<Rightarrow> None
           | Some front \<Rightarrow>
               if score > front
               then (let h = pop_heap (tm_heap m); h = h[length h - 1 := score]
                     in Some (True, m\<lparr>tm_heap := push_heap h\<rparr>))
               else Some (False, m))"

definition threshold :: "threshold_manager \<Rightarrow> rat option" where
  "threshold m = (if length (tm_heap m) < tm_k m then Some 0 else heap_front m)"

definition tm_size :: "threshold_manager \<Rightarrow> nat" where "tm_size m = length (tm_heap m)"
definition tm_capacity :: "threshold_manager \<Rightarrow> nat" where "tm_capacity m = tm_k m"
definition tm_reset :: "threshold_manager \<Rightarrow> threshold_manager" where "tm_reset m = m\<lparr>tm_heap := []\<rparr>"

section \<open>Heap lemmas\<close>

definition is_heap :: "'a :: linorder list \<Rightarrow> bool" where
  "is_heap h \<longleftrightarrow> (\<forall>i < length h. 0 < i \<longrightarrow> h ! parent i \<le> h ! i)"

lemma length_swap [simp]: "length (swap h i j) = length h"
  by (simp add: swap_def)

lemma nth_swap: "i < length h \<Longrightarrow> j < length h \<Longrightarrow>
  swap h i j ! k = (if k = i then h ! j else if k = j then h ! i else h ! k)"
  by (auto simp: swap_def nth_list_update)

lemma mset_swap: "i < length h \<Longrightarrow> j < length h \<Longrightarrow> mset (swap h i j) = mset h"
  unfolding swap_def by (rule Multiset.mset_swap)

lemma parent_0 [simp]: "parent 0 = 0"
  by (simp add: parent_def)

lemma parent_child: "parent (2 * i + 1) = i" "parent (2 * i + 2) = i" "parent (Suc (2 * i)) = i" "parent (Suc (Suc (2 * i))) = i"
  by (auto simp: parent_def)

lemma child_cases: "0 < j \<Longrightarrow> parent j = i \<Longrightarrow> j = 2 * i + 1 \<or> j = 2 * i + 2"
  unfolding parent_def by presburger

text \<open>A heap except that the element at \<open>i\<close> may be smaller than its parent, respectively
  larger than its children.\<close>

definition heap_up :: "'a :: linorder list \<Rightarrow> nat \<Rightarrow> bool" where
  "heap_up h i \<longleftrightarrow> (\<forall>j < length h. 0 < j \<longrightarrow> j \<noteq> i \<longrightarrow> h ! parent j \<le> h ! j) \<and>
     (\<forall>j < length h. 0 < j \<longrightarrow> 0 < i \<longrightarrow> parent j = i \<longrightarrow> h ! parent i \<le> h ! j)"

definition heap_down :: "'a :: linorder list \<Rightarrow> nat \<Rightarrow> bool" where
  "heap_down h i \<longleftrightarrow> (\<forall>j < length h. 0 < j \<longrightarrow> parent j \<noteq> i \<longrightarrow> h ! parent j \<le> h ! j) \<and>
     (\<forall>j < length h. 0 < j \<longrightarrow> 0 < i \<longrightarrow> parent j = i \<longrightarrow> h ! parent i \<le> h ! j)"

lemma heap_up_step:
  assumes "heap_up h i" and "0 < i" and "i < length h" and "h ! i < h ! parent i"
  shows "heap_up (swap h i (parent i)) (parent i)"
proof -
  have p: "parent i < length h" using parent_less [OF assms(2)] assms(3) by linarith
  note n = nth_swap [OF assms(3) p]
  have a: "j < length h \<Longrightarrow> 0 < j \<Longrightarrow> j \<noteq> i \<Longrightarrow> h ! parent j \<le> h ! j"
    and b: "j < length h \<Longrightarrow> 0 < j \<Longrightarrow> parent j = i \<Longrightarrow> h ! parent i \<le> h ! j" for j
    using assms(1,2) by (auto simp: heap_up_def)
  have 1: "swap h i (parent i) ! parent j \<le> swap h i (parent i) ! j"
    if j: "j < length h" "0 < j" "j \<noteq> parent i" for j
  proof (cases "j = i")
    case True
    then show ?thesis using assms(2,4) by (simp add: n less_imp_le)
  next
    case False
    consider "parent j = i" | "parent j = parent i" "parent j \<noteq> i" | "parent j \<noteq> i" "parent j \<noteq> parent i" by blast
    then show ?thesis
    proof cases
      case 1
      then show ?thesis using b [OF j(1,2)] False j(3) by (simp add: n)
    next
      case 2
      then show ?thesis using a [OF j(1,2) False] assms(4) False j(3) by (auto simp: n)
    next
      case 3
      then show ?thesis using a [OF j(1,2) False] False j(3) by (simp add: n)
    qed
  qed
  have 2: "swap h i (parent i) ! parent (parent i) \<le> swap h i (parent i) ! j"
    if j: "j < length h" "0 < j" "0 < parent i" "parent j = parent i" for j
  proof -
    have pp: "parent (parent i) \<noteq> i" "parent (parent i) \<noteq> parent i"
      using parent_less [OF j(3)] parent_less [OF assms(2)] by linarith+
    have up: "h ! parent (parent i) \<le> h ! parent i"
      using a [of "parent i"] p j(3) parent_less [OF assms(2)] by simp
    show ?thesis
    proof (cases "j = i")
      case True
      then show ?thesis using up pp by (simp add: n)
    next
      case False
      have "j \<noteq> parent i" using j(4) j(3) parent_less [OF j(3)] by auto
      then show ?thesis using up pp a [OF j(1,2) False] j(4) False by (auto simp: n)
    qed
  qed
  show ?thesis unfolding heap_up_def using 1 2 by simp
qed

lemma sift_up_heap: "heap_up h i \<Longrightarrow> i < length h \<Longrightarrow> is_heap (sift_up h i) \<and> mset (sift_up h i) = mset h \<and> length (sift_up h i) = length h"
proof (induction h i rule: sift_up.induct)
  case (1 h i)
  show ?case
  proof (cases "i \<noteq> 0 \<and> h ! i < h ! parent i")
    case True
    then have i: "0 < i" "h ! i < h ! parent i" by auto
    have p: "parent i < length h" using parent_less [OF i(1)] 1(3) by linarith
    have s: "sift_up h i = sift_up (swap h i (parent i)) (parent i)" using True by (subst sift_up.simps) simp
    have nz: "i \<noteq> 0" using i(1) by simp
    have "is_heap (sift_up (swap h i (parent i)) (parent i)) \<and>
        mset (sift_up (swap h i (parent i)) (parent i)) = mset (swap h i (parent i)) \<and>
        length (sift_up (swap h i (parent i)) (parent i)) = length (swap h i (parent i))"
      by (rule 1(1) [OF nz i(2) heap_up_step [OF 1(2) i(1) 1(3) i(2)]]) (simp add: p)
    then show ?thesis unfolding s by (simp add: mset_swap [OF 1(3) p])
  next
    case False
    then have "sift_up h i = h" by (subst sift_up.simps) auto
    moreover have "is_heap h" using 1(2) False by (auto simp: is_heap_def heap_up_def not_less)
    ultimately show ?thesis by simp
  qed
qed


lemma smaller_child_props:
  assumes "2 * i + 1 < length h"
  shows "smaller_child h i < length h" and "parent (smaller_child h i) = i" and "0 < smaller_child h i"
    and "i < smaller_child h i"
    and "j < length h \<Longrightarrow> 0 < j \<Longrightarrow> parent j = i \<Longrightarrow> h ! smaller_child h i \<le> h ! j"
proof -
  show "smaller_child h i < length h" "0 < smaller_child h i" "i < smaller_child h i"
    using assms by (auto simp: smaller_child_def)
  show "parent (smaller_child h i) = i" by (simp add: smaller_child_def parent_child)
  assume j: "j < length h" "0 < j" "parent j = i"
  from child_cases [OF j(2,3)] j(1) show "h ! smaller_child h i \<le> h ! j"
    by (auto simp: smaller_child_def not_less less_imp_le)
qed

lemma heap_down_step:
  fixes h :: "'a :: linorder list" and i :: nat
  defines "c \<equiv> smaller_child h i"
  assumes "heap_down h i" and "2 * i + 1 < length h" and "h ! c < h ! i"
  shows "heap_down (swap h i c) c"
proof -
  note c = smaller_child_props [OF assms(3), folded c_def]
  have i: "i < length h" using assms(3) by linarith
  note n = nth_swap [OF i c(1)]
  have ic: "i \<noteq> c" using c(4) by simp
  have a: "j < length h \<Longrightarrow> 0 < j \<Longrightarrow> parent j \<noteq> i \<Longrightarrow> h ! parent j \<le> h ! j"
    and b: "j < length h \<Longrightarrow> 0 < j \<Longrightarrow> 0 < i \<Longrightarrow> parent j = i \<Longrightarrow> h ! parent i \<le> h ! j" for j
    using assms(2) by (auto simp: heap_down_def)
  have 1: "swap h i c ! parent j \<le> swap h i c ! j" if j: "j < length h" "0 < j" "parent j \<noteq> c" for j
  proof (cases "parent j = i")
    case True
    then show ?thesis using c(5) [OF j(1,2) True] assms(4) ic j(2) parent_less [OF j(2)] by (auto simp: n less_imp_le)
  next
    case False
    then have "j \<noteq> c" using c(2) by auto
    show ?thesis
    proof (cases "j = i")
      case True
      have "0 < i" using j(2) True by simp
      then have "h ! parent i \<le> h ! c" by (rule b [OF c(1) c(3) _ c(2)])
      then show ?thesis using True False ic j(3) by (simp add: n)
    next
      case False': False
      then show ?thesis using a [OF j(1,2) False] False j(3) \<open>j \<noteq> c\<close> by (simp add: n)
    qed
  qed
  have 2: "swap h i c ! parent c \<le> swap h i c ! j" if j: "j < length h" "0 < j" "parent j = c" for j
  proof -
    have "c < j" using parent_less [OF j(2)] j(3) by simp
    then have "j \<noteq> c" "j \<noteq> i" using c(4) by auto
    moreover have "h ! c \<le> h ! j" using a [OF j(1,2)] j(3) ic by auto
    ultimately show ?thesis using ic c(2) by (simp add: n)
  qed
  show ?thesis unfolding heap_down_def using 1 2 by simp
qed

lemma sift_down_heap: "heap_down h i \<Longrightarrow> is_heap (sift_down h i) \<and> mset (sift_down h i) = mset h"
proof (induction h i rule: sift_down.induct)
  case (1 h i)
  show ?case
  proof (cases "2 * i + 1 < length h \<and> h ! smaller_child h i < h ! i")
    case True
    then have s: "sift_down h i = sift_down (swap h i (smaller_child h i)) (smaller_child h i)"
      by (subst sift_down.simps) simp
    have "i < length h" using True by linarith
    then have "mset (swap h i (smaller_child h i)) = mset h"
      using smaller_child_props(1) True by (intro mset_swap) auto
    then show ?thesis unfolding s using 1(1) [OF True] heap_down_step [OF 1(2)] True by auto
  next
    case False
    then have "sift_down h i = h" by (subst sift_down.simps) auto
    moreover have "h ! parent j \<le> h ! j" if "j < length h" "0 < j" for j
    proof (cases "parent j = i")
      case True
      then have l: "2 * i + 1 < length h" using child_cases [OF that(2) True] that(1) by linarith
      then have "h ! i \<le> h ! smaller_child h i" using False by simp
      also have "\<dots> \<le> h ! j" by (rule smaller_child_props(5) [OF l that True])
      finally show ?thesis by (simp add: True)
    next
      case False
      then show ?thesis using 1(2) that by (auto simp: heap_down_def)
    qed
    ultimately show ?thesis by (simp add: is_heap_def)
  qed
qed

lemma is_heap_min: "is_heap h \<Longrightarrow> i < length h \<Longrightarrow> h ! 0 \<le> h ! i"
proof (induction i rule: less_induct)
  case (less i)
  show ?case
  proof (cases "i = 0")
    case False
    then have p: "0 < i" by simp
    have "h ! 0 \<le> h ! parent i" using less parent_less [OF p] by simp
    also have "\<dots> \<le> h ! i" using less.prems p by (simp add: is_heap_def)
    finally show ?thesis .
  qed simp
qed

lemma push_heap_heap:
  assumes "is_heap (butlast h)" and "h \<noteq> []"
  shows "is_heap (push_heap h) \<and> mset (push_heap h) = mset h"
proof -
  have "heap_up h (length h - 1)"
    unfolding heap_up_def
  proof (intro conjI allI impI)
    fix j assume j: "j < length h" "0 < j" "j \<noteq> length h - 1"
    then have "j < length (butlast h)" by simp
    moreover have "parent j < length (butlast h)" using parent_less [OF j(2)] calculation by linarith
    moreover have "butlast h ! parent j \<le> butlast h ! j"
      using assms(1) j(2) \<open>j < length (butlast h)\<close> unfolding is_heap_def by blast
    ultimately show "h ! parent j \<le> h ! j" by (metis nth_butlast)
  next
    fix j assume j: "j < length h" "0 < j" "parent j = length h - 1"
    then show "h ! parent (length h - 1) \<le> h ! j" using parent_less [OF j(2)] by linarith
  qed
  then show ?thesis unfolding push_heap_def using assms(2) by (simp add: sift_up_heap)
qed

lemma pop_heap_heap:
  assumes "is_heap h" and "h \<noteq> []"
  shows "is_heap (butlast (pop_heap h)) \<and> mset (pop_heap h) = mset h \<and> last (pop_heap h) = hd h \<and> pop_heap h \<noteq> []"
proof -
  let ?s = "swap h 0 (length h - 1)"
  have l: "0 < length h" "length h - 1 < length h" using assms(2) by auto
  have ne: "?s \<noteq> []" using assms(2) by (metis length_swap length_0_conv)
  have m: "mset ?s = mset h" by (rule mset_swap [OF l])
  have last_s: "last ?s = hd h" using l ne by (simp add: last_conv_nth nth_swap hd_conv_nth assms(2))
  have nth: "butlast ?s ! j = h ! j" if "j < length h - 1" "0 < j" for j
    using that l by (simp add: nth_butlast nth_swap)
  have "heap_down (butlast ?s) 0"
    unfolding heap_down_def
  proof (intro conjI allI impI)
    fix j assume j: "j < length (butlast ?s)" "0 < j" "parent j \<noteq> 0"
    have "j < length h - 1" "parent j < length h - 1" "0 < parent j"
      using j parent_less [OF j(2)] by auto
    moreover have "h ! parent j \<le> h ! j" using assms(1) j(2) calculation unfolding is_heap_def by auto
    ultimately show "butlast ?s ! parent j \<le> butlast ?s ! j" using j(2) nth by metis
  qed simp
  then have "is_heap (sift_down (butlast ?s) 0)" "mset (sift_down (butlast ?s) 0) = mset (butlast ?s)"
    using sift_down_heap by blast+
  moreover have "mset ?s = mset (butlast ?s) + {#last ?s#}"
    using ne by (metis append_butlast_last_id mset_append mset_single_iff_right mset.simps(1) mset.simps(2) add_mset_add_single empty_neutral(1))
  ultimately show ?thesis using m last_s by (simp add: pop_heap_def Let_def)
qed


text \<open>What the threshold manager relies on: the contract of the two heap algorithms.\<close>

locale heap_algorithms =
  fixes heap :: "'a :: linorder list \<Rightarrow> bool"
    and push :: "'a list \<Rightarrow> 'a list"
    and pop :: "'a list \<Rightarrow> 'a list"
  assumes heap_Nil: "heap []"
    and heap_front_le: "heap h \<Longrightarrow> x \<in> set h \<Longrightarrow> hd h \<le> x"
    and push_ok: "heap (butlast h) \<Longrightarrow> h \<noteq> [] \<Longrightarrow> heap (push h) \<and> mset (push h) = mset h"
    and pop_ok: "heap h \<Longrightarrow> h \<noteq> [] \<Longrightarrow>
      heap (butlast (pop h)) \<and> mset (pop h) = mset h \<and> last (pop h) = hd h \<and> pop h \<noteq> []"
begin

lemma insert_ok: "heap h \<Longrightarrow> heap (push (h @ [x])) \<and> mset (push (h @ [x])) = add_mset x (mset h)"
  using push_ok [of "h @ [x]"] by simp

lemma replace_ok:
  assumes "heap h" and "h \<noteq> []"
  shows "heap (push ((pop h)[length (pop h) - 1 := x])) \<and>
    mset (push ((pop h)[length (pop h) - 1 := x])) = add_mset x (mset h - {#hd h#})"
proof -
  let ?p = "pop h"
  note p = pop_ok [OF assms]
  then have e: "?p = butlast ?p @ [hd h]" by (metis append_butlast_last_id)
  then have u: "?p[length ?p - 1 := x] = butlast ?p @ [x]"
    by (metis length_butlast list_update_length)
  have "mset h = add_mset (hd h) (mset (butlast ?p))"
    using p arg_cong [OF e, of mset] by simp
  then have "mset (butlast ?p) = mset h - {#hd h#}" by simp
  with push_ok [of "butlast ?p @ [x]"] p show ?thesis unfolding u by simp
qed

end

interpretation std_heap: heap_algorithms is_heap push_heap pop_heap
proof
  show "is_heap []" by (simp add: is_heap_def)
  fix h and x :: 'a
  assume h: "is_heap h" "x \<in> set h"
  then obtain i where "i < length h" "h ! i = x" by (auto simp: in_set_conv_nth)
  with is_heap_min [OF h(1)] h(2) show "hd h \<le> x" by (cases h) auto
qed (use push_heap_heap pop_heap_heap in blast)+

section \<open>The best scores\<close>

text \<open>\<open>H\<close> holds the \<open>k\<close> largest elements of \<open>M\<close>.\<close>

definition is_topk :: "nat \<Rightarrow> 'a :: linorder multiset \<Rightarrow> 'a multiset \<Rightarrow> bool" where
  "is_topk k H M \<longleftrightarrow> H \<subseteq># M \<and> size H = min k (size M) \<and> (\<forall>x \<in># H. \<forall>y \<in># M - H. y \<le> x)"

definition best :: "nat \<Rightarrow> 'a :: linorder list \<Rightarrow> 'a list" where
  "best k xs = take k (rev (sort xs))"

lemma is_topk_best:
  assumes "is_topk k H (mset xs)" shows "H = mset (best k xs)"
proof -
  have H: "H \<subseteq># mset xs" "size H = min k (length xs)" "\<forall>x \<in># H. \<forall>y \<in># mset xs - H. y \<le> x"
    using assms by (auto simp: is_topk_def)
  let ?h = "sorted_list_of_multiset H" and ?r = "sorted_list_of_multiset (mset xs - H)"
  have "mset (?r @ ?h) = mset xs" using H(1) by simp
  moreover have "sorted (?r @ ?h)" using H(3) by (simp add: sorted_append)
  ultimately have s: "sort xs = ?r @ ?h" by (metis properties_for_sort)
  have "length ?h = size H" by (metis mset_sorted_list_of_multiset size_mset)
  then have l: "length ?h = min k (length xs)" by (simp add: H(2))
  have "best k xs = rev ?h"
  proof (cases "k \<le> length xs")
    case True
    then show ?thesis using l by (simp add: best_def s)
  next
    case False
    then have "length ?r = 0" using l arg_cong [OF s, of length] by simp
    then show ?thesis using l False by (simp add: best_def s)
  qed
  then show ?thesis by simp
qed

lemma topk_insert:
  assumes "is_topk k H M" and "size H < k" shows "is_topk k (add_mset s H) (add_mset s M)"
proof -
  have "size H = size M" using assms by (simp add: is_topk_def)
  then have "H = M" using assms(1) by (metis is_topk_def mset_subset_size subset_mset.le_neq_trans less_irrefl)
  then show ?thesis using assms by (simp add: is_topk_def)
qed

lemma topk_replace:
  assumes "is_topk k H M" and "size H = k" and "m \<in># H" and "\<forall>x \<in># H. m \<le> x" and "m < s"
  shows "is_topk k (add_mset s (H - {#m#})) (add_mset s M)"
proof -
  have sub: "H \<subseteq># M" and le: "\<forall>x \<in># H. \<forall>y \<in># M - H. y \<le> x" using assms(1) by (auto simp: is_topk_def)
  obtain H' where H': "H = add_mset m H'" using assms(3) by (metis insert_DiffM)
  obtain R where M: "M = H + R" using sub by (metis subset_mset.add_diff_inverse)
  have le': "\<forall>x \<in># H. \<forall>y \<in># R. y \<le> x" using le by (simp add: M)
  have d: "add_mset s M - add_mset s H' = add_mset m R" by (simp add: M H')
  have "\<forall>x \<in># add_mset s H'. \<forall>y \<in># add_mset m R. y \<le> x"
    using le' assms(4,5) unfolding H' by fastforce
  moreover have "size (add_mset s H') = min k (size (add_mset s M))" using assms(2) by (simp add: M H')
  moreover have "add_mset s H' \<subseteq># add_mset s M" by (simp add: M H')
  ultimately show ?thesis unfolding is_topk_def d [symmetric] by (simp add: H')
qed

lemma topk_reject:
  assumes "is_topk k H M" and "size H = k" and "\<forall>x \<in># H. s \<le> x"
  shows "is_topk k H (add_mset s M)"
proof -
  have sub: "H \<subseteq># M" using assms(1) by (simp add: is_topk_def)
  then have "add_mset s M - H = add_mset s (M - H)"
    by (metis add_mset_add_single subset_mset.diff_add_assoc2)
  moreover have "size M \<ge> k" using size_mset_mono [OF sub] assms(2) by simp
  ultimately show ?thesis using assms sub unfolding is_topk_def
    by (auto intro: subset_mset.order_trans)
qed


lemma topk_above:
  assumes "is_topk k H M" and "size H = k" and "M \<subseteq># M'" and "is_topk k H' M'" and "\<forall>x \<in># H. s < x"
  shows "\<forall>x \<in># H'. s < x"
proof (rule ccontr)
  assume "\<not> ?thesis"
  then obtain x0 where x0: "x0 \<in># H'" "x0 \<le> s" by (auto simp: not_less)
  obtain H0 where H0: "H' = add_mset x0 H0" using x0(1) by (metis insert_DiffM)
  obtain R where M': "M' = H' + R" and R: "\<forall>x \<in># H'. \<forall>y \<in># R. y \<le> x"
    using assms(4) unfolding is_topk_def by (metis subset_mset.add_diff_inverse)
  have "H \<subseteq># M'" using assms(1,3) unfolding is_topk_def by (meson subset_mset.order_trans)
  then have "filter_mset (\<lambda>x. x0 < x) H \<subseteq># filter_mset (\<lambda>x. x0 < x) M'" by (rule multiset_filter_mono)
  moreover have "filter_mset (\<lambda>x. x0 < x) H = H"
    using assms(5) x0(2) by (simp add: filter_mset_eq_conv) (meson le_less_trans)
  moreover have "filter_mset (\<lambda>x. x0 < x) R = {#}"
    using R x0(1) by (auto simp: not_less)
  moreover have "filter_mset (\<lambda>x. x0 < x) H' \<subseteq># H0" by (simp add: H0)
  ultimately have "H \<subseteq># H0" unfolding M' by (simp add: H0 subset_mset.order_trans)
  then have "size H \<le> size H0" by (rule size_mset_mono)
  moreover have "size H' \<le> k" using assms(4) by (simp add: is_topk_def)
  ultimately show False using assms(2) by (simp add: H0)
qed

lemma best_cong: "mset (best k xs) = mset (best k ys) \<Longrightarrow> best k xs = best k ys"
proof -
  assume m: "mset (best k xs) = mset (best k ys)"
  have s: "sorted (rev (best k zs))" for zs :: "'a list"
    unfolding best_def by (metis rev_take rev_rev_ident sorted_wrt_drop sorted_sort)
  have "rev (best k xs) = rev (best k ys)"
    using properties_for_sort [OF _ s [of xs], of "rev (best k ys)"] m s [of ys] by (simp add: sorted_sort_id)
  then show ?thesis by simp
qed

text \<open>The documents of the \<open>k\<close> best scores, all above a bound, are at least \<open>k\<close> documents above it.\<close>

lemma best_above:
  assumes "\<forall>v \<in> set (best k (map g xs)). b < v" and "k \<le> length xs"
  shows "k \<le> length (filter (\<lambda>x. b < g x) xs)"
proof -
  have "mset (best k (map g xs)) \<subseteq># mset (map g xs)"
    unfolding best_def by (metis append_take_drop_id mset_append mset_rev mset_sort mset_subset_eq_add_left)
  then have "filter_mset ((<) b) (mset (best k (map g xs))) \<subseteq># filter_mset ((<) b) (mset (map g xs))"
    by (rule multiset_filter_mono)
  moreover have "filter_mset ((<) b) (mset (best k (map g xs))) = mset (best k (map g xs))"
    using assms(1) by (simp add: filter_mset_eq_conv)
  ultimately have "size (mset (best k (map g xs))) \<le> size (filter_mset ((<) b) (mset (map g xs)))"
    by (metis size_mset_mono)
  moreover have "size (filter_mset ((<) b) (mset (map g xs))) = length (filter (\<lambda>x. b < g x) xs)"
    by (induction xs) auto
  ultimately show ?thesis using assms(2) by (simp add: best_def)
qed

section \<open>Sorting and cutting\<close>

text \<open>The first \<open>k\<close> elements of a sorted list, when only elements with \<open>k\<close> smaller ones were left out.\<close>

lemma subseq_filter:
  assumes "distinct xs" and "subseq ys xs"
  shows "ys = filter (\<lambda>x. x \<in> set ys) xs"
  using assms(2,1)
proof (induction rule: list_emb.induct)
  case (list_emb_Cons xs ys y)
  then have "set xs \<subseteq> set ys" by (auto elim: list_emb_set)
  then have "y \<notin> set xs" using list_emb_Cons.prems by auto
  then show ?case using list_emb_Cons by simp
next
  case (list_emb_Cons2 x y xs ys)
  then have "x = y" "x \<notin> set ys" by simp_all
  then have "filter (\<lambda>z. z = x \<or> z \<in> set xs) ys = filter (\<lambda>z. z \<in> set xs) ys" by (intro filter_cong) auto
  then show ?case using list_emb_Cons2 by simp
qed simp

lemma length_filter_mono: "(\<And>x. x \<in> set xs \<Longrightarrow> P x \<Longrightarrow> Q x) \<Longrightarrow> length (filter P xs) \<le> length (filter Q xs)"
  by (induction xs) auto

lemma take_filter_all:
  assumes "\<forall>i < k. i < length xs \<longrightarrow> P (xs ! i)"
  shows "take k (filter P xs) = take k xs"
proof -
  have "filter P (take k xs) = take k xs" using assms by (auto simp: filter_id_conv in_set_conv_nth)
  then have "filter P xs = take k xs @ filter P (drop k xs)" by (metis append_take_drop_id filter_append)
  then show ?thesis by (cases "k \<le> length xs") (simp_all add: take_append)
qed

lemma take_sort_key_filter:
  assumes "\<forall>x \<in> set xs. \<not> P x \<longrightarrow> k \<le> length (filter (\<lambda>y. f y < f x) xs)"
  shows "take k (sort_key f (filter P xs)) = take k (sort_key f xs)"
proof -
  let ?ys = "sort_key f xs"
  have "P (?ys ! i)" if "i < k" "i < length ?ys" for i
  proof (rule ccontr)
    assume "\<not> P (?ys ! i)"
    then have "k \<le> length (filter (\<lambda>y. f y < f (?ys ! i)) xs)" using assms that(2) by (metis nth_mem set_sort)
    also have "\<dots> = length (filter (\<lambda>y. f y < f (?ys ! i)) ?ys)"
      by (metis mset_filter mset_sort size_mset)
    also have "\<dots> = card {j. j < length ?ys \<and> f (?ys ! j) < f (?ys ! i)}" by (rule length_filter_conv_card)
    also have "\<dots> \<le> card {..<i}"
    proof (rule card_mono)
      have "\<not> i \<le> j" if "j < length ?ys" "f (?ys ! j) < f (?ys ! i)" for j
        using sorted_nth_mono [of "map f ?ys" i j] that by (auto dest: leD)
      then show "{j. j < length ?ys \<and> f (?ys ! j) < f (?ys ! i)} \<subseteq> {..<i}" by (auto simp: not_le)
    qed simp
    finally show False using that(1) by simp
  qed
  then show ?thesis by (simp add: filter_sort [symmetric] take_filter_all)
qed

section \<open>The manager keeps the best scores\<close>

definition manager_ok :: "threshold_manager \<Rightarrow> rat list \<Rightarrow> bool" where
  "manager_ok m xs \<longleftrightarrow> 0 < tm_k m \<and> is_heap (tm_heap m) \<and> is_topk (tm_k m) (mset (tm_heap m)) (mset xs)"

lemma manager_init: "0 < k \<Longrightarrow> manager_ok (ScoreThresholdManager k) []"
  by (simp add: manager_ok_def ScoreThresholdManager_def is_topk_def is_heap_def)

lemma manager_size: "manager_ok m xs \<Longrightarrow> length (tm_heap m) = min (tm_k m) (length xs)"
  by (simp add: manager_ok_def is_topk_def)

lemma manager_front:
  assumes "manager_ok m xs" and "\<not> length (tm_heap m) < tm_k m"
  obtains f where "heap_front m = Some f" "f \<in># mset (tm_heap m)" "\<forall>x \<in># mset (tm_heap m). f \<le> x"
    "hd (tm_heap m) = f" "tm_heap m \<noteq> []"
  using assms std_heap.heap_front_le [of "tm_heap m"]
  by (cases "tm_heap m") (auto simp: manager_ok_def heap_front_def)

lemma addScore_ok:
  assumes "manager_ok m xs"
  obtains b m' where "addScore m s = Some (b, m')" "tm_k m' = tm_k m" "manager_ok m' (s # xs)"
    "b \<longleftrightarrow> length xs < tm_k m \<or> (\<exists>x \<in> set (tm_heap m). x < s)"
proof -
  have k: "0 < tm_k m" "is_heap (tm_heap m)" "is_topk (tm_k m) (mset (tm_heap m)) (mset xs)"
    using assms by (auto simp: manager_ok_def)
  note sz = manager_size [OF assms]
  show ?thesis
  proof (cases "length (tm_heap m) < tm_k m")
    case True
    then have "length xs < tm_k m" using sz by simp
    then show ?thesis
      using that [of True "m\<lparr>tm_heap := push_heap (tm_heap m @ [s])\<rparr>"] True k
        std_heap.insert_ok [OF k(2), of s] topk_insert [OF k(3), of s]
      by (simp add: addScore_def manager_ok_def)
  next
    case False
    then obtain f where f: "heap_front m = Some f" "f \<in># mset (tm_heap m)" "\<forall>x \<in># mset (tm_heap m). f \<le> x"
      "hd (tm_heap m) = f" "tm_heap m \<noteq> []" by (rule manager_front [OF assms])
    have full: "size (mset (tm_heap m)) = tm_k m" "\<not> length xs < tm_k m" using False sz by auto
    show ?thesis
    proof (cases "f < s")
      case True
      then have "\<exists>x \<in> set (tm_heap m). x < s" using f(2) by auto
      with std_heap.replace_ok [OF k(2) f(5), of s] topk_replace [OF k(3) full(1) f(2,3) True] show ?thesis
        using that [of True] False True k f
        by (simp add: addScore_def manager_ok_def Let_def)
    next
      case nless: False
      then have "\<not> (\<exists>x \<in> set (tm_heap m). x < s)" "\<forall>x \<in># mset (tm_heap m). s \<le> x"
        using f(3) by (auto simp: not_less intro: order_trans)
      with topk_reject [OF k(3) full(1), of s] show ?thesis
        using that [of False m] False nless k f full by (simp add: addScore_def manager_ok_def)
    qed
  qed
qed

lemma threshold_ok:
  assumes "manager_ok m xs"
  obtains th where "threshold m = Some th"
    "length xs < tm_k m \<longrightarrow> th = 0"
    "\<not> length xs < tm_k m \<longrightarrow> th \<in> set (tm_heap m) \<and> (\<forall>x \<in> set (tm_heap m). th \<le> x)"
proof (cases "length (tm_heap m) < tm_k m")
  case True
  moreover have "length xs < tm_k m" using True manager_size [OF assms] by simp
  ultimately show ?thesis using that [of 0] by (simp add: threshold_def)
next
  case False
  then obtain f where f: "heap_front m = Some f" "f \<in># mset (tm_heap m)" "\<forall>x \<in># mset (tm_heap m). f \<le> x"
    by (rule manager_front [OF assms])
  moreover have "\<not> length xs < tm_k m" using False manager_size [OF assms] by simp
  ultimately show ?thesis using that [of f] False by (simp add: threshold_def)
qed


section \<open>Scores submitted one after the other\<close>


fun addScores :: "threshold_manager \<Rightarrow> rat list \<Rightarrow> threshold_manager option" where
  "addScores m [] = Some m"
| "addScores m (s # xs) = (case addScore m s of None \<Rightarrow> None | Some (_, m') \<Rightarrow> addScores m' xs)"

lemma addScores_ok:
  "manager_ok m ys \<Longrightarrow> \<exists>m'. addScores m xs = Some m' \<and> tm_k m' = tm_k m \<and> manager_ok m' (rev xs @ ys)"
proof (induction xs arbitrary: m ys)
  case (Cons s xs)
  obtain b m' where m': "addScore m s = Some (b, m')" "tm_k m' = tm_k m" "manager_ok m' (s # ys)"
    by (rule addScore_ok [OF Cons.prems])
  from Cons.IH [OF m'(3)] m' show ?case by simp
qed simp

lemma best_last_least: "x \<in> set (best k xs) \<Longrightarrow> List.last (best k xs) \<le> x"
proof -
  assume x: "x \<in> set (best k xs)"
  have "sorted (rev (best k xs))" unfolding best_def by (metis rev_take rev_rev_ident sorted_wrt_drop sorted_sort)
  with x show ?thesis by (cases "best k xs" rule: rev_cases) auto
qed

text \<open>After any sequence of scores, with a capacity above 0, no operation fails: the heap
  holds exactly the \<open>k\<close> best scores (all of them while fewer were seen), and the threshold is 0
  until \<open>k\<close> scores were seen and the \<open>k\<close>-th best from then on.\<close>

theorem threshold_is_kth_best:
  assumes "0 < k"
  shows "\<exists>m. addScores (ScoreThresholdManager k) xs = Some m \<and>
    tm_capacity m = k \<and> mset (tm_heap m) = mset (best k xs) \<and>
    threshold m = Some (if length xs < k then 0 else List.last (best k xs))"
proof -
  obtain m where m: "addScores (ScoreThresholdManager k) xs = Some m" "tm_k m = k" "manager_ok m (rev xs)"
    using addScores_ok [OF manager_init [OF assms], of xs] by (auto simp: ScoreThresholdManager_def)
  have "is_topk k (mset (tm_heap m)) (mset xs)" using m(2,3) by (simp add: manager_ok_def)
  then have h: "mset (tm_heap m) = mset (best k xs)" by (rule is_topk_best)
  obtain th where th: "threshold m = Some th" "length (rev xs) < tm_k m \<longrightarrow> th = 0"
    "\<not> length (rev xs) < tm_k m \<longrightarrow> th \<in> set (tm_heap m) \<and> (\<forall>x \<in> set (tm_heap m). th \<le> x)"
    by (rule threshold_ok [OF m(3)])
  have "th = List.last (best k xs)" if "\<not> length xs < k"
  proof -
    have s: "set (tm_heap m) = set (best k xs)" using h by (metis set_mset_mset)
    have "length (best k xs) = k" using that by (simp add: best_def)
    then have ne: "best k xs \<noteq> []" using assms by auto
    have "\<forall>x \<in> set (best k xs). List.last (best k xs) \<le> x" using best_last_least by blast
    moreover have "List.last (best k xs) \<in> set (best k xs)" using ne by simp
    ultimately show ?thesis using th(3) that m(2) s by (intro order.antisym) auto
  qed
  then show ?thesis using m h th by (auto simp: tm_capacity_def)
qed

theorem threshold_is_kth_best_witness:
  "\<exists>m. addScores (ScoreThresholdManager 3) [5, 3, 8, 10] = Some m \<and> mset (tm_heap m) = {#10, 8, 5#} \<and> threshold m = Some 5"
proof -
  have b: "best 3 [5, 3, 8, 10 :: rat] = [10, 8, 5]" by (simp add: best_def)
  from threshold_is_kth_best [of 3 "[5, 3, 8, 10]"] show ?thesis by (auto simp: b simp del: addScores.simps)
qed

end
