(* ===== verification/TopK.thy ===== *)
theory TopK
  imports Topk_Heap "HOL-Library.Sublist"
begin

text \<open>
  Early termination of top-k queries (\<^verbatim>\<open>Enterprise/IResearch/IResearchOptimizeTopK.cpp\<close>): the iterator
  that skips documents whose bound is below the threshold, over any posting list (locale
  \<open>posting_list\<close>), interpreted on the list-backed iterator of the tests.
\<close>

section \<open>ScoredDocIterator and WandIterator\<close>

text \<open>The virtual functions of \<open>ScoredDocIterator\<close>, over a state \<open>'i\<close>.  \<open>next\<close>, \<open>seek\<close>,
  \<open>score\<close> and \<open>maxScore\<close> are not \<open>const\<close>, so they return the new state.\<close>

record 'i doc_iterator =
  it_next :: "'i \<Rightarrow> bool \<times> 'i"
  it_value :: "'i \<Rightarrow> u64"
  it_seek :: "'i \<Rightarrow> u64 \<Rightarrow> u64 \<times> 'i"
  it_score :: "'i \<Rightarrow> rat \<times> 'i"
  it_maxScore :: "'i \<Rightarrow> rat \<times> 'i"

record 'i wand =
  wd_inner :: 'i
  wd_manager :: threshold_manager
  wd_skipped :: nat

definition WandIterator :: "'i \<Rightarrow> threshold_manager \<Rightarrow> 'i wand" where
  "WandIterator inner manager = \<lparr>wd_inner = inner, wd_manager = manager, wd_skipped = 0\<rparr>"

text \<open>\<open>next\<close> loops until the inner iterator ends; \<open>None\<close> is a call that does not return or
  reads the front of an empty heap.\<close>

partial_function (option) wand_next :: "'i doc_iterator \<Rightarrow> 'i wand \<Rightarrow> (bool \<times> 'i wand) option" where
  "wand_next it w =
     (case it_next it (wd_inner w) of (found, i) \<Rightarrow>
        if \<not> found then Some (False, w\<lparr>wd_inner := i\<rparr>)
        else
          (case it_maxScore it i of (mx, i) \<Rightarrow>
             (case threshold (wd_manager w) of
                None \<Rightarrow> None
              | Some th \<Rightarrow>
                  if mx \<ge> th then Some (True, w\<lparr>wd_inner := i\<rparr>)
                  else wand_next it (w\<lparr>wd_inner := i, wd_skipped := wd_skipped w + 1\<rparr>))))"

definition wand_value :: "'i doc_iterator \<Rightarrow> 'i wand \<Rightarrow> u64" where
  "wand_value it w = it_value it (wd_inner w)"

definition wand_seek :: "'i doc_iterator \<Rightarrow> 'i wand \<Rightarrow> u64 \<Rightarrow> (u64 \<times> 'i wand) option" where
  "wand_seek it w target =
     (case it_seek it (wd_inner w) target of (docId, i) \<Rightarrow>
        if docId = 0 then Some (docId, w\<lparr>wd_inner := i\<rparr>)
        else (case it_maxScore it i of (mx, i) \<Rightarrow>
          (case threshold (wd_manager w) of
             None \<Rightarrow> None
           | Some th \<Rightarrow>
               if mx < th
               then (case wand_next it (w\<lparr>wd_inner := i\<rparr>) of
                       None \<Rightarrow> None
                     | Some (False, w') \<Rightarrow> Some (0, w')
                     | Some (True, w') \<Rightarrow> Some (it_value it (wd_inner w'), w'))
               else Some (docId, w\<lparr>wd_inner := i\<rparr>))))"

definition wand_score :: "'i doc_iterator \<Rightarrow> 'i wand \<Rightarrow> (rat \<times> 'i wand) option" where
  "wand_score it w =
     (case it_score it (wd_inner w) of (s, i) \<Rightarrow>
        (case addScore (wd_manager w) s of
           None \<Rightarrow> None
         | Some (_, m) \<Rightarrow> Some (s, w\<lparr>wd_inner := i, wd_manager := m\<rparr>)))"

definition wand_maxScore :: "'i doc_iterator \<Rightarrow> 'i wand \<Rightarrow> rat \<times> 'i wand" where
  "wand_maxScore it w = (case it_maxScore it (wd_inner w) of (mx, i) \<Rightarrow> (mx, w\<lparr>wd_inner := i\<rparr>))"

definition skippedCount :: "'i wand \<Rightarrow> nat" where "skippedCount w = wd_skipped w"

section \<open>Early termination is exact\<close>

type_synonym scored_doc = "u64 \<times> rat \<times> rat"

abbreviation doc_score :: "scored_doc \<Rightarrow> rat" where "doc_score d \<equiv> fst (snd d)"
abbreviation doc_max :: "scored_doc \<Rightarrow> rat" where "doc_max d \<equiv> snd (snd d)"

text \<open>The consumer of an iterator: it scores every document \<open>next\<close> stops at.  At most \<open>n\<close>
  calls of \<open>next\<close>; \<open>None\<close> when they do not suffice.\<close>

fun wand_run :: "nat \<Rightarrow> 'i doc_iterator \<Rightarrow> 'i wand \<Rightarrow> ((u64 \<times> rat) list \<times> 'i wand) option" where
  "wand_run 0 it w = None"
| "wand_run (Suc n) it w =
     (case wand_next it w of
        None \<Rightarrow> None
      | Some (found, w1) \<Rightarrow>
          if \<not> found then Some ([], w1)
          else (case wand_score it w1 of
                  None \<Rightarrow> None
                | Some (s, w2) \<Rightarrow>
                    (case wand_run n it w2 of
                       None \<Rightarrow> None
                     | Some (r, w3) \<Rightarrow> Some ((wand_value it w2, s) # r, w3))))"

text \<open>What the iterator relies on: the wrapped iterator walks a finite list of documents, and
  reading the score or its bound does not move it.\<close>

locale posting_list =
  fixes it :: "'i doc_iterator"
    and docs :: "'i \<Rightarrow> scored_doc list"
    and cur :: "'i \<Rightarrow> scored_doc option"
  assumes next_end: "docs i = [] \<Longrightarrow> \<not> fst (it_next it i)"
    and next_doc: "docs i = d # ds \<Longrightarrow> \<exists>i'. it_next it i = (True, i') \<and> docs i' = ds \<and> cur i' = Some d"
    and value_cur: "cur i = Some d \<Longrightarrow> it_value it i = fst d"
    and score_cur: "cur i = Some d \<Longrightarrow> \<exists>i'. it_score it i = (doc_score d, i') \<and> docs i' = docs i \<and> cur i' = Some d"
    and maxScore_cur: "cur i = Some d \<Longrightarrow> \<exists>i'. it_maxScore it i = (doc_max d, i') \<and> docs i' = docs i \<and> cur i' = Some d"
begin

text \<open>\<open>next\<close> stops at the first document whose bound reaches the threshold.\<close>

lemma wand_next_eq:
  assumes "threshold (wd_manager w) = Some th"
  shows "\<exists>w'. wand_next it w = Some (dropWhile (\<lambda>d. doc_max d < th) (docs (wd_inner w)) \<noteq> [], w') \<and>
    wd_manager w' = wd_manager w \<and>
    wd_skipped w' = wd_skipped w + length (takeWhile (\<lambda>d. doc_max d < th) (docs (wd_inner w))) \<and>
    (case dropWhile (\<lambda>d. doc_max d < th) (docs (wd_inner w)) of
       [] \<Rightarrow> True | d # ds \<Rightarrow> docs (wd_inner w') = ds \<and> cur (wd_inner w') = Some d)"
  using assms
proof (induction "docs (wd_inner w)" arbitrary: w)
  case Nil
  then obtain i where "it_next it (wd_inner w) = (False, i)" using next_end [of "wd_inner w"] by (cases "it_next it (wd_inner w)") auto
  then show ?case by (subst wand_next.simps) (simp add: Nil(1) [symmetric])
next
  case (Cons d ds)
  obtain i where i: "it_next it (wd_inner w) = (True, i)" "docs i = ds" "cur i = Some d"
    using next_doc [OF Cons(2) [symmetric]] by blast
  obtain i2 where i2: "it_maxScore it i = (doc_max d, i2)" "docs i2 = ds" "cur i2 = Some d"
    using maxScore_cur [OF i(3)] i(2) by auto
  show ?case
  proof (cases "doc_max d < th")
    case True
    let ?w = "w\<lparr>wd_inner := i2, wd_skipped := wd_skipped w + 1\<rparr>"
    have "wand_next it w = wand_next it ?w"
      using True by (subst wand_next.simps) (simp add: i i2 Cons(3) leD)
    then show ?thesis using Cons(1) [of ?w] True Cons(3) by (simp add: i2 Cons(2) [symmetric])
  next
    case False
    then show ?thesis
      by (subst wand_next.simps) (simp add: i i2 Cons(2) [symmetric] Cons(3) not_less)
  qed
qed

lemma skipped_rejected:
  assumes "manager_ok m xs" and "threshold m = Some th" and "doc_score d < th" and "0 \<le> doc_score d"
  shows "manager_ok m (doc_score d # xs) \<and> \<not> length xs < tm_k m \<and> (\<forall>x \<in> set (tm_heap m). doc_score d < x)"
proof -
  obtain th' where th': "threshold m = Some th'" "length xs < tm_k m \<longrightarrow> th' = 0"
    "\<not> length xs < tm_k m \<longrightarrow> th' \<in> set (tm_heap m) \<and> (\<forall>x \<in> set (tm_heap m). th' \<le> x)"
    by (rule threshold_ok [OF assms(1)])
  then have t: "\<not> length xs < tm_k m" "\<forall>x \<in> set (tm_heap m). th \<le> x" using assms(2-4) by auto
  then have lt: "\<forall>x \<in> set (tm_heap m). doc_score d < x" using assms(3) by auto
  then show ?thesis
    using t assms(1) topk_reject [of "tm_k m" "mset (tm_heap m)" "mset xs" "doc_score d"] manager_size [OF assms(1)]
    by (auto simp: manager_ok_def less_imp_le)
qed

lemma skip_all:
  assumes "manager_ok m xs" and "threshold m = Some th"
    and "\<forall>d \<in> set ds. doc_score d < th \<and> 0 \<le> doc_score d"
  shows "manager_ok m (rev (map doc_score ds) @ xs) \<and>
    (ds \<noteq> [] \<longrightarrow> \<not> length xs < tm_k m) \<and> (\<forall>d \<in> set ds. \<forall>x \<in> set (tm_heap m). doc_score d < x)"
  using assms(3)
proof (induction ds rule: rev_induct)
  case Nil
  then show ?case using assms(1) by simp
next
  case (snoc d ds)
  then have ih: "manager_ok m (rev (map doc_score ds) @ xs)"
    "\<forall>d \<in> set ds. \<forall>x \<in> set (tm_heap m). doc_score d < x" by auto
  moreover have "manager_ok m (doc_score d # (rev (map doc_score ds) @ xs)) \<and> (\<forall>x \<in> set (tm_heap m). doc_score d < x)"
    using skipped_rejected [OF ih(1) assms(2), of d] snoc.prems by simp
  moreover have "\<not> length xs < tm_k m"
    using skipped_rejected [OF assms(1) assms(2), of d] snoc.prems by simp
  ultimately show ?case by auto
qed

end


context posting_list
begin

lemma wand_run_exact:
  assumes "manager_ok (wd_manager w) xs" and "manager_ok (wd_manager w) ys"
    and "\<forall>d \<in> set (docs (wd_inner w)). 0 \<le> doc_score d \<and> doc_score d \<le> doc_max d"
    and "length (docs (wd_inner w)) < n"
  shows "\<exists>r w'. wand_run n it w = Some (r, w') \<and> tm_k (wd_manager w') = tm_k (wd_manager w) \<and>
    manager_ok (wd_manager w') (rev (map doc_score (docs (wd_inner w))) @ xs) \<and>
    manager_ok (wd_manager w') (rev (map snd r) @ ys) \<and>
    subseq r (map (\<lambda>d. (fst d, doc_score d)) (docs (wd_inner w))) \<and>
    wd_skipped w' + length r = wd_skipped w + length (docs (wd_inner w)) \<and>
    (\<forall>d \<in> set (docs (wd_inner w)). (fst d, doc_score d) \<in> set r \<or> (\<forall>x \<in> set (tm_heap (wd_manager w')). doc_score d < x))"
  using assms
proof (induction n arbitrary: w xs ys)
  case 0
  then show ?case by simp
next
  case (Suc n)
  let ?m = "wd_manager w" and ?ds = "docs (wd_inner w)"
  obtain th where th: "threshold ?m = Some th" by (rule threshold_ok [OF Suc.prems(1)])
  define sk where "sk = takeWhile (\<lambda>d. doc_max d < th) ?ds"
  define rest where "rest = dropWhile (\<lambda>d. doc_max d < th) ?ds"
  have ds: "?ds = sk @ rest" by (simp add: sk_def rest_def)
  have sk: "\<forall>d \<in> set sk. doc_score d < th \<and> 0 \<le> doc_score d"
  proof
    fix d assume "d \<in> set sk"
    then have "doc_max d < th" "d \<in> set ?ds" unfolding sk_def by (auto dest: set_takeWhileD)
    with Suc.prems(3) show "doc_score d < th \<and> 0 \<le> doc_score d" by fastforce
  qed
  note sa = skip_all [OF Suc.prems(1) th sk]
  obtain w1 where w1: "wand_next it w = Some (rest \<noteq> [], w1)" "wd_manager w1 = ?m"
    "wd_skipped w1 = wd_skipped w + length sk"
    "case rest of [] \<Rightarrow> True | d # ds \<Rightarrow> docs (wd_inner w1) = ds \<and> cur (wd_inner w1) = Some d"
    using wand_next_eq [OF th] unfolding sk_def rest_def by blast
  show ?case
  proof (cases rest)
    case Nil
    then show ?thesis using w1 sa Suc.prems(2) by (simp add: ds)
  next
    case (Cons d ds')
    from w1(4) have dc: "docs (wd_inner w1) = ds'" "cur (wd_inner w1) = Some d" by (simp_all add: Cons)
    obtain i2 where i2: "it_score it (wd_inner w1) = (doc_score d, i2)" "docs i2 = ds'" "cur i2 = Some d"
      using score_cur [OF dc(2)] dc(1) by auto
    obtain b m' where m': "addScore ?m (doc_score d) = Some (b, m')" "tm_k m' = tm_k ?m"
      "manager_ok m' (doc_score d # (rev (map doc_score sk) @ xs))"
      using sa addScore_ok [of ?m "rev (map doc_score sk) @ xs" "doc_score d"] by metis
    have m'y: "manager_ok m' (doc_score d # ys)"
      using addScore_ok [OF Suc.prems(2), of "doc_score d"] m'(1) by (metis option.inject prod.inject)
    let ?w2 = "w1\<lparr>wd_inner := i2, wd_manager := m'\<rparr>"
    have sc: "wand_score it w1 = Some (doc_score d, ?w2)" by (simp add: wand_score_def i2(1) w1(2) m'(1))
    have "\<forall>d \<in> set (docs (wd_inner ?w2)). 0 \<le> doc_score d \<and> doc_score d \<le> doc_max d"
      using Suc.prems(3) by (simp add: i2 ds Cons)
    moreover have "length (docs (wd_inner ?w2)) < n" using Suc.prems(4) by (simp add: i2 ds Cons)
    moreover have m2: "wd_manager ?w2 = m'" by simp
    ultimately obtain r w' where r: "wand_run n it ?w2 = Some (r, w')" "tm_k (wd_manager w') = tm_k m'"
      "manager_ok (wd_manager w') (rev (map doc_score ds') @ doc_score d # (rev (map doc_score sk) @ xs))"
      "manager_ok (wd_manager w') (rev (map snd r) @ doc_score d # ys)"
      "subseq r (map (\<lambda>d. (fst d, doc_score d)) ds')"
      "wd_skipped w' + length r = wd_skipped w1 + length ds'"
      "\<forall>d \<in> set ds'. (fst d, doc_score d) \<in> set r \<or> (\<forall>x \<in> set (tm_heap (wd_manager w')). doc_score d < x)"
      using Suc.IH [of ?w2 "doc_score d # (rev (map doc_score sk) @ xs)" "doc_score d # ys"] m'(3) m'y
      by (auto simp: i2(2))
    have skipped: "\<forall>x \<in> set (tm_heap (wd_manager w')). doc_score e < x" if e: "e \<in> set sk" for e
    proof -
      have ne: "sk \<noteq> []" using e by auto
      have full: "size (mset (tm_heap ?m)) = tm_k ?m" using sa ne manager_size [OF Suc.prems(1)] by simp
      have above: "\<forall>x \<in># mset (tm_heap ?m). doc_score e < x" using sa e by simp
      have t1: "is_topk (tm_k ?m) (mset (tm_heap ?m)) (mset ys)" using Suc.prems(2) by (simp add: manager_ok_def)
      have t2: "is_topk (tm_k ?m) (mset (tm_heap (wd_manager w'))) (mset (rev (map snd r) @ doc_score d # ys))"
        using r(4) by (simp add: manager_ok_def r(2) m'(2))
      have "mset ys \<subseteq># mset (rev (map snd r) @ doc_score d # ys)" by (simp add: subset_mset.add_increasing)
      from topk_above [OF t1 full this t2 above] show ?thesis by simp
    qed
    have v: "wand_value it ?w2 = fst d" using value_cur [OF i2(3)] by (simp add: wand_value_def)
    have run: "wand_run (Suc n) it w = Some ((fst d, doc_score d) # r, w')"
      using w1(1) by (simp add: Cons sc r(1) v)
    have sub: "subseq ((fst d, doc_score d) # r) (map (\<lambda>d. (fst d, doc_score d)) ?ds)"
      unfolding ds Cons map_append by (rule subseq_drop_many) (simp add: r(5))
    show ?thesis
      using run r(2-4,6,7) m'(2) sub skipped w1(3) by (intro exI [of _ "(fst d, doc_score d) # r"] exI [of _ w']) (auto simp: ds Cons)
  qed
qed

end


section \<open>A list-backed iterator\<close>

text \<open>\<open>MockScoredDocIterator\<close> of \<^verbatim>\<open>tests/unit/IResearchOptimizeTopKTest.cpp\<close>, the only
  iterator of the repository to wrap.  \<open>li_next\<close> is \<open>_pos + 1\<close>.  Its \<open>seek\<close> reads past the
  vector when no document is left; the model returns 0 there.\<close>

record list_iterator =
  li_docs :: "scored_doc list"
  li_next :: nat

definition list_iterator_at :: "list_iterator \<Rightarrow> scored_doc option" where
  "list_iterator_at i = (if 0 < li_next i \<and> li_next i \<le> length (li_docs i) then Some (li_docs i ! (li_next i - 1)) else None)"

definition list_iterator_ops :: "list_iterator doc_iterator" where
  "list_iterator_ops = \<lparr>
     it_next = (\<lambda>i. (li_next i < length (li_docs i), i\<lparr>li_next := li_next i + 1\<rparr>)),
     it_value = (\<lambda>i. case list_iterator_at i of None \<Rightarrow> 0 | Some d \<Rightarrow> fst d),
     it_seek = (\<lambda>i target.
       let sk = length (takeWhile (\<lambda>d. fst d < target) (drop (li_next i) (li_docs i)));
           n = li_next i + sk
       in if n < length (li_docs i) then (fst (li_docs i ! n), i\<lparr>li_next := n + 1\<rparr>)
          else (0, i\<lparr>li_next := max (li_next i) (length (li_docs i))\<rparr>)),
     it_score = (\<lambda>i. (case list_iterator_at i of None \<Rightarrow> 0 | Some d \<Rightarrow> doc_score d, i)),
     it_maxScore = (\<lambda>i. (case list_iterator_at i of None \<Rightarrow> 0 | Some d \<Rightarrow> doc_max d, i))\<rparr>"

definition list_iterator_docs :: "list_iterator \<Rightarrow> scored_doc list" where
  "list_iterator_docs i = drop (li_next i) (li_docs i)"

interpretation list_posting: posting_list list_iterator_ops list_iterator_docs list_iterator_at
proof
  fix i d ds
  assume "list_iterator_docs i = d # ds"
  then have e: "drop (li_next i) (li_docs i) = d # ds" by (simp add: list_iterator_docs_def)
  then have l: "li_next i < length (li_docs i)" by (metis drop_eq_Nil list.distinct(1) not_less)
  moreover have "li_docs i ! li_next i = d \<and> drop (Suc (li_next i)) (li_docs i) = ds"
    using e l by (metis Cons_nth_drop_Suc list.inject)
  ultimately show "\<exists>i'. it_next list_iterator_ops i = (True, i') \<and> list_iterator_docs i' = ds \<and> list_iterator_at i' = Some d"
    by (simp add: list_iterator_ops_def list_iterator_docs_def list_iterator_at_def)
qed (auto simp: list_iterator_ops_def list_iterator_docs_def)

section \<open>Results of a scan\<close>

text \<open>Early termination returns exact results: for a finite posting list whose scores are not
  negative and are bounded by the reported maximum, a consumer that scores every document the
  iterator stops at ends; the \<open>k\<close> best scores among the scored documents are the \<open>k\<close> best of all
  documents, the scored documents come in posting-list order, every document left out is counted
  as skipped, and its score is below every score kept.\<close>

lemma early_termination_exact:
  assumes "0 < k" and "\<forall>d \<in> set ds. 0 \<le> doc_score d \<and> doc_score d \<le> doc_max d" and "length ds < n"
  shows "\<exists>r w. wand_run n list_iterator_ops
        (WandIterator \<lparr>li_docs = ds, li_next = 0\<rparr> (ScoreThresholdManager k)) = Some (r, w) \<and>
      best k (map snd r) = best k (map doc_score ds) \<and>
      subseq r (map (\<lambda>d. (fst d, doc_score d)) ds) \<and>
      skippedCount w + length r = length ds \<and>
      (\<forall>d \<in> set ds. (fst d, doc_score d) \<in> set r \<or> (\<forall>x \<in> set (best k (map snd r)). doc_score d < x))"
proof -
  let ?w = "WandIterator \<lparr>li_docs = ds, li_next = 0\<rparr> (ScoreThresholdManager k)"
  have d: "list_iterator_docs (wd_inner ?w) = ds" by (simp add: WandIterator_def list_iterator_docs_def)
  have m0: "manager_ok (wd_manager ?w) []" by (simp add: WandIterator_def manager_init [OF assms(1)])
  have k: "tm_k (wd_manager ?w) = k" and sk0: "wd_skipped ?w = 0"
    by (simp_all add: WandIterator_def ScoreThresholdManager_def)
  from list_posting.wand_run_exact [OF m0 m0, of n, unfolded d, OF assms(2,3)]
  obtain r w' where r: "wand_run n list_iterator_ops ?w = Some (r, w')" "tm_k (wd_manager w') = k"
    "manager_ok (wd_manager w') (rev (map doc_score ds))" "manager_ok (wd_manager w') (rev (map snd r))"
    "subseq r (map (\<lambda>d. (fst d, doc_score d)) ds)" "wd_skipped w' + length r = length ds"
    "\<forall>d \<in> set ds. (fst d, doc_score d) \<in> set r \<or> (\<forall>x \<in> set (tm_heap (wd_manager w')). doc_score d < x)"
    unfolding k sk0 by auto
  have "is_topk k (mset (tm_heap (wd_manager w'))) (mset (map doc_score ds))"
    "is_topk k (mset (tm_heap (wd_manager w'))) (mset (map snd r))"
    using r(2-4) by (simp_all add: manager_ok_def)
  then have h: "mset (tm_heap (wd_manager w')) = mset (best k (map doc_score ds))"
    "mset (tm_heap (wd_manager w')) = mset (best k (map snd r))" using is_topk_best by blast+
  then have "best k (map snd r) = best k (map doc_score ds)" by (intro best_cong) simp
  moreover have "set (best k (map snd r)) = set (tm_heap (wd_manager w'))" using h(2) by (metis set_mset_mset)
  ultimately show ?thesis using r(1,5-7) by (auto simp: skippedCount_def)
qed

lemma early_termination_exact_witness:
  "\<exists>r w. wand_run 5 list_iterator_ops
     (WandIterator \<lparr>li_docs = [(1, 5, 6), (2, 3, 4), (3, 9, 9)], li_next = 0\<rparr> (ScoreThresholdManager 1)) = Some (r, w) \<and>
     best 1 (map snd r) = [9]"
proof -
  let ?ds = "[(1, 5, 6), (2, 3, 4), (3, 9, 9)] :: scored_doc list"
  have a: "(0 :: nat) < 1" "\<forall>d \<in> set ?ds. 0 \<le> doc_score d \<and> doc_score d \<le> doc_max d" "length ?ds < 5" by simp_all
  have b: "best 1 (map doc_score ?ds) = [9]" by (simp add: best_def)
  from early_termination_exact [OF a] show ?thesis unfolding b by blast
qed

text \<open>Below capacity the threshold is 0, so a document with a negative bound is dropped although
  fewer than \<open>k\<close> documents were found.\<close>

lemma negative_bound_dropped:
  "\<exists>w. wand_run 2 list_iterator_ops
     (WandIterator \<lparr>li_docs = [(1, - 2, - 1)], li_next = 0\<rparr> (ScoreThresholdManager 5)) = Some ([], w)"
proof -
  let ?w = "WandIterator \<lparr>li_docs = [(1, - 2, - 1)], li_next = 0\<rparr> (ScoreThresholdManager 5)"
  have th: "threshold (wd_manager ?w) = Some 0"
    by (simp add: WandIterator_def ScoreThresholdManager_def threshold_def)
  have "list_iterator_docs (wd_inner ?w) = [(1, - 2, - 1)]" by (simp add: WandIterator_def list_iterator_docs_def)
  with list_posting.wand_next_eq [OF th] obtain w' where "wand_next list_iterator_ops ?w = Some (False, w')" by auto
  then show ?thesis by (simp add: numeral_2_eq_2)
qed

end
