(* ===== verification/Topk_Plan.thy ===== *)
theory Topk_Plan
  imports TopK
begin

text \<open>
  The optimizer rule for top-k queries (\<^verbatim>\<open>optimizeTopKPatterns\<close> of
  \<^verbatim>\<open>Enterprise/IResearch/IResearchOptimizeTopK.cpp\<close>) and the context that wraps the iterator of an annotated
  view node (\<^verbatim>\<open>IResearchDataStoreEE.hpp\<close>).
\<close>

section \<open>WandExecutionContext\<close>

record wand_context =
  wc_enabled :: bool
  wc_heapSize :: nat
  wc_thresholdManager :: "threshold_manager option"

definition createWandContext :: "bool \<Rightarrow> nat \<Rightarrow> wand_context" where
  "createWandContext enabled heapSize =
     \<lparr>wc_enabled = enabled, wc_heapSize = heapSize,
      wc_thresholdManager = (if enabled \<and> heapSize > 0 then Some (ScoreThresholdManager heapSize) else None)\<rparr>"

text \<open>\<open>Inl\<close> is the base iterator passed through, \<open>Inr\<close> the wrapped one.\<close>

definition wrapIterator :: "wand_context \<Rightarrow> 'i \<Rightarrow> 'i + 'i wand" where
  "wrapIterator ctx base =
     (case wc_thresholdManager ctx of
        None \<Rightarrow> Inl base
      | Some m \<Rightarrow> if \<not> wc_enabled ctx \<or> wc_heapSize ctx = 0 then Inl base else Inr (WandIterator base m))"

section \<open>The optimizer rule\<close>

datatype node_type = ENUMERATE_IRESEARCH_VIEW | SORT | LIMIT | FILTER | RETURN | CALCULATION | OTHER

record sort_element =
  se_attributePath :: string
  se_ascending :: bool

text \<open>One record holds the fields of all node classes; the code casts a pointer by the type tag.
  Pointers are keys of the plan.\<close>

record exec_node =
  en_type :: node_type
  en_firstDep :: "nat option"
  en_limit :: nat
  en_offset :: nat
  en_elements :: "sort_element list"
  en_enableWand :: bool
  en_wandHeapSize :: nat

type_synonym plan = "nat \<Rightarrow> exec_node"

definition isBM25SortElement :: "sort_element \<Rightarrow> bool" where
  "isBM25SortElement e = (str_find (map tolower (se_attributePath e)) ''bm25'' 0 \<noteq> None)"

definition validateSortNodeForWand :: "exec_node \<Rightarrow> bool" where
  "validateSortNodeForWand n =
     (case en_elements n of
        [] \<Rightarrow> False
      | e # _ \<Rightarrow> if \<not> isBM25SortElement e then False else if se_ascending e then False else True)"

definition validateLimitNodeForWand :: "exec_node \<Rightarrow> bool" where
  "validateLimitNodeForWand n = (if en_offset n \<noteq> 0 then False else if en_limit n = 0 then False else True)"

text \<open>The body of the loop: the view node to annotate and its heap size.\<close>

definition wand_match :: "plan \<Rightarrow> nat \<Rightarrow> (nat \<times> nat) option" where
  "wand_match p node =
     (if en_type (p node) \<noteq> LIMIT then None
      else if \<not> validateLimitNodeForWand (p node) then None
      else case en_firstDep (p node) of
        None \<Rightarrow> None
      | Some dep \<Rightarrow>
          if en_type (p dep) \<noteq> SORT then None
          else if \<not> validateSortNodeForWand (p dep) then None
          else case en_firstDep (p dep) of
            None \<Rightarrow> None
          | Some sortDep \<Rightarrow>
              if en_type (p sortDep) \<noteq> ENUMERATE_IRESEARCH_VIEW then None
              else Some (sortDep, en_limit (p node)))"

fun optimize_loop :: "nat list \<Rightarrow> nat \<times> plan \<Rightarrow> nat \<times> plan" where
  "optimize_loop [] s = s"
| "optimize_loop (node # nodes) (optimized, p) =
     (case wand_match p node of
        None \<Rightarrow> optimize_loop nodes (optimized, p)
      | Some (view, k) \<Rightarrow>
          optimize_loop nodes (optimized + 1, p(view := (p view)\<lparr>en_enableWand := True, en_wandHeapSize := k\<rparr>)))"

definition optimizeTopKPatterns :: "plan \<Rightarrow> nat list \<Rightarrow> nat \<times> plan" where
  "optimizeTopKPatterns p nodes = optimize_loop nodes (0, p)"

section \<open>What the rule annotates\<close>

lemma wand_match_cong:
  assumes "\<And>u. en_type (q u) = en_type (p u) \<and> en_firstDep (q u) = en_firstDep (p u) \<and> en_limit (q u) = en_limit (p u) \<and>
    en_offset (q u) = en_offset (p u) \<and> en_elements (q u) = en_elements (p u)"
  shows "wand_match q = wand_match p"
  by (rule ext) (simp only: wand_match_def validateSortNodeForWand_def validateLimitNodeForWand_def assms)

lemma optimize_loop_eq:
  "optimize_loop nodes (c, p) =
     (c + length (List.map_filter (wand_match p) nodes),
      fold (\<lambda>(v, k) p. p(v := (p v)\<lparr>en_enableWand := True, en_wandHeapSize := k\<rparr>)) (List.map_filter (wand_match p) nodes) p)"
proof (induction nodes arbitrary: c p)
  case (Cons n nodes)
  show ?case
  proof (cases "wand_match p n")
    case None
    then show ?thesis using Cons by (simp add: List.map_filter_def)
  next
    case (Some vk)
    obtain v k where vk: "vk = (v, k)" by (cases vk)
    have "wand_match (p(v := (p v)\<lparr>en_enableWand := True, en_wandHeapSize := k\<rparr>)) = wand_match p"
      by (rule wand_match_cong) simp
    then show ?thesis using Cons Some by (simp add: vk List.map_filter_def)
  qed
qed (simp add: List.map_filter_def)

lemma annotate_fold:
  "fold (\<lambda>(v, k) p. p(v := (p v)\<lparr>en_enableWand := True, en_wandHeapSize := k\<rparr>)) ms (p :: plan) v =
     (case map_of (rev ms) v of None \<Rightarrow> p v | Some k \<Rightarrow> (p v)\<lparr>en_enableWand := True, en_wandHeapSize := k\<rparr>)"
  by (induction ms arbitrary: p rule: rev_induct) (auto split: option.splits)

text \<open>The optimizer rule annotates exactly the matching view nodes: it counts the limit nodes of
  the list with a positive limit and no offset whose dependency is a sort by descending bm25 over
  a view; each such view is enabled with the limit of the last limit node that reaches it, and no
  other node, and no other field, changes; running the rule again changes nothing.\<close>

theorem optimizer_annotates_matches:
  "let ms = List.map_filter (wand_match p) nodes; p' = snd (optimizeTopKPatterns p nodes)
   in fst (optimizeTopKPatterns p nodes) = length ms \<and>
    p' v = (case map_of (rev ms) v of None \<Rightarrow> p v | Some k \<Rightarrow> (p v)\<lparr>en_enableWand := True, en_wandHeapSize := k\<rparr>) \<and>
    optimizeTopKPatterns p' nodes = (length ms, p') \<and>
    ((w, k) \<in> set ms \<longleftrightarrow>
      (\<exists>n \<in> set nodes. \<exists>s. en_type (p n) = LIMIT \<and> en_offset (p n) = 0 \<and> en_limit (p n) = k \<and> 0 < k \<and>
        en_firstDep (p n) = Some s \<and> en_type (p s) = SORT \<and>
        (\<exists>e es. en_elements (p s) = e # es \<and> \<not> se_ascending e \<and> sublist ''bm25'' (map tolower (se_attributePath e))) \<and>
        en_firstDep (p s) = Some w \<and> en_type (p w) = ENUMERATE_IRESEARCH_VIEW))"
proof -
  define ms where "ms = List.map_filter (wand_match p) nodes"
  define p' where "p' = snd (optimizeTopKPatterns p nodes)"
  have p': "p' u = (case map_of (rev ms) u of None \<Rightarrow> p u | Some k \<Rightarrow> (p u)\<lparr>en_enableWand := True, en_wandHeapSize := k\<rparr>)" for u
    by (simp add: p'_def optimizeTopKPatterns_def optimize_loop_eq annotate_fold ms_def)
  have "wand_match p' = wand_match p"
    by (rule wand_match_cong) (simp add: p' split: option.splits)
  then have mm: "List.map_filter (wand_match p') nodes = ms" by (simp add: ms_def)
  have idem: "fold (\<lambda>(v, k) p. p(v := (p v)\<lparr>en_enableWand := True, en_wandHeapSize := k\<rparr>)) ms p' = p'"
    by (rule ext) (simp add: annotate_fold p' split: option.splits)
  have "(w, k) \<in> set ms \<longleftrightarrow> (\<exists>n \<in> set nodes. wand_match p n = Some (w, k))"
    by (force simp: ms_def List.map_filter_def)
  moreover have "wand_match p n = Some (w, k) \<longleftrightarrow>
      (\<exists>s. en_type (p n) = LIMIT \<and> en_offset (p n) = 0 \<and> en_limit (p n) = k \<and> 0 < k \<and>
        en_firstDep (p n) = Some s \<and> en_type (p s) = SORT \<and>
        (\<exists>e es. en_elements (p s) = e # es \<and> \<not> se_ascending e \<and> sublist ''bm25'' (map tolower (se_attributePath e))) \<and>
        en_firstDep (p s) = Some w \<and> en_type (p w) = ENUMERATE_IRESEARCH_VIEW)" for n
    by (auto simp: wand_match_def validateSortNodeForWand_def validateLimitNodeForWand_def isBM25SortElement_def
        str_find_0 find_sub_None split: option.splits list.splits if_splits)
  moreover have "fst (optimizeTopKPatterns p nodes) = length ms"
    by (simp add: optimizeTopKPatterns_def optimize_loop_eq ms_def)
  moreover have "optimizeTopKPatterns p' nodes = (length ms, p')"
    by (simp add: optimizeTopKPatterns_def optimize_loop_eq mm idem)
  ultimately show ?thesis using p' unfolding Let_def ms_def [symmetric] p'_def [symmetric] by simp
qed

section \<open>Plan and scan together\<close>

lemma annotated_view:
  assumes "wand_match p limit = Some (view, k)" and "limit \<in> set nodes"
    and "\<forall>n \<in> set nodes. \<forall>k'. wand_match p n = Some (view, k') \<longrightarrow> k' = k"
  shows "snd (optimizeTopKPatterns p nodes) view = (p view)\<lparr>en_enableWand := True, en_wandHeapSize := k\<rparr>"
proof -
  let ?ms = "List.map_filter (wand_match p) nodes"
  have "(view, k) \<in> set ?ms" using assms(1,2) by (force simp: List.map_filter_def)
  moreover have "k' = k" if "(view, k') \<in> set ?ms" for k'
    using that assms(3) by (force simp: List.map_filter_def)
  ultimately have "map_of (rev ?ms) view = Some k"
    by (metis map_of_SomeD not_None_eq set_rev weak_map_of_SomeI)
  then show ?thesis by (simp add: optimizeTopKPatterns_def optimize_loop_eq annotate_fold)
qed

text \<open>C9. A top-k query run as the optimizer annotated it returns the same documents as without: when the
  rule matches a limit \<open>k\<close> over a view, and no other limit matches the same view, the context made from the
  annotation wraps the iterator; a consumer that scores every document it stops at ends, and sorting what
  it scored by any key that puts higher scores first (ties by anything) and cutting after \<open>k\<close> gives what
  sorting all documents of the posting list gives.  Every document left out is counted as skipped.\<close>

theorem topk_query_exact:
  fixes key :: "u64 \<times> rat \<Rightarrow> 'k :: linorder"
  assumes "wand_match p limit = Some (view, k)" and "limit \<in> set nodes"
    and "\<forall>n \<in> set nodes. \<forall>k'. wand_match p n = Some (view, k') \<longrightarrow> k' = k"
    and "distinct (map fst ds)" and "\<forall>d \<in> set ds. 0 \<le> doc_score d \<and> doc_score d \<le> doc_max d"
    and "length ds < n" and "\<forall>x y. snd y < snd x \<longrightarrow> key x < key y"
  shows "let node = snd (optimizeTopKPatterns p nodes) view;
             docs = map (\<lambda>d. (fst d, doc_score d)) ds
         in \<exists>w r w'. wrapIterator (createWandContext (en_enableWand node) (en_wandHeapSize node))
                \<lparr>li_docs = ds, li_next = 0\<rparr> = Inr w \<and>
              wand_run n list_iterator_ops w = Some (r, w') \<and>
              take k (sort_key key r) = take k (sort_key key docs) \<and>
              skippedCount w' + length r = length ds"
proof -
  let ?docs = "map (\<lambda>d. (fst d, doc_score d)) ds"
  have k: "0 < k" using assms(1) by (auto simp: wand_match_def validateLimitNodeForWand_def split: if_splits option.splits)
  let ?w = "WandIterator \<lparr>li_docs = ds, li_next = 0\<rparr> (ScoreThresholdManager k)"
  obtain r w' where r: "wand_run n list_iterator_ops ?w = Some (r, w')"
      "best k (map snd r) = best k (map doc_score ds)" "subseq r ?docs" "skippedCount w' + length r = length ds"
      "\<forall>d \<in> set ds. (fst d, doc_score d) \<in> set r \<or> (\<forall>x \<in> set (best k (map snd r)). doc_score d < x)"
    using early_termination_exact [OF k assms(5,6)] by (elim exE conjE) (rule that)
  have "distinct ?docs" using assms(4) by (simp add: distinct_map inj_on_def)
  then have f: "r = filter (\<lambda>x. x \<in> set r) ?docs" using r(3) by (rule subseq_filter)
  have "k \<le> length (filter (\<lambda>y. key y < key x) ?docs)" if x: "x \<in> set ?docs" "x \<notin> set r" for x
  proof -
    have "length (filter (\<lambda>x. x \<in> set r) ?docs) < length ?docs" using x by (rule length_filter_less)
    then have "length r < length ?docs" unfolding f [symmetric] .
    moreover have "length (best k (map snd r)) = length (best k (map doc_score ds))" using r(2) by simp
    ultimately have l: "k \<le> length ?docs" by (simp add: best_def)
    have "\<forall>v \<in> set (best k (map snd ?docs)). snd x < v" using x r(2,5) by (auto simp: comp_def)
    from best_above [OF this l] have "k \<le> length (filter (\<lambda>y. snd x < snd y) ?docs)" .
    also have "\<dots> \<le> length (filter (\<lambda>y. key y < key x) ?docs)"
      by (rule length_filter_mono) (rule assms(7) [rule_format])
    finally show ?thesis .
  qed
  then have "take k (sort_key key (filter (\<lambda>x. x \<in> set r) ?docs)) = take k (sort_key key ?docs)"
    by (intro take_sort_key_filter) blast
  then have "take k (sort_key key r) = take k (sort_key key ?docs)" unfolding f [symmetric] .
  moreover have "wrapIterator (createWandContext True k) \<lparr>li_docs = ds, li_next = 0\<rparr> = Inr ?w"
    using k by (simp add: wrapIterator_def createWandContext_def)
  ultimately show ?thesis using r(1,4) annotated_view [OF assms(1-3)] by (simp add: Let_def)
qed

definition query_node :: "node_type \<Rightarrow> nat option \<Rightarrow> nat \<Rightarrow> sort_element list \<Rightarrow> exec_node" where
  "query_node t dep k els = \<lparr>en_type = t, en_firstDep = dep, en_limit = k, en_offset = 0, en_elements = els,
     en_enableWand = False, en_wandHeapSize = 0\<rparr>"

text \<open>A view, a sort of it by \<open>path\<close>, and two limits over the sort.\<close>

definition sample_plan :: "string \<Rightarrow> plan" where
  "sample_plan path = (\<lambda>_. query_node OTHER None 0 [])
     (0 := query_node ENUMERATE_IRESEARCH_VIEW None 0 [],
      1 := query_node SORT (Some 0) 0 [\<lparr>se_attributePath = path, se_ascending = False\<rparr>],
      2 := query_node LIMIT (Some 1) 1 [], 3 := query_node LIMIT (Some 1) 3 [])"

lemma sample_matches:
  "wand_match (sample_plan ''BM25(d)'') n = (if n = 2 then Some (0, 1) else if n = 3 then Some (0, 3) else None)"
proof -
  have "str_find (map tolower ''BM25(d)'') ''bm25'' 0 \<noteq> None" by code_simp
  then show ?thesis
    by (simp add: wand_match_def sample_plan_def query_node_def validateLimitNodeForWand_def validateSortNodeForWand_def
        isBM25SortElement_def)
qed

theorem topk_query_exact_witness:
  "\<exists>w r w'. wrapIterator (createWandContext True 1) \<lparr>li_docs = [(1, 5, 6), (2, 3, 4), (3, 9, 9)], li_next = 0\<rparr> = Inr w \<and>
     wand_run 5 list_iterator_ops w = Some (r, w') \<and> take 1 (sort_key (\<lambda>d. - snd d) r) = [(3, 9)]"
proof -
  let ?ds = "[(1, 5, 6), (2, 3, 4), (3, 9, 9)] :: scored_doc list"
  let ?p = "sample_plan ''BM25(d)''"
  have m: "wand_match ?p 2 = Some (0, 1)" "(2 :: nat) \<in> set [2]"
    "\<forall>n \<in> set [2]. \<forall>k'. wand_match ?p n = Some (0, k') \<longrightarrow> k' = 1" by (simp_all add: sample_matches)
  have d: "distinct (map fst ?ds)" "\<forall>d \<in> set ?ds. 0 \<le> doc_score d \<and> doc_score d \<le> doc_max d" "length ?ds < 5"
    by simp_all
  have k: "\<forall>x y :: u64 \<times> rat. snd y < snd x \<longrightarrow> - snd x < - snd y" by simp
  show ?thesis
    using topk_query_exact [OF m d k] annotated_view [OF m] by (simp add: Let_def) blast
qed

text \<open>A view under two limits: the last match sets the heap size, whichever is larger.  The query for
  three documents is then given one.\<close>

lemma shared_view_loses_results:
  defines "node \<equiv> snd (optimizeTopKPatterns (sample_plan ''BM25(d)'') [3, 2]) 0"
  shows "en_wandHeapSize node = 1 \<and>
    (\<exists>w. wand_run 5 list_iterator_ops (WandIterator \<lparr>li_docs = [(1, 9, 9), (2, 5, 5), (3, 3, 3)], li_next = 0\<rparr>
       (ScoreThresholdManager 1)) = Some ([(1, 9)], w))"
proof
  have "List.map_filter (wand_match (sample_plan ''BM25(d)'')) [3, 2] = [(0, 3), (0, 1)]"
    by (simp add: List.map_filter_def sample_matches)
  then show "en_wandHeapSize node = 1" by (simp add: node_def optimizeTopKPatterns_def optimize_loop_eq)
  show "\<exists>w. wand_run 5 list_iterator_ops (WandIterator \<lparr>li_docs = [(1, 9, 9), (2, 5, 5), (3, 3, 3)], li_next = 0\<rparr>
       (ScoreThresholdManager 1)) = Some ([(1, 9)], w)"
    by (simp add: eval_nat_numeral wand_next.simps wand_score_def addScore_def threshold_def heap_front_def
        list_iterator_ops_def list_iterator_at_def WandIterator_def ScoreThresholdManager_def push_heap_def wand_value_def sift_up_0)
qed

text \<open>Any attribute whose name contains bm25 passes for the score.\<close>

lemma attribute_taken_for_score:
  "wand_match (sample_plan ''d.rank_before_BM25'') 2 = Some (0, 1)"
proof -
  have "str_find (map tolower ''d.rank_before_BM25'') ''bm25'' 0 \<noteq> None" by code_simp
  then show ?thesis
    by (simp add: wand_match_def sample_plan_def query_node_def validateLimitNodeForWand_def validateSortNodeForWand_def
        isBM25SortElement_def)
qed

end
