(* ===== verification/Index_Pool.thy ===== *)
theory Index_Pool
  imports Prelude "HOL-Library.Multiset"
begin

text \<open>
  The worker pool of parallel index building (\<^verbatim>\<open>Enterprise/RocksDBEngine/IndexBuilderThreadPool.cpp\<close>)
  as a step relation.  A task is a number, used once.  What a thread does while it holds the
  mutex is one step, except that a worker whose predicate was false still holds the mutex
  before it sleeps (\<open>Parking\<close>): \<open>shutdown\<close> does not take the mutex, so its flag and its
  \<open>notify_all\<close> may fall between the two.
\<close>

datatype worker = Looping | Parking | Sleeping | Running nat | Exited

datatype shutdown_phase = NotCalled | FlagSet | Joining | Joined

record pool =
  tp_workers :: "worker list"
  tp_taskQueue :: "nat list"
  tp_shutdown :: bool
  tp_phase :: shutdown_phase
  tp_checked :: "nat set"
  tp_accepted :: "nat list"
  tp_rejected :: "nat set"
  tp_notifying :: "nat set"
  tp_started :: "nat list"
  tp_done :: "nat list"

definition IndexBuilderThreadPool :: "nat \<Rightarrow> pool" where
  "IndexBuilderThreadPool numThreads =
     \<lparr>tp_workers = replicate numThreads Looping, tp_taskQueue = [], tp_shutdown = False, tp_phase = NotCalled,
      tp_checked = {}, tp_accepted = [], tp_rejected = {}, tp_notifying = {}, tp_started = [], tp_done = []\<rparr>"

definition mutex_free :: "pool \<Rightarrow> bool" where
  "mutex_free p \<longleftrightarrow> Parking \<notin> set (tp_workers p)"

definition pool_isRunning :: "pool \<Rightarrow> bool" where
  "pool_isRunning p \<longleftrightarrow> \<not> tp_shutdown p"

definition set_worker :: "nat \<Rightarrow> worker \<Rightarrow> pool \<Rightarrow> pool" where
  "set_worker w st p = p\<lparr>tp_workers := (tp_workers p)[w := st]\<rparr>"

definition wake_all :: "pool \<Rightarrow> pool" where
  "wake_all p = p\<lparr>tp_workers := map (\<lambda>w. if w = Sleeping then Looping else w) (tp_workers p)\<rparr>"

text \<open>\<open>spurious\<close> wakeups are the last rule, so that a state can be said to be stuck without them.\<close>

inductive pool_step :: "bool \<Rightarrow> pool \<Rightarrow> pool \<Rightarrow> bool" where
  worker_take: "pool_step b p (set_worker w (Running t) p\<lparr>tp_taskQueue := q, tp_started := tp_started p @ [t]\<rparr>)"
  if "w < length (tp_workers p)" "tp_workers p ! w = Looping" "mutex_free p" "tp_taskQueue p = t # q"
| worker_exit: "pool_step b p (set_worker w Exited p)"
  if "w < length (tp_workers p)" "tp_workers p ! w = Looping" "mutex_free p" "tp_taskQueue p = []" "tp_shutdown p"
| worker_park: "pool_step b p (set_worker w Parking p)"
  if "w < length (tp_workers p)" "tp_workers p ! w = Looping" "mutex_free p" "tp_taskQueue p = []" "\<not> tp_shutdown p"
| worker_sleep: "pool_step b p (set_worker w Sleeping p)"
  if "w < length (tp_workers p)" "tp_workers p ! w = Parking"
| worker_done: "pool_step b p (set_worker w Looping p\<lparr>tp_done := tp_done p @ [t]\<rparr>)"
  if "w < length (tp_workers p)" "tp_workers p ! w = Running t"
| submit_reject: "pool_step b p (p\<lparr>tp_rejected := insert t (tp_rejected p)\<rparr>)"
  if "t \<notin> tp_checked p \<union> set (tp_accepted p) \<union> tp_rejected p" "tp_shutdown p"
| submit_check: "pool_step b p (p\<lparr>tp_checked := insert t (tp_checked p)\<rparr>)"
  if "t \<notin> tp_checked p \<union> set (tp_accepted p) \<union> tp_rejected p" "\<not> tp_shutdown p"
| submit_late: "pool_step b p (p\<lparr>tp_checked := tp_checked p - {t}, tp_rejected := insert t (tp_rejected p)\<rparr>)"
  if "t \<in> tp_checked p" "mutex_free p" "tp_shutdown p"
| submit_push: "pool_step b p (p\<lparr>tp_checked := tp_checked p - {t}, tp_accepted := tp_accepted p @ [t],
      tp_taskQueue := tp_taskQueue p @ [t], tp_notifying := insert t (tp_notifying p)\<rparr>)"
  if "t \<in> tp_checked p" "mutex_free p" "\<not> tp_shutdown p"
| notify_none: "pool_step b p (p\<lparr>tp_notifying := tp_notifying p - {t}\<rparr>)"
  if "t \<in> tp_notifying p" "Sleeping \<notin> set (tp_workers p)"
| notify_one: "pool_step b p (set_worker w Looping p\<lparr>tp_notifying := tp_notifying p - {t}\<rparr>)"
  if "t \<in> tp_notifying p" "w < length (tp_workers p)" "tp_workers p ! w = Sleeping"
| shutdown_flag: "pool_step b p (p\<lparr>tp_shutdown := True, tp_phase := FlagSet\<rparr>)"
  if "tp_phase p = NotCalled"
| shutdown_notify: "pool_step b p (wake_all p\<lparr>tp_phase := Joining\<rparr>)"
  if "tp_phase p = FlagSet"
| shutdown_join: "pool_step b p (p\<lparr>tp_phase := Joined\<rparr>)"
  if "tp_phase p = Joining" "\<forall>w \<in> set (tp_workers p). w = Exited"
| spurious: "pool_step True p (set_worker w Looping p)"
  if "w < length (tp_workers p)" "tp_workers p ! w = Sleeping"

inductive pool_reachable :: "nat \<Rightarrow> pool \<Rightarrow> bool" for n where
  init: "pool_reachable n (IndexBuilderThreadPool n)"
| step: "pool_reachable n p \<Longrightarrow> pool_step b p p' \<Longrightarrow> pool_reachable n p'"

inductive_cases pool_stepE: "pool_step b p p'"

section \<open>Every accepted task runs once\<close>

fun running_of :: "worker \<Rightarrow> nat list" where
  "running_of (Running t) = [t]"
| "running_of _ = []"

definition pool_inv :: "pool \<Rightarrow> bool" where
  "pool_inv p \<longleftrightarrow>
     tp_started p @ tp_taskQueue p = tp_accepted p \<and>
     mset (tp_done p) + mset (concat (map running_of (tp_workers p))) = mset (tp_started p) \<and>
     distinct (tp_accepted p) \<and> set (tp_accepted p) \<inter> (tp_checked p \<union> tp_rejected p) = {} \<and>
     tp_checked p \<inter> tp_rejected p = {} \<and>
     (tp_shutdown p \<longleftrightarrow> tp_phase p \<noteq> NotCalled) \<and>
     (Exited \<in> set (tp_workers p) \<longrightarrow> tp_shutdown p \<and> tp_taskQueue p = []) \<and>
     (tp_phase p = Joined \<longrightarrow> set (tp_workers p) \<subseteq> {Exited})"

lemma concat_update:
  "i < length xs \<Longrightarrow> mset (concat (map f (xs[i := y]))) + mset (f (xs ! i)) = mset (concat (map f xs)) + mset (f y)"
  by (induction xs arbitrary: i) (auto split: nat.splits)

lemma running_set_worker:
  assumes "w < length (tp_workers p)" and "running_of (tp_workers p ! w) = []"
  shows "mset (concat (map running_of ((tp_workers p)[w := st]))) =
    mset (concat (map running_of (tp_workers p))) + mset (running_of st)"
  using concat_update [OF assms(1), of running_of st] by (simp add: assms(2))

lemma set_update_in: "x \<in> set (xs[w := st]) \<Longrightarrow> x = st \<or> x \<in> set xs"
  using set_update_subset_insert by fastforce

lemma pool_inv_step: "pool_step b p p' \<Longrightarrow> pool_inv p \<Longrightarrow> pool_inv p'"
proof (induction rule: pool_step.induct)
  case (worker_take w p t q b)
  have "Looping \<in> set (tp_workers p)" using worker_take(1,2) by (metis nth_mem)
  with worker_take show ?case using running_set_worker [of w p "Running t"]
    by (auto simp: pool_inv_def set_worker_def dest!: set_update_in)
next
  case (worker_exit w p b)
  then show ?case using running_set_worker [of w p Exited]
    by (auto simp: pool_inv_def set_worker_def dest!: set_update_in)
next
  case (worker_park w p b)
  then show ?case using running_set_worker [of w p Parking]
    by (auto simp: pool_inv_def set_worker_def dest!: set_update_in)
next
  case (worker_sleep w p b)
  have "Parking \<in> set (tp_workers p)" using worker_sleep by (metis nth_mem)
  with worker_sleep show ?case using running_set_worker [of w p Sleeping]
    by (auto simp: pool_inv_def set_worker_def subset_iff dest!: set_update_in)
next
  case (worker_done w p t b)
  have "add_mset t (mset (concat (map running_of ((tp_workers p)[w := Looping])))) = mset (concat (map running_of (tp_workers p)))"
    using concat_update [of w "tp_workers p" running_of Looping] worker_done by simp
  then have "add_mset t (mset (tp_done p) + mset (concat (map running_of ((tp_workers p)[w := Looping])))) =
      mset (tp_done p) + mset (concat (map running_of (tp_workers p)))"
    by (simp only: union_mset_add_mset_right [symmetric])
  also have "\<dots> = mset (tp_started p)" using worker_done(3) by (simp add: pool_inv_def)
  finally have "add_mset t (mset (tp_done p) + mset (concat (map running_of ((tp_workers p)[w := Looping])))) =
      mset (tp_started p)" .
  moreover have "Running t \<in> set (tp_workers p)" using worker_done by (metis nth_mem)
  ultimately show ?case using worker_done
    by (auto simp: pool_inv_def set_worker_def dest!: set_update_in)
next
  case (notify_one t p w b)
  have "Sleeping \<in> set (tp_workers p)" using notify_one by (metis nth_mem)
  with notify_one show ?case using running_set_worker [of w p Looping]
    by (auto simp: pool_inv_def set_worker_def dest!: set_update_in)
next
  case (shutdown_notify p b)
  have "concat (map running_of (map (\<lambda>w. if w = Sleeping then Looping else w) ws)) = concat (map running_of ws)" for ws
    by (induction ws) auto
  with shutdown_notify show ?case by (auto simp: pool_inv_def wake_all_def)
next
  case (spurious w p)
  have "Sleeping \<in> set (tp_workers p)" using spurious by (metis nth_mem)
  with spurious show ?case using running_set_worker [of w p Looping]
    by (auto simp: pool_inv_def set_worker_def dest!: set_update_in)
qed (auto simp: pool_inv_def)

lemma pool_inv_reachable: "pool_reachable n p \<Longrightarrow> pool_inv p \<and> length (tp_workers p) = n"
proof (induction rule: pool_reachable.induct)
  case init
  have "concat (map running_of (replicate n Looping)) = []" by (induction n) auto
  then show ?case by (auto simp: pool_inv_def IndexBuilderThreadPool_def)
next
  case (step p b p')
  have "length (tp_workers p') = length (tp_workers p)"
    using step(2) by (auto elim!: pool_stepE simp: set_worker_def wake_all_def)
  then show ?case using step pool_inv_step by auto
qed


section \<open>Properties\<close>

text \<open>C13. The pool starts tasks in the order it accepted them, each at most once, whatever the
  interleaving of workers, submitters and \<open>shutdown\<close>; and once it has workers and all of them
  have exited, the queue is empty and every accepted task has run exactly once.\<close>

theorem accepted_tasks_run_once:
  assumes "pool_reachable n p"
  shows "tp_started p @ tp_taskQueue p = tp_accepted p \<and> distinct (tp_started p) \<and>
    distinct (tp_done p) \<and> set (tp_done p) \<subseteq> set (tp_started p) \<and>
    (0 < n \<and> set (tp_workers p) = {Exited} \<longrightarrow> tp_taskQueue p = [] \<and> mset (tp_done p) = mset (tp_accepted p))"
proof -
  note inv = pool_inv_reachable [OF assms]
  then have i: "tp_started p @ tp_taskQueue p = tp_accepted p"
    "mset (tp_done p) + mset (concat (map running_of (tp_workers p))) = mset (tp_started p)"
    "distinct (tp_accepted p)" by (auto simp: pool_inv_def)
  have d: "distinct (tp_started p)" using i(1,3) by (metis distinct_append)
  have e: "mset (tp_done p @ concat (map running_of (tp_workers p))) = mset (tp_started p)" using i(2) by simp
  then have "distinct (tp_done p)" using d by (metis distinct_append mset_eq_imp_distinct_iff)
  moreover have "set (tp_done p) \<subseteq> set (tp_started p)" using mset_eq_setD [OF e] by auto
  moreover have "tp_taskQueue p = [] \<and> mset (tp_done p) = mset (tp_accepted p)"
    if "0 < n" "set (tp_workers p) = {Exited}"
  proof -
    have "tp_taskQueue p = []" using inv that by (auto simp: pool_inv_def)
    moreover have "concat (map running_of (tp_workers p)) = []" using that(2) by auto
    then have "mset (concat (map running_of (tp_workers p))) = {#}" by (simp only: mset.simps)
    ultimately show ?thesis using i(1,2) by (metis append.right_neutral add.right_neutral)
  qed
  ultimately show ?thesis using i d by blast
qed

theorem accepted_tasks_run_once_witness:
  "\<exists>p. pool_reachable 1 p \<and> tp_accepted p = [7] \<and> set (tp_workers p) = {Exited} \<and> mset (tp_done p) = {#7#}"
proof -
  let ?p0 = "IndexBuilderThreadPool 1"
  let ?p1 = "?p0\<lparr>tp_checked := insert 7 (tp_checked ?p0)\<rparr>"
  let ?p2 = "?p1\<lparr>tp_checked := tp_checked ?p1 - {7}, tp_accepted := tp_accepted ?p1 @ [7],
      tp_taskQueue := tp_taskQueue ?p1 @ [7], tp_notifying := insert 7 (tp_notifying ?p1)\<rparr>"
  let ?p3 = "set_worker 0 (Running 7) ?p2\<lparr>tp_taskQueue := [], tp_started := tp_started ?p2 @ [7]\<rparr>"
  let ?p4 = "set_worker 0 Looping ?p3\<lparr>tp_done := tp_done ?p3 @ [7]\<rparr>"
  let ?p5 = "?p4\<lparr>tp_shutdown := True, tp_phase := FlagSet\<rparr>"
  let ?p6 = "set_worker 0 Exited ?p5"
  note simps = IndexBuilderThreadPool_def set_worker_def mutex_free_def
  have "pool_step False ?p0 ?p1" by (rule pool_step.submit_check) (simp_all add: simps)
  then have "pool_reachable 1 ?p1" by (rule pool_reachable.step [OF pool_reachable.init])
  moreover have "pool_step False ?p1 ?p2" by (rule pool_step.submit_push) (simp_all add: simps)
  ultimately have "pool_reachable 1 ?p2" by (rule pool_reachable.step)
  moreover have "pool_step False ?p2 ?p3" by (rule pool_step.worker_take) (simp_all add: simps)
  ultimately have "pool_reachable 1 ?p3" by (rule pool_reachable.step)
  moreover have "pool_step False ?p3 ?p4" by (rule pool_step.worker_done) (simp_all add: simps)
  ultimately have "pool_reachable 1 ?p4" by (rule pool_reachable.step)
  moreover have "pool_step False ?p4 ?p5" by (rule pool_step.shutdown_flag) (simp_all add: simps)
  ultimately have "pool_reachable 1 ?p5" by (rule pool_reachable.step)
  moreover have "pool_step False ?p5 ?p6" by (rule pool_step.worker_exit) (simp_all add: simps)
  ultimately have r: "pool_reachable 1 ?p6" by (rule pool_reachable.step)
  have a: "tp_accepted ?p6 = [7]" "set (tp_workers ?p6) = {Exited}" by (simp_all add: simps)
  from accepted_tasks_run_once [OF r] a have "mset (tp_done ?p6) = {#7#}" by simp
  with r a show ?thesis by blast
qed

text \<open>\<open>shutdown\<close> can hang: with one worker a state is reachable in which \<open>shutdown\<close> has set its
  flag and notified, the worker sleeps, and no step is possible except a spurious wakeup, so the
  join never returns.  (The flag is set, and the notification sent, while the worker is between its
  test of the flag and its sleep; \<open>shutdown\<close> does not take the mutex.)\<close>

theorem shutdown_can_hang:
  "\<exists>p. pool_reachable 1 p \<and> tp_phase p = Joining \<and> tp_workers p = [Sleeping] \<and> tp_accepted p = [] \<and>
     (\<forall>p'. pool_step False p p' \<longrightarrow> tp_phase p' = Joining \<and> tp_workers p' = [Sleeping] \<and>
        (\<exists>t. p' = p\<lparr>tp_rejected := insert t (tp_rejected p)\<rparr>))"
proof -
  let ?p0 = "IndexBuilderThreadPool 1"
  let ?p1 = "set_worker 0 Parking ?p0"
  let ?p2 = "?p1\<lparr>tp_shutdown := True, tp_phase := FlagSet\<rparr>"
  let ?p3 = "wake_all ?p2\<lparr>tp_phase := Joining\<rparr>"
  let ?p4 = "set_worker 0 Sleeping ?p3"
  note simps = IndexBuilderThreadPool_def set_worker_def mutex_free_def wake_all_def
  have "pool_step False ?p0 ?p1" by (rule pool_step.worker_park) (simp_all add: simps)
  then have "pool_reachable 1 ?p1" by (rule pool_reachable.step [OF pool_reachable.init])
  moreover have "pool_step False ?p1 ?p2" by (rule pool_step.shutdown_flag) (simp_all add: simps)
  ultimately have "pool_reachable 1 ?p2" by (rule pool_reachable.step)
  moreover have "pool_step False ?p2 ?p3" by (rule pool_step.shutdown_notify) (simp_all add: simps)
  ultimately have "pool_reachable 1 ?p3" by (rule pool_reachable.step)
  moreover have "pool_step False ?p3 ?p4" by (rule pool_step.worker_sleep) (simp_all add: simps)
  ultimately have r: "pool_reachable 1 ?p4" by (rule pool_reachable.step)
  have "tp_phase p' = Joining \<and> tp_workers p' = [Sleeping] \<and> (\<exists>t. p' = ?p4\<lparr>tp_rejected := insert t (tp_rejected ?p4)\<rparr>)"
    if "pool_step False ?p4 p'" for p'
    using that by (auto elim!: pool_stepE simp: simps)
  then show ?thesis using r by (intro exI [of _ ?p4]) (auto simp: simps)
qed

theorem shutdown_can_hang_witness: "\<exists>p. pool_reachable 1 p \<and> tp_phase p = Joining \<and> tp_workers p = [Sleeping]"
  using shutdown_can_hang by blast

text \<open>A pool without workers accepts tasks and never starts one.\<close>

lemma no_workers_no_tasks: "pool_reachable 0 p \<Longrightarrow> tp_started p = []"
proof (induction rule: pool_reachable.induct)
  case init
  then show ?case by (simp add: IndexBuilderThreadPool_def)
next
  case (step p b p')
  have "tp_workers p = []" using pool_inv_reachable [OF step(1)] by simp
  with step(2,3) show ?case by (auto elim!: pool_stepE simp: set_worker_def wake_all_def)
qed



end
