(* ===== verification/Key_Partition.thy ===== *)
theory Key_Partition
  imports Doubles
begin

text \<open>
  Splitting a key space for parallel index building
  (\<^verbatim>\<open>Enterprise/RocksDBEngine/KeySpacePartitioner.cpp\<close>): interpolation between two keys byte by
  byte in \<open>double\<close> arithmetic, the chain of ranges, and split points from sampled keys.  A key
  is a string, ordered by unsigned bytes as \<open>std::string\<close> orders it.
\<close>

record key_range =
  kr_lowerBound :: string
  kr_upperBound :: string

definition interpolate_byte :: "nat \<Rightarrow> nat \<Rightarrow> rat \<Rightarrow> nat" where
  "interpolate_byte lo hi fraction =
     (let val = dadd (of_nat lo) (dmul (dsub (of_nat hi) (of_nat lo)) fraction)
      in nat \<lfloor>max 0 (min 255 val)\<rfloor>)"

function trim_zeros :: "string \<Rightarrow> string" where
  "trim_zeros s = (if length s > 1 \<and> List.last s = CHR 0x00 then trim_zeros (butlast s) else s)"
  by pat_completeness auto
termination by (relation "measure length") auto

declare trim_zeros.simps [simp del]

definition byte_at :: "string \<Rightarrow> nat \<Rightarrow> nat" where
  "byte_at s i = (if i < length s then of_char (s ! i) else 0)"

definition interpolateKey :: "string \<Rightarrow> string \<Rightarrow> rat \<Rightarrow> string" where
  "interpolateKey lower upper fraction =
     (if lower = [] \<and> upper = [] then []
      else let maxLen = max (length lower) (length upper);
               bytes = map (\<lambda>i. char_of (interpolate_byte (byte_at lower i) (byte_at upper i) fraction)) [0..<maxLen]
           in trim_zeros bytes)"

definition split_fraction :: "nat \<Rightarrow> nat \<Rightarrow> rat" where
  "split_fraction i numPartitions = ddiv (rnd (of_nat i)) (rnd (of_nat numPartitions))"

definition split_key :: "string \<Rightarrow> string \<Rightarrow> u32 \<Rightarrow> nat \<Rightarrow> string" where
  "split_key lowerBound upperBound numPartitions i =
     (let fraction = split_fraction i (unat numPartitions)
      in if upperBound = [] then lowerBound @ [char_of (nat \<lfloor>dmul fraction 255\<rfloor> mod 256)]
         else interpolateKey lowerBound upperBound fraction)"

fun build_ranges :: "string \<Rightarrow> string list \<Rightarrow> string \<Rightarrow> key_range list" where
  "build_ranges prevBound [] upperBound = [\<lparr>kr_lowerBound = prevBound, kr_upperBound = upperBound\<rparr>]"
| "build_ranges prevBound (split # splits) upperBound =
     \<lparr>kr_lowerBound = prevBound, kr_upperBound = split\<rparr> # build_ranges split splits upperBound"

definition partition_keys :: "string \<Rightarrow> string \<Rightarrow> u32 \<Rightarrow> key_range list" where
  "partition_keys lowerBound upperBound numPartitions =
     (if numPartitions = 0 then []
      else if upperBound \<noteq> [] \<and> lowerBound \<ge> upperBound then []
      else if numPartitions = 1 then [\<lparr>kr_lowerBound = lowerBound, kr_upperBound = upperBound\<rparr>]
      else build_ranges lowerBound (map (split_key lowerBound upperBound numPartitions) [1..<unat numPartitions]) upperBound)"

definition computeSplitPoints :: "string list \<Rightarrow> u32 \<Rightarrow> string list" where
  "computeSplitPoints sampledKeys numPartitions =
     (if numPartitions \<le> 1 \<or> sampledKeys = [] then []
      else let sorted = remdups_adj (sort sampledKeys)
           in if length sorted < unat numPartitions then sorted
              else map (\<lambda>i. let idx = nat \<lfloor>dmul (split_fraction i (unat numPartitions)) (rnd (of_nat (length sorted)))\<rfloor>;
                                idx = (if idx \<ge> length sorted then length sorted - 1 else idx)
                            in sorted ! idx)
                     [1..<unat numPartitions])"

section \<open>Which keys a range holds\<close>

text \<open>The test a scan makes: at or above the lower bound, and below the upper one unless that is empty.\<close>

definition in_range :: "key_range \<Rightarrow> string \<Rightarrow> bool" where
  "in_range r k \<longleftrightarrow> kr_lowerBound r \<le> k \<and> (kr_upperBound r = [] \<or> k < kr_upperBound r)"

lemma build_ranges_chain:
  "kr_lowerBound (hd (build_ranges p ss u)) = p \<and> kr_upperBound (List.last (build_ranges p ss u)) = u \<and>
   length (build_ranges p ss u) = Suc (length ss) \<and>
   (\<forall>i < length ss. kr_upperBound (build_ranges p ss u ! i) = ss ! i \<and> kr_lowerBound (build_ranges p ss u ! Suc i) = ss ! i)"
proof (induction ss arbitrary: p)
  case Nil
  then show ?case by simp
next
  case (Cons s ss)
  have ne: "build_ranges s ss u \<noteq> []" by (cases ss) auto
  show ?case
  proof (intro conjI)
    show "\<forall>i < length (s # ss). kr_upperBound (build_ranges p (s # ss) u ! i) = (s # ss) ! i \<and>
        kr_lowerBound (build_ranges p (s # ss) u ! Suc i) = (s # ss) ! i"
    proof (intro allI impI)
      fix i assume "i < length (s # ss)"
      then show "kr_upperBound (build_ranges p (s # ss) u ! i) = (s # ss) ! i \<and>
          kr_lowerBound (build_ranges p (s # ss) u ! Suc i) = (s # ss) ! i"
        using Cons ne by (cases i) (auto simp: hd_conv_nth [symmetric])
    qed
  qed (use Cons ne in auto)
qed

text \<open>Ascending bounds: every key is in exactly one range if it is in the whole one, else in none.\<close>

lemma build_ranges_count:
  assumes "sorted (p # ss)" and "\<forall>s \<in> set ss. s \<noteq> [] \<and> (u = [] \<or> s \<le> u)"
  shows "length (filter (\<lambda>r. in_range r k) (build_ranges p ss u)) = (if p \<le> k \<and> (u = [] \<or> k < u) then 1 else 0)"
  using assms
proof (induction ss arbitrary: p)
  case Nil
  then show ?case by (auto simp: in_range_def)
next
  case (Cons s ss)
  then have ih: "length (filter (\<lambda>r. in_range r k) (build_ranges s ss u)) = (if s \<le> k \<and> (u = [] \<or> k < u) then 1 else 0)"
    by auto
  have "p \<le> s" "s \<noteq> []" "u = [] \<or> s \<le> u" using Cons.prems by auto
  moreover have "length (filter (\<lambda>r. in_range r k) (build_ranges p (s # ss) u)) =
      (if p \<le> k \<and> k < s then 1 else 0) + length (filter (\<lambda>r. in_range r k) (build_ranges s ss u))"
    using \<open>s \<noteq> []\<close> by (simp add: in_range_def)
  ultimately show ?case unfolding ih by (auto simp: not_less)
qed


section \<open>Interpolated keys\<close>

text \<open>Trimming keeps the first byte and drops the trailing zeros of the rest.\<close>

fun strip_zeros :: "string \<Rightarrow> string" where
  "strip_zeros [] = []"
| "strip_zeros (c # s) = (if c = CHR 0x00 \<and> strip_zeros s = [] then [] else c # strip_zeros s)"

lemma strip_zeros_snoc: "strip_zeros (s @ [c]) = (if c = CHR 0x00 then strip_zeros s else s @ [c])"
  by (induction s) auto

lemma trim_zeros_Cons: "trim_zeros (c # s) = c # strip_zeros s"
proof (induction s rule: rev_induct)
  case Nil
  then show ?case by (subst trim_zeros.simps) simp
next
  case (snoc d s)
  then show ?case by (subst trim_zeros.simps) (simp add: strip_zeros_snoc butlast_append)
qed

lemma strip_zeros_mono: "length s = length t \<Longrightarrow> s \<le> t \<Longrightarrow> strip_zeros s \<le> strip_zeros t"
proof (induction s t rule: list_induct2)
  case (Cons c s d t)
  consider "c < d" | "c = d" "s \<le> t" using Cons.prems by auto
  then show ?case
  proof cases
    case 1
    then have "d \<noteq> CHR 0x00" by (auto simp: less_char_def)
    with 1 show ?thesis by simp
  next
    case 2
    then have ih: "strip_zeros s \<le> strip_zeros t" using Cons.IH by simp
    then have "strip_zeros t = [] \<Longrightarrow> strip_zeros s = []" by simp
    with 2(1) ih show ?thesis by auto
  qed
qed simp

lemma strip_zeros_le: "strip_zeros s \<le> s"
  by (induction s) auto

lemma strip_zeros_pad: "strip_zeros (s @ replicate n (CHR 0x00)) = strip_zeros s"
  by (induction n arbitrary: s) (simp_all flip: replicate_append_same add: append_assoc [symmetric] strip_zeros_snoc del: append_assoc)

lemma strip_zeros_id: "s = [] \<or> List.last s \<noteq> CHR 0x00 \<Longrightarrow> strip_zeros s = s"
  by (cases s rule: rev_cases) (auto simp: strip_zeros_snoc)

lemma trim_zeros_nonempty: "s \<noteq> [] \<Longrightarrow> trim_zeros s \<noteq> []"
  by (cases s) (auto simp: trim_zeros_Cons)

lemma trim_zeros_mono: "length s = length t \<Longrightarrow> s \<le> t \<Longrightarrow> trim_zeros s \<le> trim_zeros t"
  by (cases s; cases t) (auto simp: trim_zeros_Cons strip_zeros_mono)

lemma trim_zeros_pad_le: "s \<noteq> [] \<Longrightarrow> trim_zeros (s @ replicate n (CHR 0x00)) \<le> s"
  by (cases s) (auto simp: trim_zeros_Cons strip_zeros_pad strip_zeros_le)

text \<open>The lower bound survives padding and trimming unless it ends in a zero byte.\<close>

lemma trim_zeros_pad_ge:
  assumes "length s \<le> 1 \<or> List.last s \<noteq> CHR 0x00"
  shows "s \<le> trim_zeros (s @ replicate n (CHR 0x00))"
proof (cases s)
  case (Cons c s')
  then have "s' = [] \<or> List.last s' \<noteq> CHR 0x00" using assms by auto
  then show ?thesis by (simp add: Cons trim_zeros_Cons strip_zeros_pad strip_zeros_id)
qed simp

lemma pointwise_le:
  fixes s t :: string
  shows "length s = length t \<Longrightarrow> (\<And>i. i < length s \<Longrightarrow> s ! i \<le> t ! i) \<Longrightarrow> s \<le> t"
proof (induction s t rule: list_induct2)
  case (Cons c s d t)
  have "c \<le> d" using Cons.prems [of 0] by simp
  moreover have "s \<le> t" using Cons.prems [of "Suc i" for i] by (intro Cons.IH) auto
  ultimately show ?case by auto
qed simp


definition pad :: "nat \<Rightarrow> string \<Rightarrow> string" where
  "pad n s = s @ replicate (n - length s) (CHR 0x00)"

lemma pad_length: "length s \<le> n \<Longrightarrow> length (pad n s) = n"
  by (simp add: pad_def)

lemma pad_nth: "i < n \<Longrightarrow> length s \<le> n \<Longrightarrow> pad n s ! i = char_of (byte_at s i)"
proof -
  have "char_of (0 :: nat) = CHR 0x00" by (simp add: char_of_def)
  then show "i < n \<Longrightarrow> length s \<le> n \<Longrightarrow> ?thesis" by (simp add: pad_def byte_at_def nth_append)
qed

lemma byte_at_less: "byte_at s i < 256"
  by (simp add: byte_at_def)

lemma rnd_byte_diff: "lo \<le> hi \<Longrightarrow> hi < 256 \<Longrightarrow> dsub (of_nat hi) (of_nat lo) = of_nat (hi - lo)"
  using rnd_nat [of "hi - lo"] by (simp add: dsub_def of_nat_diff)

lemma interpolate_byte_mono:
  assumes "lo \<le> hi" and "hi < 256" and "f \<le> g"
  shows "interpolate_byte lo hi f \<le> interpolate_byte lo hi g"
proof -
  have "(of_nat (hi - lo) :: rat) * f \<le> of_nat (hi - lo) * g" using assms(3) by (intro mult_left_mono) simp_all
  then have "dmul (of_nat (hi - lo)) f \<le> dmul (of_nat (hi - lo)) g" unfolding dmul_def by (rule rnd_mono)
  then have "dadd (of_nat lo) (dmul (of_nat (hi - lo)) f) \<le> dadd (of_nat lo) (dmul (of_nat (hi - lo)) g)"
    unfolding dadd_def by (intro rnd_mono) simp
  then show ?thesis
    unfolding interpolate_byte_def Let_def rnd_byte_diff [OF assms(1,2)]
    by (intro nat_mono floor_mono max.mono min.mono order.refl)
qed

lemma interpolate_byte_bounds:
  assumes "lo \<le> hi" and "hi < 256" and "0 \<le> f" and "f \<le> 1"
  shows "lo \<le> interpolate_byte lo hi f" and "interpolate_byte lo hi f \<le> hi"
proof -
  let ?v = "dadd (of_nat lo) (dmul (of_nat (hi - lo)) f)"
  have d: "0 \<le> (of_nat (hi - lo) :: rat) * f" "(of_nat (hi - lo) :: rat) * f \<le> of_nat (hi - lo)"
    using assms(3,4) by (simp_all add: mult_left_le)
  have n: "hi - lo \<le> 2 ^ 53" "lo \<le> 2 ^ 53" "hi \<le> 2 ^ 53" using assms(1,2) by simp_all
  have "0 \<le> dmul (of_nat (hi - lo)) f" "dmul (of_nat (hi - lo)) f \<le> of_nat (hi - lo)"
    using rnd_mono [OF d(1)] rnd_mono [OF d(2)] rnd_nat [OF n(1)] by (simp_all add: dmul_def)
  then have s: "of_nat lo \<le> of_nat lo + dmul (of_nat (hi - lo)) f" "of_nat lo + dmul (of_nat (hi - lo)) f \<le> of_nat hi"
    using assms(1) by (simp_all add: of_nat_diff)
  have v: "of_nat lo \<le> ?v" "?v \<le> of_nat hi"
    using rnd_mono [OF s(1)] rnd_mono [OF s(2)] rnd_nat [OF n(2)] rnd_nat [OF n(3)] unfolding dadd_def by (simp_all only:)
  have "?v \<le> 255" using v(2) assms(2) by (simp add: order.trans)
  then have "max 0 (min 255 ?v) = ?v" using v(1) by (simp add: max_def min_def order.trans [of 0 "of_nat lo"])
  then have i: "interpolate_byte lo hi f = nat \<lfloor>?v\<rfloor>"
    unfolding interpolate_byte_def Let_def rnd_byte_diff [OF assms(1,2)] by simp
  show "lo \<le> interpolate_byte lo hi f" unfolding i using v(1) by (simp add: le_nat_iff le_floor_iff)
  show "interpolate_byte lo hi f \<le> hi" unfolding i using floor_mono [OF v(2)] by simp
qed

lemma split_fraction_mono: "i \<le> j \<Longrightarrow> split_fraction i n \<le> split_fraction j n"
proof -
  assume "i \<le> j"
  then have "rnd (of_nat i) \<le> rnd (of_nat j)" by (intro rnd_mono) simp
  moreover have "0 \<le> rnd (of_nat n)" using rnd_mono [of 0 "of_nat n"] by simp
  ultimately have "rnd (of_nat i) / rnd (of_nat n) \<le> rnd (of_nat j) / rnd (of_nat n)" by (rule divide_right_mono)
  then show ?thesis unfolding split_fraction_def ddiv_def by (rule rnd_mono)
qed

lemma split_fraction_bounds:
  assumes "i \<le> n" and "0 < n" and "n < 2 ^ 32"
  shows "0 \<le> split_fraction i n" and "split_fraction i n \<le> 1"
proof -
  have n: "rnd (of_nat n) = of_nat n" by (rule rnd_nat) (use assms(3) in simp)
  have i: "rnd (of_nat i) = of_nat i" by (rule rnd_nat) (use assms(1,3) in simp)
  have "(0 :: rat) \<le> of_nat i / of_nat n" by simp
  from rnd_mono [OF this] show "0 \<le> split_fraction i n" unfolding split_fraction_def ddiv_def i n by simp
  have "of_nat i / of_nat n \<le> (1 :: rat)" using assms(1,2) by (simp only: divide_le_eq_1) simp
  from rnd_mono [OF this] show "split_fraction i n \<le> 1" unfolding split_fraction_def ddiv_def i n using rnd_nat [of 1] by simp
qed


section \<open>Split keys ascend\<close>

text \<open>Every byte of the upper bound is at least the lower bound's at its position.\<close>

definition bytes_ascend :: "string \<Rightarrow> string \<Rightarrow> bool" where
  "bytes_ascend l u \<longleftrightarrow> (\<forall>i < max (length l) (length u). byte_at l i \<le> byte_at u i)"

definition interpolated :: "string \<Rightarrow> string \<Rightarrow> rat \<Rightarrow> string" where
  "interpolated l u f = map (\<lambda>i. char_of (interpolate_byte (byte_at l i) (byte_at u i) f)) [0..<max (length l) (length u)]"

lemma interpolateKey_eq: "u \<noteq> [] \<Longrightarrow> interpolateKey l u f = trim_zeros (interpolated l u f)"
  by (simp add: interpolateKey_def interpolated_def Let_def)

lemma char_of_le: "m \<le> n \<Longrightarrow> n < 256 \<Longrightarrow> (char_of m :: char) \<le> char_of (n :: nat)"
  by (simp add: less_eq_char_def)

lemma interpolated_mono:
  assumes "bytes_ascend l u" and "f \<le> g" and "0 \<le> f" and "g \<le> 1"
  shows "interpolated l u f \<le> interpolated l u g"
    and "pad (max (length l) (length u)) l \<le> interpolated l u f"
    and "interpolated l u f \<le> pad (max (length l) (length u)) u"
proof -
  have f1: "f \<le> 1" and g0: "0 \<le> g" using assms by linarith+
  have a: "byte_at l i \<le> byte_at u i" if "i < max (length l) (length u)" for i
    using assms(1) that by (simp add: bytes_ascend_def)
  have ub: "interpolate_byte (byte_at l i) (byte_at u i) h < 256" if "i < max (length l) (length u)" "0 \<le> h" "h \<le> 1" for i h
    using interpolate_byte_bounds(2) [OF a [OF that(1)] byte_at_less that(2,3)] byte_at_less [of u i] by linarith
  show "interpolated l u f \<le> interpolated l u g"
    by (rule pointwise_le)
      (simp_all add: interpolated_def char_of_le interpolate_byte_mono a byte_at_less assms(2) ub g0 assms(4))
  show "pad (max (length l) (length u)) l \<le> interpolated l u f"
    by (rule pointwise_le)
      (simp_all add: interpolated_def pad_length pad_nth char_of_le interpolate_byte_bounds(1) a byte_at_less assms(3) f1 ub)
  show "interpolated l u f \<le> pad (max (length l) (length u)) u"
    by (rule pointwise_le)
      (simp_all add: interpolated_def pad_length pad_nth char_of_le interpolate_byte_bounds(2) a byte_at_less assms(3) f1)
qed

lemma interpolateKey_sorted:
  assumes "bytes_ascend l u" and "u \<noteq> []" and "length l \<le> 1 \<or> List.last l \<noteq> CHR 0x00"
    and "f \<le> g" and "0 \<le> f" and "g \<le> 1"
  shows "interpolateKey l u f \<le> interpolateKey l u g" and "l \<le> interpolateKey l u f" and "interpolateKey l u f \<le> u"
    and "interpolateKey l u f \<noteq> []"
proof -
  let ?n = "max (length l) (length u)"
  note m = interpolated_mono [OF assms(1,4-6)]
  have len: "length (interpolated l u h) = ?n" for h by (simp add: interpolated_def)
  show "interpolateKey l u f \<le> interpolateKey l u g"
    unfolding interpolateKey_eq [OF assms(2)] by (rule trim_zeros_mono [OF _ m(1)]) (simp add: len)
  have "trim_zeros (pad ?n l) \<le> trim_zeros (interpolated l u f)"
    by (rule trim_zeros_mono [OF _ m(2)]) (simp add: len pad_length)
  moreover have "l \<le> trim_zeros (pad ?n l)" unfolding pad_def by (rule trim_zeros_pad_ge [OF assms(3)])
  ultimately show "l \<le> interpolateKey l u f" unfolding interpolateKey_eq [OF assms(2)] by (rule order.trans [rotated])
  have "trim_zeros (interpolated l u f) \<le> trim_zeros (pad ?n u)"
    by (rule trim_zeros_mono [OF _ m(3)]) (simp add: len pad_length)
  moreover have "trim_zeros (pad ?n u) \<le> u" unfolding pad_def by (rule trim_zeros_pad_le [OF assms(2)])
  ultimately show "interpolateKey l u f \<le> u" unfolding interpolateKey_eq [OF assms(2)] by (rule order.trans)
  have "interpolated l u f \<noteq> []" using len [of f] assms(2) by (metis length_0_conv max_nat.eq_neutr_iff)
  then show "interpolateKey l u f \<noteq> []" unfolding interpolateKey_eq [OF assms(2)] by (rule trim_zeros_nonempty)
qed

lemma scaled_fraction_mono:
  assumes "f \<le> g" and "0 \<le> f" and "g \<le> 1"
  shows "nat \<lfloor>dmul f 255\<rfloor> \<le> nat \<lfloor>dmul g 255\<rfloor>" and "nat \<lfloor>dmul g 255\<rfloor> < 256"
proof -
  have "dmul f 255 \<le> dmul g 255" unfolding dmul_def by (intro rnd_mono) (use assms(1) in simp)
  then show "nat \<lfloor>dmul f 255\<rfloor> \<le> nat \<lfloor>dmul g 255\<rfloor>" by (intro nat_mono floor_mono)
  have "g * 255 \<le> 255" using assms(3) by simp
  from rnd_mono [OF this] have "dmul g 255 \<le> 255" using rnd_nat [of 255] by (simp add: dmul_def)
  from floor_mono [OF this] have "\<lfloor>dmul g 255\<rfloor> \<le> 255" by (simp only: floor_numeral)
  then show "nat \<lfloor>dmul g 255\<rfloor> < 256" by linarith
qed

lemma append_le: "(xs :: string) \<le> xs @ ys"
  by (induction xs) simp_all

lemma same_append_le: "((xs :: string) @ ys \<le> xs @ zs) \<longleftrightarrow> ys \<le> zs"
  by (induction xs) simp_all

lemma append_byte_le: "m \<le> n \<Longrightarrow> n < 256 \<Longrightarrow> l @ [char_of (m :: nat)] \<le> l @ [char_of n]"
proof -
  assume a: "m \<le> n" "n < 256"
  have "[c] \<le> [d]" if "c \<le> d" for c d :: char using that by (cases "c = d") auto
  from this [OF char_of_le [OF a]] have "[char_of m] \<le> [char_of n :: char]" .
  then show ?thesis by (simp only: same_append_le)
qed


lemma split_keys_ok:
  assumes "1 < unat n" and "u = [] \<or> l < u \<and> bytes_ascend l u \<and> (length l \<le> 1 \<or> List.last l \<noteq> CHR 0x00)"
  defines "ss \<equiv> map (split_key l u n) [1..<unat n]"
  shows "sorted (l # ss) \<and> (\<forall>s \<in> set ss. s \<noteq> [] \<and> (u = [] \<or> s \<le> u))"
proof -
  let ?f = "\<lambda>i. split_fraction i (unat n)"
  have f: "?f i \<le> ?f j" "0 \<le> ?f i" "?f j \<le> 1" if "i \<le> j" "j < unat n" for i j
    using that split_fraction_mono split_fraction_bounds [of i "unat n"] split_fraction_bounds [of j "unat n"] unat_lt_2_32 [of n]
    by auto
  have step: "split_key l u n i \<le> split_key l u n j" "l \<le> split_key l u n i" "split_key l u n i \<noteq> []"
    "u = [] \<or> split_key l u n i \<le> u" if ij: "i \<le> j" "j < unat n" for i j
  proof -
    consider "u = []" | "u \<noteq> []" "bytes_ascend l u" "length l \<le> 1 \<or> List.last l \<noteq> CHR 0x00" using assms(2) by blast
    then have "split_key l u n i \<le> split_key l u n j \<and> l \<le> split_key l u n i \<and> split_key l u n i \<noteq> [] \<and>
        (u = [] \<or> split_key l u n i \<le> u)"
    proof cases
      case 1
      note m = scaled_fraction_mono [OF f [OF ij]]
      have "nat \<lfloor>dmul (?f i) 255\<rfloor> < 256" "nat \<lfloor>dmul (?f j) 255\<rfloor> < 256" using m by linarith+
      then show ?thesis using append_byte_le [OF m] append_le by (simp add: split_key_def Let_def 1)
    next
      case 2
      from interpolateKey_sorted [OF 2(2,1,3) f [OF ij]] 2(1) show ?thesis by (simp add: split_key_def Let_def)
    qed
    then show "split_key l u n i \<le> split_key l u n j" "l \<le> split_key l u n i" "split_key l u n i \<noteq> []"
      "u = [] \<or> split_key l u n i \<le> u" by blast+
  qed
  have "sorted ss"
    unfolding ss_def sorted_iff_nth_mono by (auto intro!: step(1))
  moreover have "\<forall>s \<in> set ss. l \<le> s" unfolding ss_def using step(2) [OF order.refl] by auto
  moreover have "\<forall>s \<in> set ss. s \<noteq> [] \<and> (u = [] \<or> s \<le> u)" unfolding ss_def using step(3,4) [OF order.refl] by auto
  ultimately show ?thesis by simp
qed

section \<open>Properties\<close>

lemma partition_ranges:
  assumes "n \<noteq> 0" and "u = [] \<or> l < u"
  shows "length (partition_keys l u n) = unat n \<and>
    kr_lowerBound (hd (partition_keys l u n)) = l \<and> kr_upperBound (List.last (partition_keys l u n)) = u \<and>
    (\<forall>i. Suc i < unat n \<longrightarrow> kr_upperBound (partition_keys l u n ! i) = kr_lowerBound (partition_keys l u n ! Suc i)) \<and>
    (u = [] \<or> bytes_ascend l u \<and> (length l \<le> 1 \<or> List.last l \<noteq> CHR 0x00) \<longrightarrow>
      length (filter (\<lambda>r. in_range r k) (partition_keys l u n)) = (if l \<le> k \<and> (u = [] \<or> k < u) then 1 else 0))"
proof -
  let ?ss = "map (split_key l u n) [1..<unat n]"
  have n0: "unat n \<noteq> 0" using assms(1) by (simp add: unat_eq_0)
  have p: "partition_keys l u n = build_ranges l ?ss u"
  proof (cases "n = 1")
    case True
    then show ?thesis using assms(2) by (auto simp: partition_keys_def not_le)
  next
    case False
    then show ?thesis using assms by (auto simp: partition_keys_def not_le)
  qed
  have len: "length ?ss = unat n - 1" by simp
  have cnt: "length (filter (\<lambda>r. in_range r k) (build_ranges l ?ss u)) = (if l \<le> k \<and> (u = [] \<or> k < u) then 1 else 0)"
    if "u = [] \<or> bytes_ascend l u \<and> (length l \<le> 1 \<or> List.last l \<noteq> CHR 0x00)"
  proof (cases "1 < unat n")
    case True
    have "u = [] \<or> l < u \<and> bytes_ascend l u \<and> (length l \<le> 1 \<or> List.last l \<noteq> CHR 0x00)" using that assms(2) by blast
    from split_keys_ok [OF True this] show ?thesis by (intro build_ranges_count) auto
  next
    case False
    then have "[1..<unat n] = []" by simp
    then show ?thesis by (intro build_ranges_count) auto
  qed
  show ?thesis
    unfolding p using build_ranges_chain [of l ?ss u] n0 cnt unfolding len by auto
qed

text \<open>C21. Partitioning is exact: for a positive number of partitions and a non-empty key range, the
  result has that many ranges, starting and ending at the given bounds and each starting where the
  previous one ends.  If the range is unbounded, or no byte of the upper bound is below the
  lower bound's at the same position and the lower bound does not end in a zero byte, every key
  of the range lies in exactly one partition and no other key in any.\<close>

theorem partition_exact:
  assumes "n \<noteq> 0" and "u = [] \<or> l < u"
  shows "length (partition_keys l u n) = unat n \<and>
    kr_lowerBound (hd (partition_keys l u n)) = l \<and> kr_upperBound (List.last (partition_keys l u n)) = u \<and>
    (\<forall>i. Suc i < unat n \<longrightarrow> kr_upperBound (partition_keys l u n ! i) = kr_lowerBound (partition_keys l u n ! Suc i)) \<and>
    (u = [] \<or> bytes_ascend l u \<and> (length l \<le> 1 \<or> List.last l \<noteq> CHR 0x00) \<longrightarrow>
      length (filter (\<lambda>r. in_range r k) (partition_keys l u n)) = (if l \<le> k \<and> (u = [] \<or> k < u) then 1 else 0))"
  by (rule partition_ranges [OF assms])

theorem partition_exact_witness:
  "length (filter (\<lambda>r. in_range r ''m'') (partition_keys ''a'' ''z'' 4)) = 1"
proof -
  have "bytes_ascend ''a'' ''z''" by (simp add: bytes_ascend_def byte_at_def)
  with partition_exact [of 4 "''z''" "''a''" "''m''"] show ?thesis by simp
qed


text \<open>Descending bytes break it: the split keys of four partitions go up and down, so that a key of the
  range lies in two partitions and a key below the range in one.\<close>

lemma rnd_quarter: "\<bar>k\<bar> \<le> 2 ^ 53 \<Longrightarrow> rnd (of_int k / 4) = of_int k / 4"
  using rnd_exact [of k "- 2"] by (simp add: power_int_minus)

text \<open>The ranges may overlap and may leave the key space: for the bounds \<open>01 FF\<close> and \<open>03 01\<close> and
  four partitions, the key \<open>02 50\<close> lies in two partitions, and the key \<open>01 C0\<close>, which is
  below the lower bound, in one.\<close>

theorem partitions_overlap:
  "let ps = partition_keys [CHR 0x01, CHR 0xff] [CHR 0x03, CHR 0x01] 4
   in length (filter (\<lambda>r. in_range r [CHR 0x02, CHR 0x50]) ps) = 2 \<and>
      [CHR 0x01, CHR 0xc0] < [CHR 0x01, CHR 0xff] \<and>
      length (filter (\<lambda>r. in_range r [CHR 0x01, CHR 0xc0]) ps) = 1"
proof -
  let ?l = "[CHR 0x01, CHR 0xff]" and ?u = "[CHR 0x03, CHR 0x01]"
  have q: "rnd (k / 4) = k / 4" if "k = of_int j" "\<bar>j\<bar> \<le> 2 ^ 53" for k j using rnd_quarter [OF that(2)] that(1) by simp
  have i: "rnd k = k" if "k = of_int j" "\<bar>j\<bar> \<le> 2 ^ 53" for k j using rnd_int [OF that(2)] that(1) by simp
  have f: "split_fraction 1 4 = 1 / 4" "split_fraction 2 4 = 1 / 2" "split_fraction 3 4 = 3 / 4"
    using i [of 1 1] i [of 2 2] i [of 3 3] i [of 4 4] q [of 1 1] q [of 2 2] q [of 3 3]
    by (simp_all add: split_fraction_def ddiv_def)
  have d: "rnd 2 = 2" "rnd (- 254) = - 254" "rnd (1 / 2) = 1 / 2" "rnd 1 = 1" "rnd (3 / 2) = 3 / 2"
    "rnd (- (127 / 2)) = - (127 / 2)" "rnd (- 127) = - 127" "rnd (- (381 / 2)) = - (381 / 2)"
    "rnd (5 / 2) = 5 / 2" "rnd (383 / 2) = 383 / 2" "rnd 128 = 128" "rnd (129 / 2) = 129 / 2"
    using i [of 2 2] i [of "- 254" "- 254"] q [of 2 2] i [of 1 1] q [of 6 6] q [of "- 254" "- 254"] i [of "- 127" "- 127"]
      q [of "- 762" "- 762"] q [of 10 10] q [of 766 766] i [of 128 128] q [of 258 258]
    by simp_all
  have fl: "\<lfloor>3 / 2 :: rat\<rfloor> = 1" "\<lfloor>5 / 2 :: rat\<rfloor> = 2" "\<lfloor>383 / 2 :: rat\<rfloor> = 191" "\<lfloor>129 / 2 :: rat\<rfloor> = 64"
    by (simp_all add: floor_eq_iff)
  have b: "interpolate_byte 1 3 (1 / 4) = 1" "interpolate_byte 1 3 (1 / 2) = 2" "interpolate_byte 1 3 (3 / 4) = 2"
    "interpolate_byte 255 1 (1 / 4) = 191" "interpolate_byte 255 1 (1 / 2) = 128" "interpolate_byte 255 1 (3 / 4) = 64"
    by (simp_all add: interpolate_byte_def dsub_def dmul_def dadd_def d fl)
  have at: "byte_at ?l 0 = 1" "byte_at ?l 1 = 255" "byte_at ?u 0 = 3" "byte_at ?u 1 = 1" by (simp_all add: byte_at_def)
  have u2: "map g [0..<max (length ?l) (length ?u)] = [g 0, g 1]" for g :: "nat \<Rightarrow> char" by (simp add: upt_rec)
  have ik: "interpolateKey ?l ?u h = trim_zeros [char_of (interpolate_byte 1 3 h), char_of (interpolate_byte 255 1 h)]" for h
    unfolding interpolateKey_def Let_def u2 at by simp
  have u4: "unat (4 :: u32) = 4" by simp
  have k: "split_key ?l ?u 4 1 = [CHR 0x01, CHR 0xbf]" "split_key ?l ?u 4 2 = [CHR 0x02, CHR 0x80]"
    "split_key ?l ?u 4 3 = [CHR 0x02, CHR 0x40]"
    by (simp_all only: split_key_def Let_def u4 f ik b list.distinct if_False) (simp_all add: trim_zeros_Cons char_of_def bit_0)
  have "partition_keys ?l ?u 4 = build_ranges ?l [[CHR 0x01, CHR 0xbf], [CHR 0x02, CHR 0x80], [CHR 0x02, CHR 0x40]] ?u"
  proof -
    have "map g [1..<unat (4 :: u32)] = [g 1, g 2, g 3]" for g :: "nat \<Rightarrow> string" by (simp add: upt_rec, simp add: numeral_2_eq_2 numeral_3_eq_3)
    then show ?thesis unfolding partition_keys_def k [symmetric] by (simp add: less_char_def)
  qed
  then show ?thesis by (simp add: in_range_def Let_def less_char_def less_eq_char_def)
qed

text \<open>Split points from samples.\<close>

lemma split_points_sorted:
  assumes "sorted xs" and "xs \<noteq> []"
  shows "sorted (map (\<lambda>i. let idx = nat \<lfloor>dmul (split_fraction i n) (rnd (of_nat (length xs)))\<rfloor>;
      idx = (if idx \<ge> length xs then length xs - 1 else idx) in xs ! idx) [1..<m])"
proof -
  have mono: "nat \<lfloor>dmul (split_fraction i n) (rnd (of_nat (length xs)))\<rfloor> \<le> nat \<lfloor>dmul (split_fraction j n) (rnd (of_nat (length xs)))\<rfloor>"
    if "i \<le> j" for i j
  proof -
    have "0 \<le> rnd (of_nat (length xs))" using rnd_mono [of 0 "of_nat (length xs)"] by simp
    with split_fraction_mono [OF that] have
      "split_fraction i n * rnd (of_nat (length xs)) \<le> split_fraction j n * rnd (of_nat (length xs))"
      by (rule mult_right_mono)
    then show ?thesis unfolding dmul_def by (intro nat_mono floor_mono rnd_mono)
  qed
  have pick: "xs ! (if a \<ge> length xs then length xs - 1 else a) \<le> xs ! (if b \<ge> length xs then length xs - 1 else b)"
    if "a \<le> b" for a b using that assms(2) by (intro sorted_nth_mono [OF assms(1)]) (auto simp: not_le)
  show ?thesis unfolding sorted_map Let_def by (rule sorted_wrt_mono_rel [OF _ sorted_upt]) (rule pick [OF mono])
qed

lemma distinct_adj_sorted: "sorted (xs :: 'a :: linorder list) \<Longrightarrow> distinct_adj xs \<Longrightarrow> distinct xs"
proof (induction xs rule: induct_list012)
  case (3 x y zs)
  then have "x < y" by (auto simp: distinct_adj_Cons)
  then show ?case using 3 by (auto simp: distinct_adj_Cons)
qed simp_all

text \<open>Split points are sampled keys in ascending order: one fewer than the partitions when there are
  enough distinct samples, else every distinct sample.\<close>

theorem split_points_ok:
  "sorted (computeSplitPoints ks n) \<and> set (computeSplitPoints ks n) \<subseteq> set ks \<and>
   (1 < n \<and> ks \<noteq> [] \<longrightarrow>
     (if card (set ks) < unat n then set (computeSplitPoints ks n) = set ks \<and> distinct (computeSplitPoints ks n)
      else length (computeSplitPoints ks n) = unat n - 1))"
proof -
  let ?xs = "remdups_adj (sort ks)"
  have s: "sorted ?xs" "set ?xs = set ks" "distinct ?xs"
    by (simp_all add: sorted_remdups_adj distinct_adj_sorted)
  then have c: "card (set ks) = length ?xs" by (metis distinct_card)
  show ?thesis
  proof (cases "n \<le> 1 \<or> ks = []")
    case True
    then show ?thesis by (auto simp: computeSplitPoints_def not_less)
  next
    case False
    then have ne: "?xs \<noteq> []" using s(2) by (metis set_empty)
    show ?thesis
    proof (cases "length ?xs < unat n")
      case True
      then show ?thesis using False s c by (simp add: computeSplitPoints_def Let_def)
    next
      case le: False
      have "xs ! (if idx \<ge> length xs then length xs - 1 else idx) \<in> set xs" if "xs \<noteq> []" for xs :: "string list" and idx
        using that by auto
      from this [OF ne] show ?thesis
        using False le c split_points_sorted [OF s(1) ne, of "unat n" "unat n"] s(2)
        by (auto simp: computeSplitPoints_def Let_def)
    qed
  qed
qed

theorem split_points_ok_witness: "length (computeSplitPoints [''b'', ''a'', ''c''] 3) = 2"
proof -
  have "card (set [''b'', ''a'', ''c'']) = 3" by simp
  with split_points_ok [of "[''b'', ''a'', ''c'']" 3] show ?thesis by (simp add: word_less_nat_alt)
qed

end
