(* ===== verification/Index_Builder.thy ===== *)
theory Index_Builder
  imports Key_Partition "HOL-Library.Multiset"
begin

text \<open>
  Parallel index building (\<^verbatim>\<open>Enterprise/RocksDBEngine/RocksDBBuilderIndexEE.cpp\<close>) and the
  changelog of concurrent writes (\<^verbatim>\<open>ChangelogBuffer.cpp\<close>).  The scans of the partitions run
  interleaved: a schedule names the scan that makes the next iteration of its loop.  Callbacks
  thread a state \<open>'s\<close>.  \<open>std::string::capacity\<close> is an argument \<open>cap\<close>.
\<close>

section \<open>ChangelogBuffer\<close>

datatype changelog_op = kInsert | kUpdate | kDelete

record changelog_entry =
  ce_opType :: changelog_op
  ce_documentKey :: string
  ce_documentRev :: string
  ce_documentData :: string

record changelog =
  cb_entries :: "changelog_entry list"
  cb_memoryBudgetBytes :: u64
  cb_currentMemoryUsage :: u64

definition ChangelogBuffer :: "u64 \<Rightarrow> changelog" where
  "ChangelogBuffer memoryBudgetBytes =
     \<lparr>cb_entries = [], cb_memoryBudgetBytes = memoryBudgetBytes, cb_currentMemoryUsage = 0\<rparr>"

definition kEntryBaseOverhead :: u64 where "kEntryBaseOverhead = 1 + 3 * 32 + 8"

definition estimateEntrySize :: "(string \<Rightarrow> u64) \<Rightarrow> changelog_entry \<Rightarrow> u64" where
  "estimateEntrySize cap e =
     kEntryBaseOverhead + cap (ce_documentKey e) + cap (ce_documentRev e) + cap (ce_documentData e)"

definition changelog_append :: "(string \<Rightarrow> u64) \<Rightarrow> changelog_entry \<Rightarrow> changelog \<Rightarrow> bool \<times> changelog" where
  "changelog_append cap e c =
     (let entrySize = estimateEntrySize cap e
      in if cb_currentMemoryUsage c + entrySize > cb_memoryBudgetBytes c then (False, c)
         else (True, c\<lparr>cb_currentMemoryUsage := cb_currentMemoryUsage c + entrySize, cb_entries := cb_entries c @ [e]\<rparr>))"

definition changelog_forEach :: "(changelog_entry \<Rightarrow> 's \<Rightarrow> 's) \<Rightarrow> changelog \<Rightarrow> 's \<Rightarrow> 's" where
  "changelog_forEach cb c s = fold cb (cb_entries c) s"

definition changelog_size :: "changelog \<Rightarrow> nat" where "changelog_size c = length (cb_entries c)"

definition memoryUsage :: "changelog \<Rightarrow> u64" where "memoryUsage c = cb_currentMemoryUsage c"

definition changelog_clear :: "changelog \<Rightarrow> changelog" where
  "changelog_clear c = c\<lparr>cb_entries := [], cb_currentMemoryUsage := 0\<rparr>"

section \<open>Scanning one partition\<close>

record 'i index_iterator =
  ix_seek :: "'i \<Rightarrow> string \<Rightarrow> 'i"
  ix_valid :: "'i \<Rightarrow> bool"
  ix_next :: "'i \<Rightarrow> 'i"
  ix_key :: "'i \<Rightarrow> string"
  ix_value :: "'i \<Rightarrow> string"

datatype 'i scan = Submitted key_range | Scanning key_range 'i | Finished bool

text \<open>One step of a task: creating the iterator and seeking, or one iteration of the loop.\<close>

definition scan_step ::
  "'i index_iterator \<Rightarrow> (string \<Rightarrow> string \<Rightarrow> 'i option) \<Rightarrow> (string \<Rightarrow> string \<Rightarrow> 's \<Rightarrow> bool \<times> 's) \<Rightarrow>
     'i scan \<Rightarrow> 's \<Rightarrow> 'i scan \<times> 's" where
  "scan_step ix snapshotFactory indexInserter sc s =
     (case sc of
        Submitted rg \<Rightarrow>
          (case snapshotFactory (kr_lowerBound rg) (kr_upperBound rg) of
             None \<Rightarrow> (Finished False, s)
           | Some it \<Rightarrow> (Scanning rg (ix_seek ix it (kr_lowerBound rg)), s))
      | Scanning rg it \<Rightarrow>
          if \<not> ix_valid ix it then (Finished True, s)
          else let k = ix_key ix it
               in if kr_upperBound rg \<noteq> [] \<and> k \<ge> kr_upperBound rg then (Finished True, s)
                  else (case indexInserter k (ix_value ix it) s of (ok, s') \<Rightarrow>
                          if \<not> ok then (Finished False, s') else (Scanning rg (ix_next ix it), s'))
      | Finished b \<Rightarrow> (Finished b, s))"

text \<open>All tasks, interleaved by a schedule.\<close>

fun run_scans ::
  "'i index_iterator \<Rightarrow> (string \<Rightarrow> string \<Rightarrow> 'i option) \<Rightarrow> (string \<Rightarrow> string \<Rightarrow> 's \<Rightarrow> bool \<times> 's) \<Rightarrow>
     nat list \<Rightarrow> 'i scan list \<times> 's \<Rightarrow> 'i scan list \<times> 's" where
  "run_scans ix fac ins [] st = st"
| "run_scans ix fac ins (t # sched) (scs, s) =
     run_scans ix fac ins sched
       (if t < length scs then (case scan_step ix fac ins (scs ! t) s of (sc, s') \<Rightarrow> (scs[t := sc], s')) else (scs, s))"

fun is_finished :: "'i scan \<Rightarrow> bool" where
  "is_finished (Finished _) = True"
| "is_finished _ = False"

section \<open>RocksDBBuilderIndexEE\<close>

datatype build_state = kIdle | kBuilding | kApplyingChangelog | kSwapping | kComplete | kFailed

record builder_config =
  bc_numThreads :: u32
  bc_memoryBudgetMB :: u64
  bc_backgroundMode :: bool

definition builder_config_init :: builder_config where
  "builder_config_init = \<lparr>bc_numThreads = 4, bc_memoryBudgetMB = 256, bc_backgroundMode = False\<rparr>"

record builder =
  bi_config :: builder_config
  bi_poolRunning :: bool
  bi_changelog :: changelog
  bi_state :: build_state

definition RocksDBBuilderIndexEE :: "builder_config \<Rightarrow> builder" where
  "RocksDBBuilderIndexEE config =
     \<lparr>bi_config = config, bi_poolRunning = True,
      bi_changelog = ChangelogBuffer (bc_memoryBudgetMB config * 1024 * 1024), bi_state = kIdle\<rparr>"

text \<open>\<open>None\<close> is a call that still waits for a future when the schedule ends.\<close>

definition fillIndexParallel ::
  "'i index_iterator \<Rightarrow> (string \<Rightarrow> string \<Rightarrow> 'i option) \<Rightarrow> (string \<Rightarrow> string \<Rightarrow> 's \<Rightarrow> bool \<times> 's) \<Rightarrow> string \<Rightarrow> string \<Rightarrow>
     nat list \<Rightarrow> builder \<Rightarrow> 's \<Rightarrow> (bool \<times> builder \<times> 's) option" where
  "fillIndexParallel ix fac ins keyRangeLower keyRangeUpper sched b s =
     (if bi_state b \<noteq> kIdle then Some (False, b, s)
      else let b = b\<lparr>bi_state := kBuilding\<rparr>;
               partitions = partition_keys keyRangeLower keyRangeUpper (bc_numThreads (bi_config b))
           in if partitions = [] \<and> bc_numThreads (bi_config b) > 0 then Some (True, b, s)
              else if partitions \<noteq> [] \<and> \<not> bi_poolRunning b then Some (False, b\<lparr>bi_state := kFailed\<rparr>, s)
              else (case run_scans ix fac ins sched (map Submitted partitions, s) of (scs, s') \<Rightarrow>
                      if \<not> list_all is_finished scs then None
                      else if list_all (\<lambda>sc. sc = Finished True) scs then Some (True, b, s')
                      else Some (False, b\<lparr>bi_state := kFailed\<rparr>, s')))"

definition bufferWrite :: "(string \<Rightarrow> u64) \<Rightarrow> changelog_entry \<Rightarrow> builder \<Rightarrow> bool \<times> builder" where
  "bufferWrite cap e b =
     (if \<not> bc_backgroundMode (bi_config b) then (False, b)
      else if bi_state b \<noteq> kBuilding then (False, b)
      else (case changelog_append cap e (bi_changelog b) of (ok, c) \<Rightarrow> (ok, b\<lparr>bi_changelog := c\<rparr>)))"

definition applyChangelog ::
  "(changelog_entry \<Rightarrow> 's \<Rightarrow> bool \<times> 's) \<Rightarrow> builder \<Rightarrow> 's \<Rightarrow> bool \<times> builder \<times> 's" where
  "applyChangelog applier b s =
     (if bi_state b \<noteq> kBuilding then (False, b, s)
      else let b = b\<lparr>bi_state := kApplyingChangelog\<rparr>
           in case changelog_forEach (\<lambda>e (success, s). if success then applier e s else (success, s)) (bi_changelog b) (True, s) of
                (success, s') \<Rightarrow>
                  if \<not> success then (False, b\<lparr>bi_state := kFailed\<rparr>, s')
                  else (True, b\<lparr>bi_changelog := changelog_clear (bi_changelog b)\<rparr>, s'))"



section \<open>Interleaved scans\<close>

lemma concat_update_mset:
  "i < length xs \<Longrightarrow> mset (concat (map f (xs[i := y]))) + mset (f (xs ! i)) = mset (concat (map f xs)) + mset (f y)"
  by (induction xs arbitrary: i) (auto split: nat.splits)

text \<open>The inserter that records what it is given.\<close>

definition collect :: "string \<Rightarrow> string \<Rightarrow> (string \<times> string) list \<Rightarrow> bool \<times> (string \<times> string) list" where
  "collect k v entries = (True, entries @ [(k, v)])"

text \<open>What a scan relies on: the factory gives an iterator over one snapshot, the sorted list
  \<open>data\<close>; after \<open>seek\<close> to the lower bound it walks the entries of the range in order, and may
  or may not go on beyond the upper bound.\<close>

locale snapshot_iterators =
  fixes ix :: "'i index_iterator"
    and fac :: "string \<Rightarrow> string \<Rightarrow> 'i option"
    and rest :: "'i \<Rightarrow> (string \<times> string) list"
    and data :: "(string \<times> string) list"
  assumes factory: "\<exists>it. fac l u = Some it"
    and seek: "fac l u = Some it \<Longrightarrow>
      takeWhile (\<lambda>(k, v). u = [] \<or> k < u) (rest (ix_seek ix it l)) = filter (\<lambda>(k, v). l \<le> k \<and> (u = [] \<or> k < u)) data"
    and valid: "ix_valid ix it \<longleftrightarrow> rest it \<noteq> []"
    and walk: "rest it = (k, v) # r \<Longrightarrow> ix_key ix it = k \<and> ix_value ix it = v \<and> rest (ix_next ix it) = r"
begin

fun pending :: "'i scan \<Rightarrow> (string \<times> string) list" where
  "pending (Submitted rg) = filter (\<lambda>(k, v). in_range rg k) data"
| "pending (Scanning rg it) = takeWhile (\<lambda>(k, v). kr_upperBound rg = [] \<or> k < kr_upperBound rg) (rest it)"
| "pending (Finished b) = []"

fun cost :: "'i scan \<Rightarrow> nat" where
  "cost (Submitted rg) = length data + 2"
| "cost (Scanning rg it) = length (pending (Scanning rg it)) + 1"
| "cost (Finished b) = 0"

lemma scan_step_pending:
  assumes "scan_step ix fac collect sc s = (sc', s')"
  shows "mset s' + mset (pending sc') = mset s + mset (pending sc) \<and> cost sc' \<le> cost sc - 1 \<and>
    (sc \<noteq> Finished False \<longrightarrow> sc' \<noteq> Finished False)"
proof (cases sc)
  case (Submitted rg)
  obtain it where it: "fac (kr_lowerBound rg) (kr_upperBound rg) = Some it" using factory by blast
  then have e: "sc' = Scanning rg (ix_seek ix it (kr_lowerBound rg))" "s' = s"
    using assms by (auto simp: scan_step_def Submitted)
  have "pending sc' = pending sc" using seek [OF it] by (simp add: e Submitted in_range_def)
  moreover have "length (pending sc) \<le> length data" by (simp add: Submitted)
  ultimately show ?thesis using e by (simp add: Submitted)
next
  case (Scanning rg it)
  show ?thesis
  proof (cases "rest it")
    case Nil
    then show ?thesis using assms valid [of it] by (auto simp: scan_step_def Scanning)
  next
    case (Cons kv r)
    obtain k v where kv: "kv = (k, v)" by (cases kv)
    note w = walk [OF Cons [unfolded kv]]
    show ?thesis
    proof (cases "kr_upperBound rg \<noteq> [] \<and> k \<ge> kr_upperBound rg")
      case True
      then show ?thesis using assms valid [of it] w Cons kv by (auto simp: scan_step_def Scanning not_less)
    next
      case False
      have "ix_valid ix it" using valid [of it] Cons by simp
      then have "scan_step ix fac collect sc s = (Scanning rg (ix_next ix it), s @ [(k, v)])"
        using False w by (auto simp: scan_step_def Scanning collect_def)
      then have e: "sc' = Scanning rg (ix_next ix it)" "s' = s @ [(k, v)]" using assms by auto
      have "kr_upperBound rg = [] \<or> k < kr_upperBound rg" using False by (auto simp: not_le)
      then have "pending sc = (k, v) # pending sc'" using w by (simp add: Scanning e Cons kv)
      then show ?thesis by (simp add: e Scanning)
    qed
  qed
next
  case (Finished b)
  then show ?thesis using assms by (auto simp: scan_step_def)
qed

lemma run_scans_pending:
  assumes "run_scans ix fac collect sched (scs, s) = (scs', s')"
  shows "mset s' + mset (concat (map pending scs')) = mset s + mset (concat (map pending scs)) \<and>
    length scs' = length scs \<and> (\<forall>i < length scs. cost (scs' ! i) \<le> cost (scs ! i) - count_list sched i) \<and>
    (Finished False \<notin> set scs \<longrightarrow> Finished False \<notin> set scs')"
  using assms
proof (induction sched arbitrary: scs s)
  case Nil
  then show ?case by simp
next
  case (Cons t sched)
  show ?case
  proof (cases "t < length scs")
    case False
    then have "run_scans ix fac collect sched (scs, s) = (scs', s')" using Cons.prems by simp
    from Cons.IH [OF this] False show ?thesis by auto
  next
    case True
    obtain sc' s1 where st: "scan_step ix fac collect (scs ! t) s = (sc', s1)" by (cases "scan_step ix fac collect (scs ! t) s")
    note p = scan_step_pending [OF st]
    have "run_scans ix fac collect sched (scs[t := sc'], s1) = (scs', s')" using Cons.prems True st by simp
    from Cons.IH [OF this] have ih: "mset s' + mset (concat (map pending scs')) = mset s1 + mset (concat (map pending (scs[t := sc'])))"
      "length scs' = length scs" "\<forall>i < length scs. cost (scs' ! i) \<le> cost (scs[t := sc'] ! i) - count_list sched i"
      "Finished False \<notin> set (scs[t := sc']) \<longrightarrow> Finished False \<notin> set scs'" by auto
    have "mset s1 + mset (concat (map pending (scs[t := sc']))) = mset s + mset (concat (map pending scs))"
    proof -
      let ?B = "mset (pending sc')" and ?E = "mset (pending (scs ! t))"
      let ?C = "mset (concat (map pending (scs[t := sc'])))"
      have "(mset s1 + ?C) + (?B + ?E) = (mset s1 + ?B) + (?C + ?E)" by (simp only: ac_simps)
      also have "\<dots> = (mset s + ?E) + (mset (concat (map pending scs)) + ?B)"
        using p concat_update_mset [OF True, of pending sc'] by (simp only:)
      also have "\<dots> = (mset s + mset (concat (map pending scs))) + (?B + ?E)" by (simp only: ac_simps)
      finally show ?thesis by (rule add_right_imp_eq)
    qed
    moreover have "cost (scs' ! i) \<le> cost (scs ! i) - count_list (t # sched) i" if "i < length scs" for i
      using ih(3) that p by (cases "i = t") (auto simp: nth_list_update)
    moreover have "Finished False \<notin> set (scs[t := sc'])" if "Finished False \<notin> set scs"
    proof -
      have "scs ! t \<noteq> Finished False" using that nth_mem [OF True] by metis
      then have "sc' \<noteq> Finished False" using p by blast
      then show ?thesis using that set_update_subset_insert [of scs t sc'] by blast
    qed
    ultimately show ?thesis using ih by auto
  qed
qed

end


section \<open>Iterators over a sorted map\<close>

text \<open>\<open>MockIndexIterator\<close> and its factory, \<^verbatim>\<open>tests/mocks/RocksDBIndexMocks.h\<close>: a
  \<open>std::map\<close> is its sorted list of entries, and a position what is left of it.\<close>

record map_iterator =
  mi_data :: "(string \<times> string) list"
  mi_upperBound :: string
  mi_current :: "(string \<times> string) list"

definition map_iterator_create :: "(string \<times> string) list \<Rightarrow> string \<Rightarrow> string \<Rightarrow> map_iterator option" where
  "map_iterator_create data lowerBound upperBound =
     Some \<lparr>mi_data = data, mi_upperBound = upperBound, mi_current = []\<rparr>"

definition map_iterator_valid :: "map_iterator \<Rightarrow> bool" where
  "map_iterator_valid it =
     (if mi_current it = [] then False
      else if mi_upperBound it \<noteq> [] \<and> fst (hd (mi_current it)) \<ge> mi_upperBound it then False else True)"

definition map_iterator_ops :: "map_iterator index_iterator" where
  "map_iterator_ops = \<lparr>
     ix_seek = (\<lambda>it key. it\<lparr>mi_current := dropWhile (\<lambda>(k, v). k < key) (mi_data it)\<rparr>),
     ix_valid = map_iterator_valid,
     ix_next = (\<lambda>it. it\<lparr>mi_current := tl (mi_current it)\<rparr>),
     ix_key = (\<lambda>it. fst (hd (mi_current it))),
     ix_value = (\<lambda>it. snd (hd (mi_current it)))\<rparr>"

definition map_iterator_rest :: "map_iterator \<Rightarrow> (string \<times> string) list" where
  "map_iterator_rest it = takeWhile (\<lambda>(k, v). mi_upperBound it = [] \<or> k < mi_upperBound it) (mi_current it)"

lemma sorted_range:
  "sorted (map fst xs) \<Longrightarrow> takeWhile (\<lambda>(k, v). u = [] \<or> k < u) (dropWhile (\<lambda>(k, v). k < l) xs) =
     filter (\<lambda>(k, v). l \<le> k \<and> (u = [] \<or> k < u)) (xs :: (string \<times> string) list)"
proof (induction xs)
  case (Cons x xs)
  obtain k v where x: "x = (k, v)" by (cases x)
  have ge: "\<forall>(k', v') \<in> set xs. k \<le> k'" using Cons.prems x by auto
  have tw: "takeWhile (\<lambda>(k, v). u = [] \<or> k < u) xs = filter (\<lambda>(k, v). l \<le> k \<and> (u = [] \<or> k < u)) xs" if "l \<le> k"
  proof -
    have "dropWhile (\<lambda>(k, v). k < l) xs = xs"
      using ge that by (cases xs) (auto simp: not_less)
    then show ?thesis using Cons by simp
  qed
  show ?case
  proof (cases "l \<le> k \<and> \<not> (u = [] \<or> k < u)")
    case True
    then have "filter (\<lambda>(k, v). l \<le> k \<and> (u = [] \<or> k < u)) xs = []"
      using ge by (auto simp: filter_empty_conv not_less intro: order.trans)
    then show ?thesis using True x by (auto simp: not_less)
  next
    case False
    then show ?thesis using Cons x tw by (auto simp: not_less)
  qed
qed simp

interpretation map_snapshot: snapshot_iterators map_iterator_ops
  "map_iterator_create (sort_key fst d)" map_iterator_rest "sort_key fst d" for d
proof
  fix l u it
  assume "map_iterator_create (sort_key fst d) l u = Some it"
  then have it: "it = \<lparr>mi_data = sort_key fst d, mi_upperBound = u, mi_current = []\<rparr>" by (simp add: map_iterator_create_def)
  have idem: "takeWhile P (takeWhile P ys) = takeWhile P ys" for P and ys :: "(string \<times> string) list"
    by (auto simp: takeWhile_eq_all_conv dest: set_takeWhileD)
  show "takeWhile (\<lambda>(k, v). u = [] \<or> k < u) (map_iterator_rest (ix_seek map_iterator_ops it l)) =
      filter (\<lambda>(k, v). l \<le> k \<and> (u = [] \<or> k < u)) (sort_key fst d)"
    using sorted_range [of "sort_key fst d" u l] by (simp add: map_iterator_rest_def map_iterator_ops_def it idem)
next
  fix it
  show "ix_valid map_iterator_ops it \<longleftrightarrow> map_iterator_rest it \<noteq> []"
    by (cases "mi_current it") (auto simp: map_iterator_ops_def map_iterator_valid_def map_iterator_rest_def not_less split: prod.splits)
next
  fix it k v r
  assume "map_iterator_rest it = (k, v) # r"
  then show "ix_key map_iterator_ops it = k \<and> ix_value map_iterator_ops it = v \<and> map_iterator_rest (ix_next map_iterator_ops it) = r"
    by (cases "mi_current it") (auto simp: map_iterator_ops_def map_iterator_rest_def split: if_splits)
qed (simp add: map_iterator_create_def)

lemma mset_concat_filter:
  assumes "\<forall>x \<in> set xs. length (filter (\<lambda>r. P r x) rs) = (if Q x then 1 else 0)"
  shows "mset (concat (map (\<lambda>r. filter (P r) xs) rs)) = mset (filter Q xs)"
proof -
  have step: "mset (concat (map (\<lambda>r. filter (P r) (x # xs)) rs)) =
      replicate_mset (length (filter (\<lambda>r. P r x) rs)) x + mset (concat (map (\<lambda>r. filter (P r) xs) rs))" for x xs rs
    by (induction rs) auto
  have empty: "mset (concat (map (\<lambda>r. filter (P r) []) rs)) = {#}" by (induction rs) auto
  show ?thesis using assms
  proof (induction xs)
    case Nil
    show ?case unfolding empty by simp
  next
    case (Cons x xs)
    have one: "replicate_mset (Suc 0) x = {#x#}" by simp
    from Cons show ?case unfolding step by (auto simp del: concat.simps)
  qed
qed


section \<open>Properties of a parallel fill\<close>

text \<open>When the scans have ended, the call returns true and what was inserted is a permutation of the
  entries in the range.\<close>

lemma finished_fill:
  assumes "bi_state b = kIdle" and "bi_poolRunning b" and "bc_numThreads (bi_config b) \<noteq> 0"
    and "u = [] \<or> l < u \<and> bytes_ascend l u \<and> (length l \<le> 1 \<or> List.last l \<noteq> CHR 0x00)"
    and run: "run_scans map_iterator_ops (map_iterator_create (sort_key fst d)) collect sched
        (map Submitted (partition_keys l u (bc_numThreads (bi_config b))), []) = (scs, es)"
    and fin: "list_all is_finished scs"
  shows "fillIndexParallel map_iterator_ops (map_iterator_create (sort_key fst d)) collect l u sched b [] =
      Some (True, b\<lparr>bi_state := kBuilding\<rparr>, es) \<and>
    mset es = mset (filter (\<lambda>(k, v). l \<le> k \<and> (u = [] \<or> k < u)) d)"
proof -
  let ?n = "bc_numThreads (bi_config b)" and ?data = "sort_key fst d"
  let ?ps = "partition_keys l u ?n"
  have ne: "u = [] \<or> l < u" using assms(4) by blast
  have cond: "u = [] \<or> bytes_ascend l u \<and> (length l \<le> 1 \<or> List.last l \<noteq> CHR 0x00)" using assms(4) by blast
  have len: "length ?ps = unat ?n" and cnt: "length (filter (\<lambda>r. in_range r k) ?ps) = (if l \<le> k \<and> (u = [] \<or> k < u) then 1 else 0)" for k
    using partition_ranges [OF assms(3) ne] cond by blast+
  have psne: "?ps \<noteq> []" using len assms(3) by (metis length_0_conv unat_eq_0)
  note r = map_snapshot.run_scans_pending [OF run]
  have pend: "map (map_snapshot.pending d) (map Submitted ?ps) = map (\<lambda>r. filter (\<lambda>(k, v). in_range r k) ?data) ?ps"
    by simp
  have ends: "sc = Finished True" if "sc \<in> set scs" for sc
  proof -
    have "is_finished sc" "sc \<noteq> Finished False" using that fin r by (auto simp: list_all_iff)
    then show ?thesis by (cases sc) auto
  qed
  then have "list_all (\<lambda>sc. sc = Finished True) scs" by (auto simp: list_all_iff)
  then have fill: "fillIndexParallel map_iterator_ops (map_iterator_create ?data) collect l u sched b [] =
      Some (True, b\<lparr>bi_state := kBuilding\<rparr>, es)"
    using assms(1,2) psne run fin by (simp add: fillIndexParallel_def Let_def)
  have "map_snapshot.pending d sc = []" if "sc \<in> set scs" for sc by (simp add: ends [OF that])
  then have "concat (map (map_snapshot.pending d) scs) = []" by simp
  then have "mset es = mset (concat (map (map_snapshot.pending d) (map Submitted ?ps)))"
    using r by (metis add.left_neutral add.right_neutral mset.simps(1))
  also have "\<dots> = mset (concat (map (\<lambda>r. filter (\<lambda>x. in_range r (fst x)) ?data) ?ps))"
    unfolding pend by (simp only: case_prod_unfold)
  also have "\<dots> = mset (filter (\<lambda>x. l \<le> fst x \<and> (u = [] \<or> fst x < u)) ?data)"
    by (rule mset_concat_filter) (simp add: cnt)
  also have "\<dots> = mset (filter (\<lambda>(k, v). l \<le> k \<and> (u = [] \<or> k < u)) d)"
    by (simp add: case_prod_unfold)
  finally show ?thesis using fill by blast
qed

text \<open>A parallel fill indexes every entry of the key range exactly once: with at least one
  thread, over bounds that split into ascending ranges, and under any interleaving of the scans that
  gives each of them enough steps to end, the call returns true, leaves the builder in the
  building state, and what was inserted is a permutation of the snapshot's entries in the range.\<close>

theorem fill_indexes_each_once:
  assumes "bi_state b = kIdle" and "bi_poolRunning b" and "bc_numThreads (bi_config b) \<noteq> 0"
    and "u = [] \<or> l < u \<and> bytes_ascend l u \<and> (length l \<le> 1 \<or> List.last l \<noteq> CHR 0x00)"
    and "\<forall>i < unat (bc_numThreads (bi_config b)). length d + 2 \<le> count_list sched i"
  shows "\<exists>es. fillIndexParallel map_iterator_ops (map_iterator_create (sort_key fst d)) collect l u sched b [] =
      Some (True, b\<lparr>bi_state := kBuilding\<rparr>, es) \<and>
    mset es = mset (filter (\<lambda>(k, v). l \<le> k \<and> (u = [] \<or> k < u)) d)"
proof -
  let ?n = "bc_numThreads (bi_config b)" and ?ps = "partition_keys l u (bc_numThreads (bi_config b))"
  have len: "length ?ps = unat ?n" using partition_ranges [OF assms(3)] assms(4) by blast
  obtain scs es where run: "run_scans map_iterator_ops (map_iterator_create (sort_key fst d)) collect sched
      (map Submitted ?ps, []) = (scs, es)" by fastforce
  note r = map_snapshot.run_scans_pending [OF run]
  have "is_finished (scs ! i)" if "i < length scs" for i
  proof -
    have i: "i < length ?ps" using that r by simp
    then have "map_snapshot.cost d (map Submitted ?ps ! i) = length d + 2" by simp
    moreover have "map_snapshot.cost d (scs ! i) \<le> map_snapshot.cost d (map Submitted ?ps ! i) - count_list sched i"
      using r i by simp
    moreover have "length d + 2 \<le> count_list sched i" using assms(5) i len by simp
    ultimately have "map_snapshot.cost d (scs ! i) = 0" by linarith
    then show ?thesis by (cases "scs ! i") auto
  qed
  then have "list_all is_finished scs" by (simp add: list_all_length)
  from finished_fill [OF assms(1-4) run this] show ?thesis by blast
qed

theorem fill_indexes_each_once_witness:
  "\<exists>es. fillIndexParallel map_iterator_ops (map_iterator_create (sort_key fst [(''b'', ''1''), (''a'', ''2'')])) collect ''a'' []
      (replicate 4 0 @ replicate 4 1) (RocksDBBuilderIndexEE (builder_config_init\<lparr>bc_numThreads := 2\<rparr>)) [] =
      Some (True, (RocksDBBuilderIndexEE (builder_config_init\<lparr>bc_numThreads := 2\<rparr>))\<lparr>bi_state := kBuilding\<rparr>, es) \<and>
    mset es = {#(''a'', ''2''), (''b'', ''1'')#}"
proof -
  let ?b = "RocksDBBuilderIndexEE (builder_config_init\<lparr>bc_numThreads := 2\<rparr>)"
  have c: "count_list (replicate n x) y = (if x = y then n else 0)" for n and x y :: nat by (induction n) auto
  have h: "bi_state ?b = kIdle" "bi_poolRunning ?b" "bc_numThreads (bi_config ?b) \<noteq> 0"
    "\<forall>i < unat (bc_numThreads (bi_config ?b)). length [(''b'', ''1''), (''a'', ''2'')] + 2 \<le> count_list (replicate 4 0 @ replicate 4 1) i"
    by (auto simp: RocksDBBuilderIndexEE_def builder_config_init_def c less_2_cases_iff)
  have f: "filter (\<lambda>(k, v). ''a'' \<le> k \<and> ([] = ([] :: string) \<or> k < [])) [(''b'', ''1''), (''a'', ''2'')] = [(''b'', ''1''), (''a'', ''2'')]"
    by (simp add: less_char_def)
  from fill_indexes_each_once [OF h(1-3) disjI1 [OF refl] h(4), of "''a''"] show ?thesis
    unfolding f by (auto simp: add_mset_commute)
qed

text \<open>Without threads the same call returns true and indexes nothing.\<close>

lemma no_threads_indexes_nothing:
  assumes "bi_state b = kIdle" and "bc_numThreads (bi_config b) = 0"
  shows "fillIndexParallel ix fac ins l u sched b s = Some (True, b\<lparr>bi_state := kBuilding\<rparr>, s)"
proof -
  have "run_scans ix fac ins sched ([], s) = ([], s)" for sched by (induction sched) auto
  then show ?thesis using assms by (simp add: fillIndexParallel_def Let_def partition_keys_def)
qed


section \<open>The changelog\<close>

definition changelog_ok :: "(string \<Rightarrow> u64) \<Rightarrow> changelog \<Rightarrow> bool" where
  "changelog_ok cap c \<longleftrightarrow>
     unat (cb_currentMemoryUsage c) = sum_list (map (\<lambda>e. unat (estimateEntrySize cap e)) (cb_entries c)) \<and>
     cb_currentMemoryUsage c \<le> cb_memoryBudgetBytes c"

lemma changelog_append_ok:
  assumes "changelog_ok cap c" and "unat (cb_memoryBudgetBytes c) + unat (estimateEntrySize cap e) < 2 ^ 64"
  shows "changelog_ok cap (snd (changelog_append cap e c)) \<and>
    (fst (changelog_append cap e c) \<longleftrightarrow>
       sum_list (map (\<lambda>e. unat (estimateEntrySize cap e)) (cb_entries c @ [e])) \<le> unat (cb_memoryBudgetBytes c))"
proof -
  have le: "unat (cb_currentMemoryUsage c) \<le> unat (cb_memoryBudgetBytes c)"
    using assms(1) by (simp add: changelog_ok_def word_le_nat_alt)
  then have "unat (cb_currentMemoryUsage c) + unat (estimateEntrySize cap e) < 2 ^ LENGTH(64)" using assms(2) by simp
  then have "unat (cb_currentMemoryUsage c + estimateEntrySize cap e) =
      unat (cb_currentMemoryUsage c) + unat (estimateEntrySize cap e)" by (rule unat_add_lem [THEN iffD1])
  then show ?thesis using assms(1)
    by (auto simp: changelog_ok_def changelog_append_def Let_def word_less_nat_alt word_le_nat_alt not_less)
qed

section \<open>The life of a build\<close>



text \<open>A fill is represented by its effect on the state: \<open>OpFill r\<close> is one that returns \<open>r\<close> when it
  is allowed to start (lemma \<open>fill_state\<close>).\<close>

definition fill_effect :: "bool \<Rightarrow> builder \<Rightarrow> builder" where
  "fill_effect r b = (if bi_state b \<noteq> kIdle then b else b\<lparr>bi_state := if r then kBuilding else kFailed\<rparr>)"

lemma fill_state:
  "fillIndexParallel ix fac ins l u sched b s = Some (r, b', s') \<Longrightarrow> b' = fill_effect r b \<and> (bi_state b \<noteq> kIdle \<longrightarrow> \<not> r)"
  by (auto simp: fillIndexParallel_def fill_effect_def Let_def split: if_splits prod.splits)











section \<open>A write between the application and the clearing\<close>

text \<open>\<open>bufferWrite\<close> reads the state and appends in two steps, and \<open>applyChangelog\<close> walks the
  buffer and clears it under separate locks.  The halves, which composed are the operations above:\<close>

definition bufferWrite_check :: "builder \<Rightarrow> bool" where
  "bufferWrite_check b \<longleftrightarrow> bc_backgroundMode (bi_config b) \<and> bi_state b = kBuilding"

definition bufferWrite_append :: "(string \<Rightarrow> u64) \<Rightarrow> changelog_entry \<Rightarrow> builder \<Rightarrow> bool \<times> builder" where
  "bufferWrite_append cap e b =
     (case changelog_append cap e (bi_changelog b) of (ok, c) \<Rightarrow> (ok, b\<lparr>bi_changelog := c\<rparr>))"

definition apply_walk :: "(changelog_entry \<Rightarrow> 's \<Rightarrow> bool \<times> 's) \<Rightarrow> builder \<Rightarrow> 's \<Rightarrow> (bool \<times> builder \<times> 's) option" where
  "apply_walk applier b s =
     (if bi_state b \<noteq> kBuilding then None
      else let b = b\<lparr>bi_state := kApplyingChangelog\<rparr>
           in case changelog_forEach (\<lambda>e (success, s). if success then applier e s else (success, s)) (bi_changelog b) (True, s) of
                (success, s') \<Rightarrow> Some (success, b, s'))"

definition apply_clear :: "bool \<Rightarrow> builder \<Rightarrow> bool \<times> builder" where
  "apply_clear success b =
     (if \<not> success then (False, b\<lparr>bi_state := kFailed\<rparr>) else (True, b\<lparr>bi_changelog := changelog_clear (bi_changelog b)\<rparr>))"

lemma bufferWrite_halves: "bufferWrite cap e b = (if bufferWrite_check b then bufferWrite_append cap e b else (False, b))"
  by (simp add: bufferWrite_def bufferWrite_check_def bufferWrite_append_def)

lemma applyChangelog_halves:
  "applyChangelog applier b s =
     (case apply_walk applier b s of
        None \<Rightarrow> (False, b, s)
      | Some (success, b', s') \<Rightarrow> (case apply_clear success b' of (r, b2) \<Rightarrow> (r, b2, s')))"
  by (simp add: applyChangelog_def apply_walk_def apply_clear_def Let_def split: prod.splits)

text \<open>An accepted write can be lost: in a background build, a write that passes its check
  before the application starts and appends after the entries were walked is accepted, and is
  neither applied nor left in the changelog, while both calls return true.\<close>

theorem accepted_write_lost:
  "let b = (RocksDBBuilderIndexEE (builder_config_init\<lparr>bc_backgroundMode := True\<rparr>))\<lparr>bi_state := kBuilding\<rparr>
   in bufferWrite_check b \<and>
    (\<exists>b1 b2 b3. apply_walk (\<lambda>e a. (True, a @ [e])) b [] = Some (True, b1, []) \<and>
      bufferWrite_append (\<lambda>_. 0) e b1 = (True, b2) \<and>
      apply_clear True b2 = (True, b3) \<and>
      bi_state b3 = kApplyingChangelog \<and> cb_entries (bi_changelog b3) = [])"
  by (simp add: bufferWrite_check_def apply_walk_def bufferWrite_append_def apply_clear_def Let_def
      RocksDBBuilderIndexEE_def builder_config_init_def ChangelogBuffer_def changelog_forEach_def changelog_append_def
      changelog_clear_def estimateEntrySize_def kEntryBaseOverhead_def word_less_nat_alt)

end
