(* ===== verification/Maskings.thy ===== *)
theory Maskings
  imports Prelude
begin

text \<open>
  Attribute masking (\<^verbatim>\<open>Enterprise/Maskings/AttributeMasking.cpp\<close>): the strategies, their
  registry, the application of rules to the fields of a document, and the hand-written parser of
  the JSON configuration, with its positions in the text as the code has them.  A
  \<open>std::unordered_map\<close> is an association list; a factory is the function its masks compute.
\<close>

section \<open>Strategies\<close>

definition xifyFront :: "string \<Rightarrow> string" where
  "xifyFront input = foldl (\<lambda>result ch. if ch = CHR '' '' then result @ '' '' else result @ ''x'') [] input"

definition fnv1a32 :: "string \<Rightarrow> u32" where
  "fnv1a32 data = foldl (\<lambda>hash c. (hash XOR of_char c) * 16777619) 2166136261 data"

fun toAlpha :: "u32 \<Rightarrow> nat \<Rightarrow> string" where
  "toAlpha val 0 = []"
| "toAlpha val (Suc n) = char_of (65 + unat (val mod 26)) # toAlpha (val div 26) n"

definition emailMask :: "string \<Rightarrow> string" where
  "emailMask input =
     (let h = fnv1a32 input;
          part1 = toAlpha h 4;
          part2 = toAlpha (drop_bit 8 h) 4;
          part3 = toAlpha (drop_bit 16 h) 4
      in part1 @ ''.'' @ part2 @ ''@'' @ part3 @ ''.invalid'')"

definition count_digits :: "string \<Rightarrow> nat" where
  "count_digits input = foldl (\<lambda>n ch. if is_digit ch then n + 1 else n) 0 input"

text \<open>The loops over the characters, with the count of digits masked so far.\<close>

fun credit_loop :: "nat \<Rightarrow> nat \<Rightarrow> string \<Rightarrow> string" where
  "credit_loop digitsToMask masked [] = []"
| "credit_loop digitsToMask masked (ch # cs) =
     (if is_digit ch \<and> masked < digitsToMask then CHR ''x'' # credit_loop digitsToMask (masked + 1) cs
      else ch # credit_loop digitsToMask masked cs)"

definition creditCardMask :: "string \<Rightarrow> string" where
  "creditCardMask input =
     (let digitCount = count_digits input;
          digitsToMask = (if digitCount > 4 then digitCount - 4 else 0)
      in credit_loop digitsToMask 0 input)"

definition is_separator :: "char \<Rightarrow> bool" where
  "is_separator ch \<longleftrightarrow> ch = CHR ''-'' \<or> ch = CHR ''('' \<or> ch = CHR '')'' \<or> ch = CHR '' '' \<or> ch = CHR ''.''"

fun phone_loop :: "nat \<Rightarrow> nat \<Rightarrow> string \<Rightarrow> string" where
  "phone_loop digitsToMask masked [] = []"
| "phone_loop digitsToMask masked (ch # cs) =
     (if is_digit ch
      then if masked < digitsToMask then CHR ''x'' # phone_loop digitsToMask (masked + 1) cs
           else ch # phone_loop digitsToMask masked cs
      else if \<not> is_separator ch then CHR ''x'' # phone_loop digitsToMask masked cs
      else ch # phone_loop digitsToMask masked cs)"

definition phoneMask :: "string \<Rightarrow> string" where
  "phoneMask input =
     (let digitCount = count_digits input;
          digitsToMask = (if digitCount > 4 then digitCount - 4 else 0)
      in phone_loop digitsToMask 0 input)"

section \<open>Registry\<close>

type_synonym mask_registry = "(string \<times> (string \<Rightarrow> string)) list"

definition installMasking :: "string \<Rightarrow> (string \<Rightarrow> string) \<Rightarrow> mask_registry \<Rightarrow> mask_registry" where
  "installMasking name factory reg = AList.update name factory reg"

definition findMasking :: "mask_registry \<Rightarrow> string \<Rightarrow> (string \<Rightarrow> string) option" where
  "findMasking reg name = map_of reg name"

definition clearMaskings :: "mask_registry \<Rightarrow> mask_registry" where
  "clearMaskings reg = []"

definition registeredNames :: "mask_registry \<Rightarrow> string list" where
  "registeredNames reg = sort (map fst reg)"

definition InstallMaskingsEE :: "mask_registry \<Rightarrow> mask_registry" where
  "InstallMaskingsEE reg =
     installMasking ''phone'' phoneMask (installMasking ''creditCard'' creditCardMask
       (installMasking ''email'' emailMask (installMasking ''xifyFront'' xifyFront reg)))"

section \<open>Rules\<close>

record masking_rule =
  mr_path :: string
  mr_type :: string
  mr_roles :: "string list"

record masking_config =
  mc_collectionName :: string
  mc_rules :: "masking_rule list"

definition appliesToRole :: "masking_rule \<Rightarrow> string \<Rightarrow> bool" where
  "appliesToRole rule role = (if mr_roles rule = [] then True else list_ex (\<lambda>r. r = role) (mr_roles rule))"

type_synonym doc_fields = "(string \<times> string) list"

definition apply_rule :: "mask_registry \<Rightarrow> string \<Rightarrow> masking_rule \<Rightarrow> doc_fields \<Rightarrow> doc_fields" where
  "apply_rule reg userRole rule result =
     (if \<not> appliesToRole rule userRole then result
      else case map_of result (mr_path rule) of
             None \<Rightarrow> result
           | Some v \<Rightarrow>
               (case findMasking reg (mr_type rule) of
                  None \<Rightarrow> result
                | Some maskFn \<Rightarrow> AList.update (mr_path rule) (maskFn v) result))"

definition apply_config :: "mask_registry \<Rightarrow> string \<Rightarrow> string \<Rightarrow> masking_config \<Rightarrow> doc_fields \<Rightarrow> doc_fields" where
  "apply_config reg collectionName userRole config result =
     (if mc_collectionName config \<noteq> collectionName then result
      else fold (apply_rule reg userRole) (mc_rules config) result)"

definition applyMasking ::
  "mask_registry \<Rightarrow> string \<Rightarrow> string \<Rightarrow> doc_fields \<Rightarrow> masking_config list \<Rightarrow> doc_fields" where
  "applyMasking reg collectionName userRole document configs =
     fold (apply_config reg collectionName userRole) configs document"


section \<open>What the strategies keep and hide\<close>



lemma x_not_digit [simp]: "\<not> is_digit (CHR ''x'')"
  by (simp add: is_digit_def)







section \<open>Rules, field by field\<close>

text \<open>The strategies that apply to one field, in the order of the configuration.\<close>

definition field_masks ::
  "mask_registry \<Rightarrow> string \<Rightarrow> string \<Rightarrow> masking_config list \<Rightarrow> string \<Rightarrow> (string \<Rightarrow> string) list" where
  "field_masks reg collectionName userRole configs p =
     List.map_filter (\<lambda>rule. if appliesToRole rule userRole \<and> mr_path rule = p then findMasking reg (mr_type rule) else None)
       (concat (map mc_rules (filter (\<lambda>c. mc_collectionName c = collectionName) configs)))"

lemma update_keys: "map_of al k = Some v \<Longrightarrow> map fst (AList.update k w al) = map fst al"
  by (induction al) (auto split: if_splits)

lemma apply_rule_field:
  "map fst (apply_rule reg role rule d) = map fst d \<and>
   map_of (apply_rule reg role rule d) p =
     (if appliesToRole rule role \<and> mr_path rule = p
      then case findMasking reg (mr_type rule) of None \<Rightarrow> map_of d p | Some f \<Rightarrow> map_option f (map_of d p)
      else map_of d p)"
  by (auto simp: apply_rule_def update_keys split: option.splits)

lemma apply_rules_field:
  "map fst (fold (apply_rule reg role) rules d) = map fst d \<and>
   map_of (fold (apply_rule reg role) rules d) p =
     map_option (fold (\<lambda>f v. f v) (List.map_filter (\<lambda>rule. if appliesToRole rule role \<and> mr_path rule = p
        then findMasking reg (mr_type rule) else None) rules)) (map_of d p)"
proof (induction rules arbitrary: d)
  case Nil
  then show ?case by (simp add: List.map_filter_def option.map_ident)
next
  case (Cons r rules)
  then show ?case
    by (auto simp: apply_rule_field List.map_filter_def option.map_comp comp_def split: option.splits)
qed

lemma applyMasking_rules:
  "applyMasking reg coll role d configs =
     fold (apply_rule reg role) (concat (map mc_rules (filter (\<lambda>c. mc_collectionName c = coll) configs))) d"
proof (induction configs arbitrary: d)
  case (Cons c configs)
  then show ?case by (simp add: applyMasking_def apply_config_def)
qed (simp add: applyMasking_def)

lemma applyMasking_field:
  "map fst (applyMasking reg coll role d configs) = map fst d \<and>
   map_of (applyMasking reg coll role d configs) p =
     map_option (fold (\<lambda>f v. f v) (field_masks reg coll role configs p)) (map_of d p)"
  unfolding applyMasking_rules field_masks_def by (rule apply_rules_field)


section \<open>Parsing the configuration\<close>

text \<open>Positions are indices into the whole text.  Extracting a string starts after the opening quote.\<close>

function extractString :: "string \<Rightarrow> nat \<Rightarrow> string \<Rightarrow> string \<times> nat" where
  "extractString json pos result =
     (if pos < length json \<and> json ! pos \<noteq> CHR 0x22
      then let pos = (if json ! pos = CHR 0x5C \<and> pos + 1 < length json then pos + 1 else pos)
           in extractString json (pos + 1) (result @ [json ! pos])
      else (result, if pos < length json then pos + 1 else pos))"
  by pat_completeness auto
termination by (relation "measure (\<lambda>(json, pos, result). length json - pos)") (auto simp: Let_def)

declare extractString.simps [simp del]

text \<open>A \<open>std::string\<close> may be read at its length: the terminating zero.\<close>

definition char_at :: "string \<Rightarrow> nat \<Rightarrow> char" where
  "char_at s i = (if i < length s then s ! i else CHR 0x00)"

function skipWs :: "string \<Rightarrow> nat \<Rightarrow> nat" where
  "skipWs json pos = (if pos < length json \<and> is_space (json ! pos) then skipWs json (pos + 1) else pos)"
  by pat_completeness auto
termination by (relation "measure (\<lambda>(json, pos). length json - pos)") auto

declare skipWs.simps [simp del]

function skip_quoted :: "string \<Rightarrow> nat \<Rightarrow> nat" where
  "skip_quoted json pos =
     (if pos < length json \<and> json ! pos \<noteq> CHR 0x22
      then skip_quoted json (if json ! pos = CHR 0x5C then pos + 2 else pos + 1) else pos)"
  by pat_completeness auto
termination by (relation "measure (\<lambda>(json, pos). length json - pos)") auto

declare skip_quoted.simps [simp del]

lemma skip_quoted_ge: "pos \<le> skip_quoted json pos"
proof (induction json pos rule: skip_quoted.induct)
  case (1 json pos)
  then show ?case
    by (cases "pos < length json \<and> json ! pos \<noteq> CHR 0x22") (subst skip_quoted.simps, auto intro: Suc_leD split: if_splits)+
qed

function match_brace :: "string \<Rightarrow> char \<Rightarrow> char \<Rightarrow> int \<Rightarrow> nat \<Rightarrow> nat" where
  "match_brace json open close depth pos =
     (if pos < length json \<and> depth > 0
      then if json ! pos = CHR 0x22
           then let p = skip_quoted json (pos + 1)
                in match_brace json open close depth (if p < length json then p + 1 else p)
           else let depth = (if json ! pos = open then depth + 1 else depth);
                    depth = (if json ! pos = close then depth - 1 else depth)
                in match_brace json open close depth (if depth > 0 then pos + 1 else pos)
      else pos)"
  by pat_completeness auto
termination
proof (relation "measures [\<lambda>(json, op, cl, depth, pos). length json - pos, \<lambda>(json, op, cl, depth, pos). nat depth]", goal_cases)
  case (2 json op cl depth pos p)
  then show ?case using skip_quoted_ge [of "pos + 1" json] by auto
qed auto

declare match_brace.simps [simp del]

definition findMatchingBrace :: "string \<Rightarrow> nat \<Rightarrow> char \<Rightarrow> char \<Rightarrow> nat" where
  "findMatchingBrace json start open close = match_brace json open close 1 start"


lemma extractString_ge: "pos \<le> snd (extractString json pos r)"
proof (induction json pos r rule: extractString.induct)
  case (1 json pos r)
  then show ?case
    by (cases "pos < length json \<and> json ! pos \<noteq> CHR 0x22")
      (subst extractString.simps, auto simp: Let_def intro: Suc_leD split: if_splits)+
qed

lemma extractString_ge': "extractString json pos r = (x, q) \<Longrightarrow> pos \<le> q"
  using extractString_ge [of pos json r] by simp

lemma skipWs_ge: "pos \<le> skipWs json pos"
proof (induction json pos rule: skipWs.induct)
  case (1 json pos)
  then show ?case by (cases "pos < length json \<and> is_space (json ! pos)") (subst skipWs.simps, auto)+
qed

lemma match_brace_ge: "pos \<le> match_brace json open close depth pos"
proof (induction json "open" close depth pos rule: match_brace.induct)
  case (1 json op cl depth pos)
  then show ?case
    using skip_quoted_ge [of "pos + 1" json]
    by (subst match_brace.simps) (fastforce simp: Let_def split: if_splits intro: order.trans)
qed

function parse_roles :: "string \<Rightarrow> nat \<Rightarrow> nat \<Rightarrow> string list \<Rightarrow> string list" where
  "parse_roles ruleStr rolesArrayEnd rp roles =
     (if rp < rolesArrayEnd
      then let rp = skipWs ruleStr rp
           in if rp < rolesArrayEnd \<and> char_at ruleStr rp = CHR 0x22
              then (case extractString ruleStr (rp + 1) [] of (r, rp) \<Rightarrow> parse_roles ruleStr rolesArrayEnd rp (roles @ [r]))
              else parse_roles ruleStr rolesArrayEnd (rp + 1) roles
      else roles)"
  by pat_completeness auto
termination
proof (relation "measure (\<lambda>(s, e, rp, roles). e - rp)", goal_cases)
  case (2 s e rp roles rp' r y)
  have "rp' + 1 \<le> y" using extractString_ge' [of s "rp' + 1" "[]" r y] 2 by metis
  then show ?case using 2 skipWs_ge [of rp s] by auto
next
  case (3 s e rp roles rp')
  then show ?case using skipWs_ge [of rp s] by auto
qed simp

declare parse_roles.simps [simp del]

text \<open>The value of a string field of one rule: the next quoted string after the key.\<close>

definition rule_field :: "string \<Rightarrow> string \<Rightarrow> string option" where
  "rule_field key ruleStr =
     (case str_find ruleStr key 0 of
        None \<Rightarrow> None
      | Some p \<Rightarrow>
          (case str_find ruleStr [CHR 0x22] (p + 6) of
             None \<Rightarrow> None
           | Some qStart \<Rightarrow> Some (fst (extractString ruleStr (qStart + 1) []))))"

definition parse_rule :: "string \<Rightarrow> masking_rule" where
  \<open>parse_rule ruleStr =
     (let path = (case rule_field ''"path"'' ruleStr of None \<Rightarrow> [] | Some s \<Rightarrow> s);
          type = (case rule_field ''"type"'' ruleStr of None \<Rightarrow> [] | Some s \<Rightarrow> s);
          roles = (case str_find ruleStr ''"roles"'' 0 of
                     None \<Rightarrow> []
                   | Some rolesPos \<Rightarrow>
                       (case str_find ruleStr ''['' rolesPos of
                          None \<Rightarrow> []
                        | Some rolesArrayStart \<Rightarrow>
                            parse_roles ruleStr (findMatchingBrace ruleStr (rolesArrayStart + 1) (CHR ''['') (CHR '']''))
                              (rolesArrayStart + 1) []))
      in \<lparr>mr_path = path, mr_type = type, mr_roles = roles\<rparr>)\<close>

function parse_rules :: "string \<Rightarrow> nat \<Rightarrow> nat \<Rightarrow> masking_rule list \<Rightarrow> masking_rule list" where
  "parse_rules json arrayEnd rulePos rules =
     (if rulePos < arrayEnd
      then let rulePos = skipWs json rulePos
           in if rulePos \<ge> arrayEnd \<or> char_at json rulePos \<noteq> CHR ''{'' then parse_rules json arrayEnd (rulePos + 1) rules
              else let ruleEnd = findMatchingBrace json (rulePos + 1) (CHR ''{'') (CHR ''}'');
                       rule = parse_rule (substr json rulePos (ruleEnd - rulePos + 1));
                       rules = (if mr_path rule \<noteq> [] \<and> mr_type rule \<noteq> [] then rules @ [rule] else rules);
                       rulePos = skipWs json (ruleEnd + 1)
                   in parse_rules json arrayEnd
                        (if rulePos < arrayEnd \<and> char_at json rulePos = CHR '','' then rulePos + 1 else rulePos) rules
      else rules)"
  by pat_completeness auto
termination
proof (relation "measure (\<lambda>(s, e, rp, rules). e - rp)", goal_cases)
  case (2 s e rp rules rp')
  then show ?case using skipWs_ge [of rp s] by auto
next
  case (3 s e rp rules rp' ruleEnd rule rules' rp2)
  have "rp \<le> rp'" using skipWs_ge [of rp s] 3(2) by simp
  moreover have "rp' + 1 \<le> ruleEnd" using 3(4) by (simp add: findMatchingBrace_def match_brace_ge)
  moreover have "ruleEnd + 1 \<le> rp2" using 3(7) skipWs_ge [of "ruleEnd + 1" s] by simp
  ultimately show ?case using 3(1) by auto
qed simp

declare parse_rules.simps [simp del]

text \<open>One iteration of the loop over the collections: the configuration read, and where the loop
  goes on.\<close>

definition parse_collection :: "string \<Rightarrow> nat \<Rightarrow> nat \<Rightarrow> masking_config \<times> nat" where
  \<open>parse_collection json collectionsEnd pos =
     (case extractString json (pos + 1) [] of (collName, pos) \<Rightarrow>
        let pos = skipWs json pos;
            pos = (if pos < length json \<and> json ! pos = CHR '':'' then pos + 1 else pos);
            pos = skipWs json pos;
            (rules, pos) =
              (case str_find json ''"rules"'' pos of
                 None \<Rightarrow> ([], pos)
               | Some rulesKeyPos \<Rightarrow>
                   if rulesKeyPos < collectionsEnd
                   then (case str_find json ''['' rulesKeyPos of
                           None \<Rightarrow> ([], pos)
                         | Some arrayStart \<Rightarrow>
                             let arrayEnd = findMatchingBrace json (arrayStart + 1) (CHR ''['') (CHR '']'')
                             in (parse_rules json arrayEnd (arrayStart + 1) [], arrayEnd + 1))
                   else ([], pos));
            pos = (case str_find json ([CHR 0x22] @ collName @ [CHR 0x22]) 0 of
                     None \<Rightarrow> pos
                   | Some namePos \<Rightarrow>
                       (case str_find json ''{'' namePos of
                          None \<Rightarrow> pos
                        | Some collObjStart \<Rightarrow> findMatchingBrace json (collObjStart + 1) (CHR ''{'') (CHR ''}'') + 1));
            pos = skipWs json pos;
            pos = (if pos < collectionsEnd \<and> char_at json pos = CHR '','' then pos + 1 else pos)
        in (\<lparr>mc_collectionName = collName, mc_rules = rules\<rparr>, pos))\<close>

text \<open>Nothing makes the position advance, so the loop need not end: \<open>None\<close> is a call that does not
  return.\<close>

partial_function (option) collections_loop ::
  "string \<Rightarrow> nat \<Rightarrow> nat \<Rightarrow> masking_config list \<Rightarrow> masking_config list option" where
  "collections_loop json collectionsEnd pos result =
     (if \<not> pos < collectionsEnd then Some result
      else if skipWs json pos \<ge> collectionsEnd \<or> char_at json (skipWs json pos) \<noteq> CHR 0x22 then Some result
      else collections_loop json collectionsEnd (snd (parse_collection json collectionsEnd (skipWs json pos)))
             (result @ [fst (parse_collection json collectionsEnd (skipWs json pos))]))"

definition loadConfigFromJson :: "string \<Rightarrow> masking_config list option" where
  \<open>loadConfigFromJson json =
     (case str_find json ''"collections"'' 0 of
        None \<Rightarrow> Some []
      | Some collectionsPos \<Rightarrow>
          (case str_find json ''{'' (collectionsPos + 14) of
             None \<Rightarrow> Some []
           | Some bracePos \<Rightarrow>
               collections_loop json (findMatchingBrace json (bracePos + 1) (CHR ''{'') (CHR ''}'')) (bracePos + 1) []))\<close>


section \<open>What each strategy lets through\<close>








text \<open>C15. Applying a configuration refines its reading field by field: the fields stay the same, and
  the new value of each is its old value passed through the strategies of the rules that name the
  collection, the field and (if they name any) the role, in the order of the configuration; a rule
  whose strategy is not registered does nothing.
\<close>

theorem masking_by_field:
  "map fst (applyMasking reg coll role d configs) = map fst d \<and>
   map_of (applyMasking reg coll role d configs) p =
     map_option (fold (\<lambda>f v. f v) (field_masks reg coll role configs p)) (map_of d p)"
  by (rule applyMasking_field)

section \<open>What the parser reads\<close>

definition escape :: "string \<Rightarrow> string" where
  "escape s = concat (map (\<lambda>c. if c = CHR 0x22 \<or> c = CHR 0x5C then [CHR 0x5C, c] else [c]) s)"

lemma extractString_at:
  "extractString (p @ c # rest) (length p) acc =
     (if c = CHR 0x22 then (acc, length p + 1)
      else case (c = CHR 0x5C, rest) of
             (True, d # rest') \<Rightarrow> extractString (p @ c # rest) (length p + 2) (acc @ [d])
           | _ \<Rightarrow> extractString (p @ c # rest) (length p + 1) (acc @ [c]))"
  by (subst extractString.simps) (auto simp: Let_def nth_append split: list.splits bool.splits)

lemma extractString_escape:
  "extractString (p @ escape s @ CHR 0x22 # rest) (length p) acc = (acc @ s, length p + length (escape s) + 1)"
proof (induction s arbitrary: p acc)
  case Nil
  then show ?case by (simp add: escape_def extractString_at)
next
  case (Cons c s)
  let ?e = "if c = CHR 0x22 \<or> c = CHR 0x5C then [CHR 0x5C, c] else [c]"
  have e: "escape (c # s) = ?e @ escape s" by (simp add: escape_def)
  have "extractString (p @ escape (c # s) @ CHR 0x22 # rest) (length p) acc =
      extractString ((p @ ?e) @ escape s @ CHR 0x22 # rest) (length (p @ ?e)) (acc @ [c])"
    unfolding e by (simp add: extractString_at)
  then show ?case using Cons.IH [of "p @ ?e" "acc @ [c]"] by (simp add: e)
qed

text \<open>A quoted string of the configuration is read back exactly: after the opening quote, the text
  of any string with quotes and backslashes escaped gives the string, and the position after the
  closing quote.
\<close>

theorem quoted_string_round_trip:
  "extractString (p @ escape s @ [CHR 0x22] @ rest) (length p) [] = (s, length p + length (escape s) + 1)"
  using extractString_escape [of p s rest "[]"] by simp

text \<open>Where reading one collection comes back to where it started, the parser never returns.  This
  happens with a collection name that occurs twice: the end of the second is looked up by name,
  which finds the end of the first.
\<close>

theorem repeated_collection_hangs:
  assumes "pos < collectionsEnd"
    and "skipWs json pos < collectionsEnd" and "char_at json (skipWs json pos) = CHR 0x22"
    and "snd (parse_collection json collectionsEnd (skipWs json pos)) = pos"
  shows "collections_loop json collectionsEnd pos result = None"
proof (rule ccontr)
  assume "collections_loop json collectionsEnd pos result \<noteq> None"
  then obtain r where r: "collections_loop json collectionsEnd pos result = Some r" by blast
  have "\<not> (json = json \<and> collectionsEnd = collectionsEnd \<and> pos = pos)"
  proof (rule collections_loop.raw_induct [where
        P = "\<lambda>j ce q res r. \<not> (j = json \<and> ce = collectionsEnd \<and> q = pos)", OF _ r], goal_cases)
    case (1 loop j ce q res r)
    then show ?case using assms by (fastforce split: if_splits)
  qed
  then show False by simp
qed

definition repeated_name :: string where
  \<open>repeated_name = ''{"collections":{"a":{"rules":[]},"a":{"rules":[]}}}''\<close>

theorem repeated_collection_hangs_witness: "loadConfigFromJson repeated_name = None"
proof -
  have start: "str_find repeated_name (CHR 0x22 # ''collections'' @ [CHR 0x22]) 0 = Some 1"
    "str_find repeated_name ''{'' 15 = Some 15"
    "findMatchingBrace repeated_name 16 (CHR ''{'') (CHR ''}'') = 49"
    by code_simp+
  have "collections_loop repeated_name 49 33 r = None" for r
    by (rule repeated_collection_hangs; code_simp)
  moreover have "skipWs repeated_name 16 = 16" "char_at repeated_name 16 = CHR 0x22"
    "snd (parse_collection repeated_name 49 16) = 33"
    by code_simp+
  ultimately show ?thesis
    unfolding loadConfigFromJson_def using start by (simp add: collections_loop.simps [of _ 49 16])
qed

end
