(* ===== verification/Encryption.thy ===== *)
theory Encryption
  imports Prelude
begin

text \<open>
  Encryption at rest: the AES-256-CTR stream and its provider
  (\<^verbatim>\<open>Enterprise/RocksDBEngine/EncryptionProvider.cpp\<close>), key loading
  (\<^verbatim>\<open>RocksDBEncryptionUtils.cpp\<close>) and the feature that owns the provider
  (\<^verbatim>\<open>Enterprise/Encryption/EncryptionFeature.cpp\<close>).  OpenSSL is not part of the repository: its EVP
  calls are a parameter, and \<open>evp_contract\<close> is the documented behaviour of a CTR context, that the
  n-th byte passed through it is combined with the n-th byte of a key stream in which advancing the
  128-bit big-endian counter by one skips sixteen bytes.
\<close>

section \<open>Results\<close>

datatype rocksdb_status = RS_OK | RS_NotSupported string | RS_InvalidArgument string | RS_IOError string

datatype cpp_exn = Invalid_argument string | Runtime_error string

section \<open>The counter of a position\<close>

text \<open>The loop from the last byte to the first; the first argument is the index plus one.\<close>

fun add_carry :: "nat \<Rightarrow> u64 \<Rightarrow> bytes \<Rightarrow> bytes" where
  "add_carry 0 carry counter = counter"
| "add_carry (Suc i) carry counter =
     (if carry > 0
      then let sum = ucast (counter ! i) + (carry AND 0xFF)
           in add_carry i (drop_bit 8 carry + drop_bit 8 sum) (counter[i := ucast (sum AND 0xFF)])
      else counter)"

definition start_counter :: "bytes \<Rightarrow> u64 \<Rightarrow> bytes" where
  "start_counter iv blockIndex = add_carry 16 blockIndex iv"

section \<open>The stream\<close>

text \<open>The EVP calls: a context or none; \<open>EVP_EncryptInit_ex\<close> for AES-256-CTR; \<open>EVP_EncryptUpdate\<close> in
  place over a buffer with the length passed as an \<open>int\<close>.  Both return the code and the context.\<close>

record 'ctx evp =
  evp_new :: "'ctx option"
  evp_init :: "'ctx \<Rightarrow> bytes \<Rightarrow> bytes \<Rightarrow> int \<times> 'ctx"
  evp_update :: "'ctx \<Rightarrow> bytes \<Rightarrow> int \<Rightarrow> int \<times> bytes \<times> 'ctx"

record cipher_stream =
  cs_key :: bytes
  cs_iv :: bytes

definition AESCTRCipherStream :: "bytes \<Rightarrow> bytes \<Rightarrow> cpp_exn + cipher_stream" where
  "AESCTRCipherStream key iv =
     (if length key \<noteq> 32 then Inl (Invalid_argument ''AES-256-CTR requires a 32-byte key'')
      else if length iv \<noteq> 16 then Inl (Invalid_argument ''AES-256-CTR requires a 16-byte IV'')
      else Inr \<lparr>cs_key = key, cs_iv = iv\<rparr>)"

text \<open>The destructor writes over the stream's own copy of the key, and no other.\<close>

definition destroy_stream :: "cipher_stream \<Rightarrow> cipher_stream" where
  "destroy_stream st = st\<lparr>cs_key := replicate (length (cs_key st)) 0\<rparr>"

text \<open>\<open>static_cast<int>\<close> of a \<open>size_t\<close> keeps the low 32 bits, read as signed.\<close>

definition to_int32 :: "nat \<Rightarrow> int" where
  "to_int32 n = sint (word_of_nat n :: u32)"

definition ctrTransform :: "'ctx evp \<Rightarrow> cipher_stream \<Rightarrow> u64 \<Rightarrow> bytes \<Rightarrow> rocksdb_status \<times> bytes" where
  "ctrTransform E s fileOffset data =
     (if length data = 0 then (RS_OK, data)
      else
        let blockIndex = fileOffset div 16;
            blockOffset = unat (fileOffset mod 16);
            counter = start_counter (cs_iv s) blockIndex
        in case evp_new E of
             None \<Rightarrow> (RS_IOError ''Failed to create EVP context'', data)
           | Some ctx \<Rightarrow>
               (case evp_init E ctx (cs_key s) counter of (rc, ctx) \<Rightarrow>
                  if rc \<noteq> 1 then (RS_IOError ''EVP_EncryptInit_ex failed'', data)
                  else
                    case (if blockOffset > 0
                          then case evp_update E ctx (replicate 16 0) (to_int32 blockOffset) of (rc, _, ctx) \<Rightarrow> (rc, ctx)
                          else (1, ctx)) of (rc, ctx) \<Rightarrow>
                      if rc \<noteq> 1 then (RS_IOError ''EVP_EncryptUpdate (skip) failed'', data)
                      else
                        case evp_update E ctx data (to_int32 (length data)) of (rc, data, ctx) \<Rightarrow>
                          if rc \<noteq> 1 then (RS_IOError ''EVP_EncryptUpdate failed'', data)
                          else (RS_OK, data)))"

definition Encrypt :: "'ctx evp \<Rightarrow> cipher_stream \<Rightarrow> u64 \<Rightarrow> bytes \<Rightarrow> rocksdb_status \<times> bytes" where
  "Encrypt E s fileOffset data = ctrTransform E s fileOffset data"

definition Decrypt :: "'ctx evp \<Rightarrow> cipher_stream \<Rightarrow> u64 \<Rightarrow> bytes \<Rightarrow> rocksdb_status \<times> bytes" where
  "Decrypt E s fileOffset data = ctrTransform E s fileOffset data"

definition BlockSize :: nat where "BlockSize = 0"

definition EncryptBlock :: "u64 \<Rightarrow> bytes \<Rightarrow> rocksdb_status \<times> bytes" where
  "EncryptBlock blockIndex data = (RS_NotSupported ''CTR mode uses Encrypt() directly'', data)"

definition DecryptBlock :: "u64 \<Rightarrow> bytes \<Rightarrow> rocksdb_status \<times> bytes" where
  "DecryptBlock blockIndex data = (RS_NotSupported ''CTR mode uses Decrypt() directly'', data)"

section \<open>The provider\<close>

record encryption_provider =
  ep_key :: bytes

definition EncryptionProvider :: "bytes \<Rightarrow> cpp_exn + encryption_provider" where
  "EncryptionProvider key =
     (if length key \<noteq> 32 then Inl (Invalid_argument ''EncryptionProvider requires a 32-byte AES-256 key'')
      else Inr \<lparr>ep_key = key\<rparr>)"

definition GetPrefixLength :: nat where "GetPrefixLength = 16"

text \<open>\<open>RAND_bytes\<close> is a parameter: its return code and the bytes it wrote.\<close>

definition CreateNewPrefix :: "(nat \<Rightarrow> int \<times> bytes) \<Rightarrow> nat \<Rightarrow> bytes \<Rightarrow> rocksdb_status \<times> bytes" where
  "CreateNewPrefix RAND_bytes prefixLength iv_prefix =
     (if prefixLength < 16 then (RS_InvalidArgument ''Prefix too short for IV'', iv_prefix)
      else case RAND_bytes prefixLength of (rc, iv_out) \<Rightarrow>
             if rc \<noteq> 1 then (RS_IOError ''RAND_bytes failed to generate IV'', iv_out)
             else (RS_OK, iv_out))"

definition AddCipher :: "encryption_provider \<Rightarrow> string \<Rightarrow> bytes \<Rightarrow> rocksdb_status \<times> encryption_provider" where
  "AddCipher p descriptor cipher = (RS_OK, p)"

text \<open>The outer sum is the exception the stream's constructor may throw; the stream is delivered
  only with status OK.\<close>

definition CreateCipherStream ::
  "encryption_provider \<Rightarrow> bytes \<Rightarrow> cpp_exn + (rocksdb_status \<times> cipher_stream option)" where
  "CreateCipherStream p iv_prefix =
     (if length iv_prefix < 16 then Inr (RS_InvalidArgument ''Prefix too short for IV'', None)
      else case AESCTRCipherStream (ep_key p) (take 16 iv_prefix) of
             Inl e \<Rightarrow> Inl e
           | Inr s \<Rightarrow> Inr (RS_OK, Some s))"


section \<open>The counter arithmetic is exact\<close>

definition be_nat :: "bytes \<Rightarrow> nat" where
  "be_nat bs = foldl (\<lambda>n b. n * 256 + unat b) 0 bs"

lemma be_nat_snoc: "be_nat (bs @ [b]) = be_nat bs * 256 + unat b"
  by (simp add: be_nat_def)

lemma length_add_carry [simp]: "length (add_carry i c cs) = length cs"
  by (induction i c cs rule: add_carry.induct) (simp_all add: Let_def)

lemma byte_sum:
  fixes b :: u8 and c :: u64
  defines "s \<equiv> ucast b + (c AND 0xFF)"
  shows "unat s = unat b + unat c mod 256"
    and "unat (ucast (s AND 0xFF) :: u8) = unat s mod 256"
    and "unat (drop_bit 8 c + drop_bit 8 s) = unat c div 256 + unat s div 256"
proof -
  have m: "unat (v AND 0xFF) = unat v mod 256" for v :: u64
  proof -
    have "v AND 0xFF = take_bit 8 v" by (simp add: take_bit_eq_mask mask_eq_exp_minus_1)
    then show ?thesis by (simp add: take_bit_eq_mod unat_mod_distrib)
  qed
  have lt: "unat b < 256" using unsigned_less [of b] by simp
  then have b: "unat (ucast b :: u64) = unat b"
    by (simp add: unsigned_ucast_eq take_bit_nat_eq_self)
  show 1: "unat s = unat b + unat c mod 256"
    using lt unfolding s_def by (subst unat_add_lem [THEN iffD1]) (simp_all add: m b)
  show "unat (ucast (s AND 0xFF) :: u8) = unat s mod 256"
    unfolding unsigned_ucast_eq m by (simp add: take_bit_eq_mod)
  have d: "unat (drop_bit 8 v) = unat v div 256" for v :: u64
    by (simp add: drop_bit_eq_div unat_div_distrib)
  have "unat c div 256 + unat s div 256 < 2 ^ 64"
    using unat_lt_2_64 [of c] unat_lt_2_64 [of s] by (simp add: div_less_iff_less_mult)
  then show "unat (drop_bit 8 c + drop_bit 8 s) = unat c div 256 + unat s div 256"
    by (subst unat_add_lem [THEN iffD1]) (simp_all add: d)
qed


lemma digit_mod: "r < 256 \<Longrightarrow> (x mod m) * 256 + r = (x * 256 + r) mod (256 * m)" for r x m :: nat
  unfolding mod_mult2_eq by (simp add: div_add1_eq)

lemma add_carry_exact:
  "i \<le> length cs \<Longrightarrow>
   drop i (add_carry i c cs) = drop i cs \<and>
   be_nat (take i (add_carry i c cs)) = (be_nat (take i cs) + unat c) mod 256 ^ i"
proof (induction i c cs rule: add_carry.induct)
  case (1 c cs)
  then show ?case by (simp add: be_nat_def)
next
  case (2 i c cs)
  define s where "s = ucast (cs ! i) + (c AND 0xFF :: u64)"
  define c' where "c' = drop_bit 8 c + drop_bit 8 s"
  define cs' where "cs' = cs[i := ucast (s AND 0xFF)]"
  have i: "i < length cs" using 2 by simp
  have bound: "be_nat bs < 256 ^ length bs" for bs
  proof (induction bs rule: rev_induct)
    case (snoc b bs)
    moreover have "unat b < 256" using unsigned_less [of b] by simp
    ultimately show ?case by (simp add: be_nat_snoc)
  qed (simp add: be_nat_def)
  show ?case
  proof (cases "c > 0")
    case False
    moreover have "be_nat (take (Suc i) cs) < 256 ^ Suc i"
      using bound [of "take (Suc i) cs"] 2(2) by (simp only: length_take min_absorb2)
    ultimately show ?thesis by (simp add: word_gt_0)
  next
    case True
    have eq: "add_carry (Suc i) c cs = add_carry i c' cs'"
      using True by (simp add: Let_def s_def c'_def cs'_def)
    have IH: "drop i (add_carry i c' cs') = drop i cs'"
      "be_nat (take i (add_carry i c' cs')) = (be_nat (take i cs') + unat c') mod 256 ^ i"
      using "2.IH" [OF True s_def] i by (simp_all add: s_def c'_def cs'_def)
    have nth: "add_carry i c' cs' ! i = ucast (s AND 0xFF)"
      using arg_cong [OF IH(1), of hd] i by (simp add: hd_drop_conv_nth cs'_def)
    have "drop (Suc i) (add_carry i c' cs') = drop (Suc i) cs"
      using arg_cong [OF IH(1), of "drop 1"] by (simp add: cs'_def)
    moreover have "be_nat (take (Suc i) (add_carry i c' cs')) =
        ((be_nat (take i cs) + unat c') mod 256 ^ i) * 256 + unat s mod 256"
      using i IH(2) nth byte_sum(2) [where b = "cs ! i" and c = c, folded s_def]
      by (simp add: take_Suc_conv_app_nth be_nat_snoc cs'_def)
    moreover have "\<dots> = ((be_nat (take i cs) + unat c') * 256 + unat s mod 256) mod 256 ^ Suc i"
      using digit_mod [of "unat s mod 256"] by simp
    moreover have "(be_nat (take i cs) + unat c') * 256 + unat s mod 256 = be_nat (take (Suc i) cs) + unat c"
      using i byte_sum(1,3) [where b = "cs ! i" and c = c, folded s_def c'_def]
      by (simp add: take_Suc_conv_app_nth be_nat_snoc)
    ultimately show ?thesis unfolding eq by simp
  qed
qed

lemma start_counter_exact:
  assumes "length iv = 16"
  shows "length (start_counter iv n) = 16"
    and "be_nat (start_counter iv n) = (be_nat iv + unat n) mod 2 ^ 128"
  using add_carry_exact [of 16 iv n] assms by (simp_all add: start_counter_def)


section \<open>The stream under the EVP contract\<close>

text \<open>\<open>ks k c n\<close> is byte n of the key stream of key k from counter c; \<open>at ctx k c n\<close> says that the
  context has passed n bytes of it.\<close>

definition evp_contract ::
  "'ctx evp \<Rightarrow> (bytes \<Rightarrow> bytes \<Rightarrow> nat \<Rightarrow> u8) \<Rightarrow> ('ctx \<Rightarrow> bytes \<Rightarrow> bytes \<Rightarrow> nat \<Rightarrow> bool) \<Rightarrow> bool" where
  "evp_contract E ks at \<longleftrightarrow>
     (\<forall>ctx k c rc ctx'. length k = 32 \<longrightarrow> length c = 16 \<longrightarrow> evp_init E ctx k c = (rc, ctx') \<longrightarrow> rc = 1 \<longrightarrow> at ctx' k c 0) \<and>
     (\<forall>ctx k c n buf inl out ctx'. at ctx k c n \<longrightarrow> 0 \<le> inl \<longrightarrow> inl \<le> int (length buf) \<longrightarrow>
        evp_update E ctx buf inl = (1, out, ctx') \<longrightarrow>
        out = map2 (XOR) (take (nat inl) buf) (map (ks k c) [n ..< n + nat inl]) @ drop (nat inl) buf \<and>
        at ctx' k c (n + nat inl)) \<and>
     (\<forall>k c c' b n. length c = 16 \<longrightarrow> length c' = 16 \<longrightarrow> be_nat c' = (be_nat c + b) mod 2 ^ 128 \<longrightarrow>
        ks k c' n = ks k c (16 * b + n))"

definition evp_succeeds :: "'ctx evp \<Rightarrow> bool" where
  "evp_succeeds E \<longleftrightarrow> evp_new E \<noteq> None \<and> (\<forall>ctx k c. fst (evp_init E ctx k c) = 1) \<and>
     (\<forall>ctx buf inl. 0 \<le> inl \<longrightarrow> fst (evp_update E ctx buf inl) = 1)"

definition stream_xor :: "(nat \<Rightarrow> u8) \<Rightarrow> nat \<Rightarrow> bytes \<Rightarrow> bytes" where
  "stream_xor ks off data = map2 (XOR) data (map ks [off ..< off + length data])"

lemma length_stream_xor [simp]: "length (stream_xor ks off data) = length data"
  by (simp add: stream_xor_def)

lemma nth_stream_xor [simp]: "i < length data \<Longrightarrow> stream_xor ks off data ! i = data ! i XOR ks (off + i)"
  by (simp add: stream_xor_def)

lemma stream_xor_slice:
  assumes "i + n \<le> length d"
  shows "stream_xor ks (off + i) (take n (drop i (stream_xor ks off d))) = take n (drop i d)"
  using assms by (intro nth_equalityI) (simp_all add: xor.assoc add.assoc)

lemma to_int32_small: "n < 2 ^ 31 \<Longrightarrow> to_int32 n = int n"
  by (simp add: to_int32_def signed_of_nat signed_take_bit_int_eq_self)

lemma evp_contract_update:
  assumes "evp_contract E ks at" and "at ctx k c n" and "m \<le> length buf"
    and "evp_update E ctx buf (int m) = (1, out, ctx')"
  shows "out = map2 (XOR) (take m buf) (map (ks k c) [n ..< n + m]) @ drop m buf" and "at ctx' k c (n + m)"
proof -
  have "0 \<le> int m" "int m \<le> int (length buf)" using assms(3) by simp_all
  then have "out = map2 (XOR) (take (nat (int m)) buf) (map (ks k c) [n ..< n + nat (int m)]) @ drop (nat (int m)) buf \<and>
      at ctx' k c (n + nat (int m))"
    using assms(1,2,4) unfolding evp_contract_def by blast
  then show "out = map2 (XOR) (take m buf) (map (ks k c) [n ..< n + m]) @ drop m buf" and "at ctx' k c (n + m)"
    by simp_all
qed

lemma ctrTransform_OK:
  assumes "ctrTransform E s off data = (RS_OK, out)" and "data \<noteq> []"
  obtains ctx ctx1 ctx2 ctx3 skipped where
    "evp_init E ctx (cs_key s) (start_counter (cs_iv s) (off div 16)) = (1, ctx1)"
    "if unat (off mod 16) > 0 then evp_update E ctx1 (replicate 16 0) (to_int32 (unat (off mod 16))) = (1, skipped, ctx2)
     else ctx2 = ctx1"
    "evp_update E ctx2 data (to_int32 (length data)) = (1, out, ctx3)"
  using assms
  by (auto simp: ctrTransform_def Let_def split: option.splits prod.splits if_splits)

lemma ctrTransform_reaches:
  assumes E: "evp_contract E ks at" and s: "length (cs_key s) = 32" "length (cs_iv s) = 16"
    and ok: "ctrTransform E s off data = (RS_OK, out)" and ne: "data \<noteq> []"
  obtains ctx ctx' where
    "at ctx (cs_key s) (start_counter (cs_iv s) (off div 16)) (unat off mod 16)"
    "evp_update E ctx data (to_int32 (length data)) = (1, out, ctx')"
proof -
  define c where "c = start_counter (cs_iv s) (off div 16)"
  define bo where "bo = unat (off mod 16)"
  have bo: "bo = unat off mod 16" "bo < 16" by (simp_all add: bo_def unat_mod_distrib)
  obtain ctx ctx1 ctx2 ctx3 skipped where
    1: "evp_init E ctx (cs_key s) c = (1, ctx1)" and
    2: "if bo > 0 then evp_update E ctx1 (replicate 16 0) (to_int32 bo) = (1, skipped, ctx2) else ctx2 = ctx1" and
    3: "evp_update E ctx2 data (to_int32 (length data)) = (1, out, ctx3)"
    using ctrTransform_OK [OF ok ne] unfolding c_def bo_def by metis
  have "at ctx1 (cs_key s) c 0"
    using E s(1) start_counter_exact(1) [OF s(2)] 1 unfolding evp_contract_def c_def by blast
  moreover have "to_int32 bo = int bo" using bo by (simp add: to_int32_small)
  ultimately have "at ctx2 (cs_key s) c bo"
    using evp_contract_update(2) [OF E, of ctx1 "cs_key s" c 0 bo "replicate 16 0"] 2 bo(2)
    by (auto split: if_splits)
  then show thesis using that 3 unfolding c_def bo(1) by blast
qed

lemma ctrTransform_xor:
  assumes E: "evp_contract E ks at" and s: "length (cs_key s) = 32" "length (cs_iv s) = 16"
    and len: "length data < 2 ^ 31" and ok: "ctrTransform E s off data = (RS_OK, out)"
  shows "out = stream_xor (ks (cs_key s) (cs_iv s)) (unat off) data"
proof (cases "data = []")
  case True
  then show ?thesis using ok by (simp add: ctrTransform_def stream_xor_def)
next
  case False
  define c where "c = start_counter (cs_iv s) (off div 16)"
  have c: "length c = 16" "be_nat c = (be_nat (cs_iv s) + unat off div 16) mod 2 ^ 128"
    using start_counter_exact [OF s(2)] by (simp_all add: c_def unat_div_distrib)
  have ks: "ks (cs_key s) c n = ks (cs_key s) (cs_iv s) (16 * (unat off div 16) + n)" for n
    using E s(2) c unfolding evp_contract_def by blast
  obtain ctx ctx' where ctx: "at ctx (cs_key s) c (unat off mod 16)"
      "evp_update E ctx data (to_int32 (length data)) = (1, out, ctx')"
    using ctrTransform_reaches [OF E s ok False] unfolding c_def by blast
  from evp_contract_update(1) [OF E ctx(1), of "length data" data] ctx(2)
  have out: "out = stream_xor (ks (cs_key s) c) (unat off mod 16) data"
    by (simp add: to_int32_small [OF len] stream_xor_def)
  have pos: "16 * (unat off div 16) + (unat off mod 16 + i) = unat off + i" for i by simp
  show ?thesis
  proof (rule nth_equalityI)
    fix i assume "i < length out"
    then have i: "i < length data" by (simp add: out)
    show "out ! i = stream_xor (ks (cs_key s) (cs_iv s)) (unat off) data ! i"
      unfolding out nth_stream_xor [OF i] ks pos ..
  qed (simp add: out)
qed

lemma ctrTransform_succeeds:
  assumes "evp_succeeds E" and "0 \<le> to_int32 (length data)"
  shows "\<exists>out. ctrTransform E s off data = (RS_OK, out)"
proof -
  have "to_int32 (unat (off mod 16)) = int (unat off mod 16)"
    by (simp add: to_int32_small unat_mod_distrib)
  then have "fst (ctrTransform E s off data) = RS_OK"
    using assms unfolding evp_succeeds_def
    by (auto simp: ctrTransform_def Let_def split: option.splits prod.splits if_splits) (metis fst_conv of_nat_0_le_iff)+
  then show ?thesis by (metis prod.collapse)
qed

section \<open>Reading back\<close>

lemma provider_stream:
  assumes "EncryptionProvider key = Inr p" and "CreateCipherStream p pre = Inr (RS_OK, Some s)"
  shows "length (cs_key s) = 32" and "length (cs_iv s) = 16"
  using assms by (auto simp: EncryptionProvider_def CreateCipherStream_def AESCTRCipherStream_def split: if_splits)

text \<open>C12. Random access to an encrypted file.  With OpenSSL keeping its contract and its calls
  succeeding, encrypting data of less than 2 GB at any offset succeeds and keeps the length, and any
  slice of the result, decrypted at its own offset (in the middle of a block or not, and across the
  wrap-around of the counter), is that slice of the data.
\<close>

theorem encrypted_random_access:
  assumes "evp_contract E ks at" and "evp_succeeds E"
    and "EncryptionProvider key = Inr p" and "CreateCipherStream p pre = Inr (RS_OK, Some s)"
    and "length d < 2 ^ 31" and "i + n \<le> length d" and "unat off' = unat off + i"
  shows "\<exists>c. Encrypt E s off d = (RS_OK, c) \<and> length c = length d \<and>
           Decrypt E s off' (take n (drop i c)) = (RS_OK, take n (drop i d))"
proof -
  note s = provider_stream [OF assms(3,4)]
  let ?ks = "ks (cs_key s) (cs_iv s)"
  obtain c where c: "ctrTransform E s off d = (RS_OK, c)"
    using ctrTransform_succeeds [OF assms(2)] assms(5) by (fastforce simp: to_int32_small)
  then have ceq: "c = stream_xor ?ks (unat off) d" by (rule ctrTransform_xor [OF assms(1) s assms(5)])
  have len: "length (take n (drop i c)) < 2 ^ 31" using assms(5) by (simp add: ceq)
  obtain e where e: "ctrTransform E s off' (take n (drop i c)) = (RS_OK, e)"
    using ctrTransform_succeeds [OF assms(2)] len by (metis of_nat_0_le_iff to_int32_small)
  from ctrTransform_xor [OF assms(1) s len e] have "e = take n (drop i d)"
    using assms(6,7) by (simp add: ceq stream_xor_slice)
  with c e ceq show ?thesis by (simp add: Encrypt_def Decrypt_def)
qed

definition toy_stream :: "bytes \<Rightarrow> bytes \<Rightarrow> nat \<Rightarrow> u8" where
  "toy_stream k c n = word_of_nat ((be_nat c + n div 16) mod 2 ^ 128 + n mod 16) + hd k"

definition toy_evp :: "(bytes \<times> bytes \<times> nat) evp" where
  "toy_evp = \<lparr>evp_new = Some ([], [], 0), evp_init = (\<lambda>ctx k c. (1, (k, c, 0))),
     evp_update = (\<lambda>(k, c, n) buf inl.
       if inl < 0 then (0, buf, (k, c, n))
       else (1, map2 (XOR) (take (nat inl) buf) (map (toy_stream k c) [n ..< n + nat inl]) @ drop (nat inl) buf,
             (k, c, n + nat inl)))\<rparr>"

lemma toy_evp_ok: "evp_contract toy_evp toy_stream (\<lambda>ctx k c n. ctx = (k, c, n))" "evp_succeeds toy_evp"
proof -
  have "(be_nat c + (16 * b + n) div 16) mod 2 ^ 128 = ((be_nat c + b) mod 2 ^ 128 + n div 16) mod 2 ^ 128"
    for c :: bytes and b n :: nat
    by (simp add: div_mult_self4 add.assoc mod_add_left_eq)
  then show "evp_contract toy_evp toy_stream (\<lambda>ctx k c n. ctx = (k, c, n))"
    unfolding evp_contract_def by (auto simp: toy_evp_def toy_stream_def)
  show "evp_succeeds toy_evp" unfolding evp_succeeds_def by (auto simp: toy_evp_def)
qed

theorem encrypted_random_access_witness:
  "\<exists>c. Encrypt toy_evp \<lparr>cs_key = replicate 32 7, cs_iv = replicate 16 255\<rparr> 14 [1, 2, 3, 4] = (RS_OK, c) \<and> length c = length [1, 2, 3, 4 :: u8] \<and>
     Decrypt toy_evp \<lparr>cs_key = replicate 32 7, cs_iv = replicate 16 255\<rparr> 15 (take 2 (drop 1 c)) = (RS_OK, [2, 3])"
  using encrypted_random_access [OF toy_evp_ok, of "replicate 32 7" "\<lparr>ep_key = replicate 32 7\<rparr>" "replicate 16 255"
    "\<lparr>cs_key = replicate 32 7, cs_iv = replicate 16 255\<rparr>" "[1, 2, 3, 4]" 1 2 15 14]
  by (simp add: EncryptionProvider_def CreateCipherStream_def AESCTRCipherStream_def)

text \<open>The length is passed on as an \<open>int\<close>: 4 GB of data, or a multiple, are left as they are and
  reported as encrypted.\<close>

lemma oversized_left_plain:
  assumes "evp_contract E ks at" and "evp_succeeds E" and "length (cs_key s) = 32" and "length (cs_iv s) = 16"
    and "length d = 2 ^ 32 * m"
  shows "Encrypt E s off d = (RS_OK, d)"
proof (cases "d = []")
  case True
  then show ?thesis by (simp add: Encrypt_def ctrTransform_def)
next
  case False
  have "word_of_nat (2 ^ 32 * m) = (0 :: u32)" unfolding word_of_nat_eq_0_iff by simp
  then have z: "to_int32 (length d) = int 0" unfolding to_int32_def assms(5) by simp
  then obtain out where out: "ctrTransform E s off d = (RS_OK, out)"
    using ctrTransform_succeeds [OF assms(2)] by (metis of_nat_0_le_iff)
  obtain ctx ctx' where "at ctx (cs_key s) (start_counter (cs_iv s) (off div 16)) (unat off mod 16)"
    "evp_update E ctx d (int 0) = (1, out, ctx')"
    using ctrTransform_reaches [OF assms(1,3,4) out False] unfolding z by blast
  from evp_contract_update(1) [OF assms(1) this(1) _ this(2)] have "out = d" by simp
  with out show ?thesis by (simp add: Encrypt_def)
qed


section \<open>Loading keys\<close>

text \<open>The files as paths of the process see them: a regular file that can or cannot be opened, a
  directory with its entries in iteration order, or something else that delivers bytes when read.\<close>

datatype fs_node = Regular bytes | Unreadable | Directory "string list" | Special bytes

type_synonym file_map = "string \<rightharpoonup> fs_node"

record encryption_secret =
  es_key :: bytes
  es_id :: string

definition filename :: "string \<Rightarrow> string" where
  "filename path = rev (takeWhile (\<lambda>c. c \<noteq> CHR ''/'') (rev path))"

text \<open>What an opened stream delivers; a directory may be opened and gives nothing.\<close>

definition read_bytes :: "file_map \<Rightarrow> string \<Rightarrow> bytes option" where
  "read_bytes fs path =
     (case fs path of
        None \<Rightarrow> None
      | Some (Regular bs) \<Rightarrow> Some bs
      | Some Unreadable \<Rightarrow> None
      | Some (Directory _) \<Rightarrow> Some []
      | Some (Special bs) \<Rightarrow> Some bs)"

definition loadKeyFromFile :: "file_map \<Rightarrow> string \<Rightarrow> encryption_secret option" where
  "loadKeyFromFile fs path =
     (case read_bytes fs path of
        None \<Rightarrow> None
      | Some content \<Rightarrow>
          if length content \<noteq> 32 then None
          else Some \<lparr>es_key = content, es_id = filename path\<rparr>)"

definition is_directory :: "file_map \<Rightarrow> string \<Rightarrow> bool" where
  "is_directory fs path = (case fs path of Some (Directory _) \<Rightarrow> True | _ \<Rightarrow> False)"

definition is_regular_file :: "file_map \<Rightarrow> string \<Rightarrow> bool" where
  "is_regular_file fs path = (case fs path of Some (Regular _) \<Rightarrow> True | Some Unreadable \<Rightarrow> True | _ \<Rightarrow> False)"

definition loadKeysFromFolder :: "file_map \<Rightarrow> string \<Rightarrow> encryption_secret list" where
  "loadKeysFromFolder fs path =
     (case fs path of
        Some (Directory entries) \<Rightarrow>
          sort_key es_id
            (foldl (\<lambda>keys name.
               let entry = path_append path name
               in if \<not> is_regular_file fs entry then keys
                  else case loadKeyFromFile fs entry of None \<Rightarrow> keys | Some secret \<Rightarrow> keys @ [secret]) [] entries)
      | _ \<Rightarrow> [])"

definition hasNewRotationKey :: "file_map \<Rightarrow> string \<Rightarrow> string \<Rightarrow> bool" where
  "hasNewRotationKey fs keyfolderPath currentKeyId =
     list_ex (\<lambda>k. es_id k \<noteq> currentKeyId) (loadKeysFromFolder fs keyfolderPath)"

section \<open>The feature\<close>

record encryption_feature =
  keyfilePath :: string
  keyfolderPath :: string
  encryptionEnabled :: bool
  keyRotationEnabled :: bool
  has_keyfile_option :: bool
  has_keyfolder_option :: bool
  feature_provider :: "encryption_provider option"

definition EncryptionFeature :: encryption_feature where
  "EncryptionFeature = \<lparr>keyfilePath = [], keyfolderPath = [], encryptionEnabled = False, keyRotationEnabled = False,
     has_keyfile_option = False, has_keyfolder_option = False, feature_provider = None\<rparr>"

text \<open>The options added when a registry is passed; it later writes the parsed values to the members.\<close>

definition collectOptions :: "bool \<Rightarrow> encryption_feature \<Rightarrow> string list \<times> encryption_feature" where
  "collectOptions opts f =
     (if opts then [''--rocksdb.encryption-keyfile'', ''--rocksdb.encryption-keyfolder'', ''--rocksdb.encryption-key-rotation'']
      else [],
      f\<lparr>has_keyfile_option := True, has_keyfolder_option := True\<rparr>)"

definition validateOptions :: "file_map \<Rightarrow> encryption_feature \<Rightarrow> cpp_exn option" where
  "validateOptions fs f =
     (if keyfilePath f \<noteq> [] \<and> fs (keyfilePath f) = None
      then Some (Runtime_error (''Encryption keyfile does not exist: '' @ keyfilePath f))
      else if keyfilePath f \<noteq> [] \<and> \<not> is_regular_file fs (keyfilePath f)
      then Some (Runtime_error (''Encryption keyfile is not a regular file: '' @ keyfilePath f))
      else if keyfolderPath f \<noteq> [] \<and> \<not> is_directory fs (keyfolderPath f)
      then Some (Runtime_error (''Encryption keyfolder is not a directory: '' @ keyfolderPath f))
      else None)"

definition prepare_encryption :: "file_map \<Rightarrow> encryption_feature \<Rightarrow> cpp_exn + encryption_feature" where
  "prepare_encryption fs f =
     (if keyfilePath f = [] \<and> keyfolderPath f = [] then Inr f
      else if keyfilePath f \<noteq> []
      then (case loadKeyFromFile fs (keyfilePath f) of
              None \<Rightarrow> Inl (Runtime_error (''Failed to load encryption key from: '' @ keyfilePath f @
                       '' (file must contain exactly 32 bytes)''))
            | Some secret \<Rightarrow>
                (case EncryptionProvider (es_key secret) of
                   Inl e \<Rightarrow> Inl e
                 | Inr p \<Rightarrow> Inr (f\<lparr>feature_provider := Some p, encryptionEnabled := True\<rparr>)))
      else Inr f)"

definition unprepare :: "encryption_feature \<Rightarrow> encryption_feature" where
  "unprepare f = f\<lparr>feature_provider := None, encryptionEnabled := False\<rparr>"

definition isEncryptionEnabled :: "encryption_feature \<Rightarrow> bool" where
  "isEncryptionEnabled f = encryptionEnabled f"

definition provider :: "encryption_feature \<Rightarrow> encryption_provider option" where
  "provider f = feature_provider f"

definition setKeyfilePath :: "string \<Rightarrow> encryption_feature \<Rightarrow> encryption_feature" where
  "setKeyfilePath path f = f\<lparr>keyfilePath := path\<rparr>"

definition setKeyfolderPath :: "string \<Rightarrow> encryption_feature \<Rightarrow> encryption_feature" where
  "setKeyfolderPath path f = f\<lparr>keyfolderPath := path\<rparr>"


section \<open>What the key loaders return\<close>

lemma filename_append: "CHR ''/'' \<notin> set name \<Longrightarrow> filename (path_append dir name) = name"
  by (cases dir rule: rev_cases) (simp_all add: filename_def path_append_def takeWhile_append2 takeWhile_all)

lemma loadKeyFromFile_length: "loadKeyFromFile fs path = Some s \<Longrightarrow> length (es_key s) = 32 \<and> es_id s = filename path"
  by (auto simp: loadKeyFromFile_def split: option.splits if_splits)

lemma folder_keys:
  "loadKeysFromFolder fs path = (case fs path of Some (Directory entries) \<Rightarrow>
     sort_key es_id (List.map_filter (\<lambda>name. if is_regular_file fs (path_append path name)
       then loadKeyFromFile fs (path_append path name) else None) entries) | _ \<Rightarrow> [])"
proof -
  let ?g = "\<lambda>name. if is_regular_file fs (path_append path name) then loadKeyFromFile fs (path_append path name) else None"
  have "foldl (\<lambda>keys name. let entry = path_append path name
           in if \<not> is_regular_file fs entry then keys
              else case loadKeyFromFile fs entry of None \<Rightarrow> keys | Some secret \<Rightarrow> keys @ [secret]) ks es =
        ks @ List.map_filter ?g es" for ks es
  proof (induction es arbitrary: ks)
    case (Cons e es)
    have "foldl (\<lambda>keys name. let entry = path_append path name
           in if \<not> is_regular_file fs entry then keys
              else case loadKeyFromFile fs entry of None \<Rightarrow> keys | Some secret \<Rightarrow> keys @ [secret]) ks (e # es) =
        (case ?g e of None \<Rightarrow> ks | Some s \<Rightarrow> ks @ [s]) @ List.map_filter ?g es"
      by (simp add: Cons.IH [unfolded Let_def] Let_def split: option.splits)
    then show ?case by (simp add: List.map_filter_def split: option.splits)
  qed (simp add: List.map_filter_def)
  then show ?thesis by (simp add: loadKeysFromFolder_def split: option.splits fs_node.splits)
qed

lemma loadKeysFromFolder_sorted: "sorted (map es_id (loadKeysFromFolder fs path))"
  by (simp add: folder_keys split: option.splits fs_node.splits)

lemma loadKeysFromFolder_keys: "s \<in> set (loadKeysFromFolder fs path) \<Longrightarrow> length (es_key s) = 32"
  by (auto simp: folder_keys List.map_filter_def dest: loadKeyFromFile_length split: option.splits fs_node.splits if_splits)

text \<open>With more than one key in the folder a rotation is always reported as needed, whichever of
  them is current.\<close>

lemma rotation_never_settles:
  assumes "a \<in> set (loadKeysFromFolder fs path)" and "b \<in> set (loadKeysFromFolder fs path)" and "es_id a \<noteq> es_id b"
  shows "hasNewRotationKey fs path current"
  using assms unfolding hasNewRotationKey_def list_ex_iff by metis

section \<open>The life cycle of the feature\<close>

datatype feature_op =
    Collect_options bool
  | Set_paths string string bool
  | Validate file_map
  | Prepare file_map
  | Unprepare

text \<open>A call that throws leaves the feature as it was: nothing is assigned before the throw.\<close>

definition feature_step :: "encryption_feature \<Rightarrow> feature_op \<Rightarrow> encryption_feature" where
  "feature_step f call =
     (case call of
        Collect_options opts \<Rightarrow> snd (collectOptions opts f)
      | Set_paths file folder rot \<Rightarrow> (setKeyfolderPath folder (setKeyfilePath file f))\<lparr>keyRotationEnabled := rot\<rparr>
      | Validate fs \<Rightarrow> f
      | Prepare fs \<Rightarrow> (case prepare_encryption fs f of Inl _ \<Rightarrow> f | Inr g \<Rightarrow> g)
      | Unprepare \<Rightarrow> unprepare f)"

definition feature_typed :: "encryption_feature \<Rightarrow> bool" where
  "feature_typed f \<longleftrightarrow>
     (isEncryptionEnabled f \<longleftrightarrow> provider f \<noteq> None) \<and> pred_option (\<lambda>p. length (ep_key p) = 32) (provider f)"

lemma prepare_typed:
  assumes "feature_typed f" and "prepare_encryption fs f = Inr g"
  shows "feature_typed g"
proof (cases "keyfilePath f = []")
  case True
  then show ?thesis using assms by (simp add: prepare_encryption_def split: if_splits)
next
  case False
  then obtain s where s: "loadKeyFromFile fs (keyfilePath f) = Some s"
    using assms(2) by (auto simp: prepare_encryption_def split: option.splits)
  then have "g = f\<lparr>feature_provider := Some \<lparr>ep_key = es_key s\<rparr>, encryptionEnabled := True\<rparr>"
    using False assms(2) loadKeyFromFile_length [OF s] by (simp add: prepare_encryption_def EncryptionProvider_def)
  then show ?thesis using loadKeyFromFile_length [OF s]
    by (simp add: feature_typed_def isEncryptionEnabled_def provider_def)
qed

lemma feature_step_typed: "feature_typed f \<Longrightarrow> feature_typed (feature_step f call)"
proof (cases call)
  case (Prepare fs)
  assume "feature_typed f"
  then show ?thesis using prepare_typed by (auto simp: feature_step_def Prepare split: sum.split)
qed (simp_all add: feature_step_def collectOptions_def setKeyfilePath_def setKeyfolderPath_def unprepare_def
      feature_typed_def isEncryptionEnabled_def provider_def)

lemma typed_provider_streams:
  "feature_typed f \<Longrightarrow> provider f = Some p \<Longrightarrow>
   CreateCipherStream p iv_prefix =
     Inr (if length iv_prefix < 16 then (RS_InvalidArgument ''Prefix too short for IV'', None)
          else (RS_OK, Some \<lparr>cs_key = ep_key p, cs_iv = take 16 iv_prefix\<rparr>))"
  by (auto simp: feature_typed_def CreateCipherStream_def AESCTRCipherStream_def)

text \<open>C36. The key type is kept through every sequence of calls: encryption is enabled exactly when a
  provider exists, its key has 32 bytes, and so making a stream never throws; it fails only for a
  prefix shorter than an initial counter.
\<close>

theorem provider_always_usable:
  assumes "f = foldl feature_step EncryptionFeature calls"
  shows "(isEncryptionEnabled f \<longleftrightarrow> provider f \<noteq> None) \<and>
    (\<forall>p iv_prefix. provider f = Some p \<longrightarrow> length (ep_key p) = 32 \<and>
       CreateCipherStream p iv_prefix =
         Inr (if length iv_prefix < 16 then (RS_InvalidArgument ''Prefix too short for IV'', None)
              else (RS_OK, Some \<lparr>cs_key = ep_key p, cs_iv = take 16 iv_prefix\<rparr>)))"
proof -
  have init: "feature_typed EncryptionFeature"
    by (simp add: feature_typed_def EncryptionFeature_def isEncryptionEnabled_def provider_def)
  have "feature_typed g \<Longrightarrow> feature_typed (foldl feature_step g calls)" for g
    by (induction calls arbitrary: g) (simp_all add: feature_step_typed)
  with init assms have "feature_typed f" by simp
  then show ?thesis using typed_provider_streams [of f] by (auto simp: feature_typed_def)
qed

theorem provider_always_usable_witness:
  "isEncryptionEnabled (foldl feature_step EncryptionFeature
     [Set_paths ''/k'' [] False, Prepare [''/k'' \<mapsto> Regular (replicate 32 9)]])"
  using provider_always_usable [OF refl, of "[Set_paths ''/k'' [] False, Prepare [''/k'' \<mapsto> Regular (replicate 32 9)]]"]
  by (simp add: feature_step_def prepare_encryption_def loadKeyFromFile_def read_bytes_def setKeyfilePath_def
      setKeyfolderPath_def EncryptionFeature_def EncryptionProvider_def isEncryptionEnabled_def provider_def)

text \<open>With only a key folder configured everything is accepted and encryption stays off.\<close>

lemma keyfolder_alone_disabled:
  assumes "keyfilePath f = []"
  shows "prepare_encryption fs f = Inr f"
  using assms by (simp add: prepare_encryption_def)

end
