(* ===== verification/Backup_Manifest.thy ===== *)
theory Backup_Manifest
  imports Prelude
begin

text \<open>
  The manifest of a hot backup (\<open>BackupManifest\<close> in \<^verbatim>\<open>Enterprise/RocksDBEngine/RocksDBHotBackup.cpp\<close>):
  its hand-written JSON text, the helpers that look fields up in such a text by searching for the
  quoted key, and the proof that what is written is read back.
\<close>

section \<open>Results and manifests\<close>

record hotbackup_result =
  hr_ok :: bool
  hr_errorNumber :: int
  hr_errorMessage :: string

definition hr_success :: hotbackup_result where
  "hr_success = \<lparr>hr_ok = True, hr_errorNumber = 0, hr_errorMessage = []\<rparr>"

definition hr_error :: "int \<Rightarrow> string \<Rightarrow> hotbackup_result" where
  "hr_error code msg = \<lparr>hr_ok = False, hr_errorNumber = code, hr_errorMessage = msg\<rparr>"

definition hr_notFound :: "string \<Rightarrow> hotbackup_result" where "hr_notFound msg = hr_error 404 msg"

definition hr_badRequest :: "string \<Rightarrow> hotbackup_result" where "hr_badRequest msg = hr_error 400 msg"

record backup_manifest =
  bm_backupId :: string
  bm_timestamp :: string
  bm_version :: string
  bm_sequenceNumber :: u64
  bm_collections :: "string list"
  bm_path :: string
  bm_isConsistent :: bool

definition empty_manifest :: backup_manifest where
  "empty_manifest = \<lparr>bm_backupId = [], bm_timestamp = [], bm_version = [], bm_sequenceNumber = 0,
     bm_collections = [], bm_path = [], bm_isConsistent = False\<rparr>"

section \<open>Writing\<close>

abbreviation quote :: char where "quote \<equiv> CHR 0x22"
abbreviation nl :: string where "nl \<equiv> [CHR 0x0A]"

definition json_items :: "string list \<Rightarrow> string" where
  "json_items cs = concat (map (\<lambda>i. (if i > 0 then '', '' else []) @ [quote] @ cs ! i @ [quote]) [0 ..< length cs])"

definition bool_text :: "bool \<Rightarrow> string" where
  "bool_text b = (if b then ''true'' else ''false'')"

definition toJson :: "backup_manifest \<Rightarrow> string" where
  \<open>toJson m =
     ''{'' @ nl @
     ''  "backupId": "'' @ bm_backupId m @ ''",'' @ nl @
     ''  "timestamp": "'' @ bm_timestamp m @ ''",'' @ nl @
     ''  "version": "'' @ bm_version m @ ''",'' @ nl @
     ''  "sequenceNumber": '' @ dec (unat (bm_sequenceNumber m)) @ '','' @ nl @
     ''  "path": "'' @ bm_path m @ ''",'' @ nl @
     ''  "isConsistent": '' @ bool_text (bm_isConsistent m) @ '','' @ nl @
     ''  "collections": ['' @ json_items (bm_collections m) @ '']'' @ nl @
     ''}''\<close>

section \<open>Reading\<close>

definition extractStringField :: "string \<Rightarrow> string \<Rightarrow> string" where
  \<open>extractStringField json field =
     (let key = ''"'' @ field @ ''": "''
      in case str_find json key 0 of
           None \<Rightarrow> []
         | Some pos \<Rightarrow>
             let pos = pos + length key
             in case str_find json ''"'' pos of
                  None \<Rightarrow> []
                | Some e \<Rightarrow> substr json pos (e - pos))\<close>

definition hasField :: "string \<Rightarrow> string \<Rightarrow> bool" where
  \<open>hasField json field = (str_find json (''"'' @ field @ ''"'') 0 \<noteq> None)\<close>

text \<open>\<open>None\<close> is the \<open>std::out_of_range\<close> of \<open>std::stoull\<close>.\<close>

definition extractUint64Field :: "string \<Rightarrow> string \<Rightarrow> u64 option" where
  \<open>extractUint64Field json field =
     (let key = ''"'' @ field @ ''": ''
      in case str_find json key 0 of
           None \<Rightarrow> Some 0
         | Some pos \<Rightarrow>
             let digits = takeWhile is_digit (drop (pos + length key) json)
             in if digits = [] then Some 0 else stoull digits)\<close>

definition extractBoolField :: "string \<Rightarrow> string \<Rightarrow> bool" where
  \<open>extractBoolField json field =
     (let key = ''"'' @ field @ ''": ''
      in case str_find json key 0 of
           None \<Rightarrow> False
         | Some pos \<Rightarrow> substr json (pos + length key) 4 = ''true'')\<close>

function array_loop :: "string \<Rightarrow> nat \<Rightarrow> string list \<Rightarrow> string list" where
  "array_loop content i result =
     (if i < length content
      then case str_find content [quote] i of
             None \<Rightarrow> result
           | Some quoteStart \<Rightarrow>
               (case str_find content [quote] (quoteStart + 1) of
                  None \<Rightarrow> result
                | Some quoteEnd \<Rightarrow>
                    array_loop content (quoteEnd + 1) (result @ [substr content (quoteStart + 1) (quoteEnd - quoteStart - 1)]))
      else result)"
  by pat_completeness auto
termination
  by (relation "measure (\<lambda>(content, i, result). length content - i)") (auto dest!: str_find_Some(1))

declare array_loop.simps [simp del]

definition extractStringArray :: "string \<Rightarrow> string \<Rightarrow> string list" where
  \<open>extractStringArray json field =
     (let key = ''"'' @ field @ ''": [''
      in case str_find json key 0 of
           None \<Rightarrow> []
         | Some pos \<Rightarrow>
             let pos = pos + length key
             in case str_find json '']'' pos of
                  None \<Rightarrow> []
                | Some e \<Rightarrow> array_loop (substr json pos (e - pos)) 0 [])\<close>

text \<open>The result and the manifest written to; \<open>None\<close> is an exception.\<close>

definition fromJson :: "string \<Rightarrow> backup_manifest \<Rightarrow> (hotbackup_result \<times> backup_manifest) option" where
  "fromJson json out =
     (if json = [] then Some (hr_badRequest ''Empty JSON input'', out)
      else if \<not> hasField json ''backupId'' then Some (hr_badRequest ''Missing required field: backupId'', out)
      else if \<not> hasField json ''timestamp'' then Some (hr_badRequest ''Missing required field: timestamp'', out)
      else case extractUint64Field json ''sequenceNumber'' of
             None \<Rightarrow> None
           | Some seqNum \<Rightarrow>
               let out = \<lparr>bm_backupId = extractStringField json ''backupId'',
                          bm_timestamp = extractStringField json ''timestamp'',
                          bm_version = extractStringField json ''version'',
                          bm_sequenceNumber = seqNum,
                          bm_collections = extractStringArray json ''collections'',
                          bm_path = extractStringField json ''path'',
                          bm_isConsistent = extractBoolField json ''isConsistent''\<rparr>
               in if bm_backupId out = [] then Some (hr_badRequest ''backupId cannot be empty'', out)
                  else if bm_timestamp out = [] then Some (hr_badRequest ''timestamp cannot be empty'', out)
                  else Some (hr_success, out))"


section \<open>Finding a key among the lines\<close>

definition plain :: "string \<Rightarrow> bool" where
  "plain s \<longleftrightarrow> quote \<notin> set s"

text \<open>What follows the name of a key: the rest of a line, then the text after it.\<close>

definition str_line :: "string \<Rightarrow> string \<Rightarrow> string \<Rightarrow> string" where
  "str_line g v rest = ''  '' @ [quote] @ g @ [quote] @ '': '' @ [quote] @ v @ [quote] @ '','' @ nl @ rest"

definition plain_line :: "string \<Rightarrow> string \<Rightarrow> string \<Rightarrow> string" where
  "plain_line g w rest = ''  '' @ [quote] @ g @ [quote] @ '': '' @ w @ '','' @ nl @ rest"

definition key_of :: "string \<Rightarrow> string \<Rightarrow> string" where
  "key_of f x = [quote] @ f @ [quote] @ '':'' @ x"

lemma prefix_quoted:
  "plain f \<Longrightarrow> plain g \<Longrightarrow> prefix (f @ quote # a) (g @ quote # b) \<longleftrightarrow> f = g \<and> prefix a b"
proof (induction f arbitrary: g)
  case Nil
  then show ?case by (cases g) (auto simp: plain_def)
next
  case (Cons c f)
  then show ?case by (cases g) (auto simp: plain_def)
qed

lemma find_key_skip:
  assumes "quote \<notin> set xs" and "\<not> prefix (key_of f x) (quote # ys)"
  shows "find_sub (key_of f x) (xs @ quote # ys) = map_option (\<lambda>i. length xs + 1 + i) (find_sub (key_of f x) ys)"
  using assms find_sub_skip [of quote xs "f @ [quote] @ '':'' @ x" "quote # ys"]
  by (simp add: key_of_def option.map_comp comp_def)

lemma find_key_skip_plain:
  "quote \<notin> set xs \<Longrightarrow> find_sub (key_of f x) (xs @ ys) = map_option (\<lambda>i. length xs + i) (find_sub (key_of f x) ys)"
  using find_sub_skip [of quote xs "f @ [quote] @ '':'' @ x"] by (simp add: key_of_def)

lemma find_key_here:
  assumes "quote \<notin> set xs"
  shows "find_sub (key_of f x) (xs @ key_of f x @ ys) = Some (length xs)"
  unfolding find_key_skip_plain [OF assms] by (simp add: find_sub_self)

text \<open>A key is a name that is plain and does not begin like what follows a quote in a line.\<close>

definition key_name :: "string \<Rightarrow> bool" where
  "key_name f \<longleftrightarrow> plain f \<and> f \<noteq> [] \<and> hd f \<noteq> CHR '':'' \<and> hd f \<noteq> CHR '',''"

lemma key_not_here:
  assumes "key_name f"
  shows "plain v \<Longrightarrow> f \<noteq> v \<Longrightarrow> \<not> prefix (key_of f x) (quote # v @ quote # b)"
    and "plain v \<Longrightarrow> \<not> prefix (key_of f x) (quote # v @ quote # CHR '','' # b)"
    and "\<not> prefix (key_of f x) (quote # CHR '':'' # b)"
    and "\<not> prefix (key_of f x) (quote # CHR '','' # b)"
  using assms prefix_quoted [of f v "'':'' @ x"]
  by (auto simp: key_name_def key_of_def neq_Nil_conv)

lemma find_key_str_line:
  assumes "key_name f" and "plain g" and "plain v" and "f \<noteq> g"
  shows "find_sub (key_of f x) (str_line g v rest) =
    map_option (\<lambda>i. length (str_line g v []) + i) (find_sub (key_of f x) rest)"
proof -
  have 1: "find_sub (key_of f x) (str_line g v rest) =
      map_option (\<lambda>i. Suc (Suc (Suc i))) (find_sub (key_of f x) (g @ quote # '': '' @ quote # v @ quote # '','' @ nl @ rest))"
    using find_key_skip [of "''  ''" f x] key_not_here(1) [OF assms(1,2,4)] by (simp add: str_line_def)
  have 2: "find_sub (key_of f x) (g @ quote # '': '' @ quote # v @ quote # '','' @ nl @ rest) =
      map_option (\<lambda>i. length g + 1 + i) (find_sub (key_of f x) ('': '' @ quote # v @ quote # '','' @ nl @ rest))"
    using find_key_skip [of g f x] key_not_here(3) [OF assms(1)] assms(2) by (simp add: plain_def)
  have 3: "find_sub (key_of f x) ('': '' @ quote # v @ quote # '','' @ nl @ rest) =
      map_option (\<lambda>i. Suc (Suc (Suc i))) (find_sub (key_of f x) (v @ quote # '','' @ nl @ rest))"
    using find_key_skip [of "'': ''" f x] key_not_here(2) [OF assms(1,3)] by simp
  have 4: "find_sub (key_of f x) (v @ quote # '','' @ nl @ rest) =
      map_option (\<lambda>i. length v + 1 + i) (find_sub (key_of f x) ('','' @ nl @ rest))"
    using find_key_skip [of v f x] key_not_here(4) [OF assms(1)] assms(3) by (simp add: plain_def)
  have 5: "find_sub (key_of f x) ('','' @ nl @ rest) = map_option (\<lambda>i. Suc (Suc i)) (find_sub (key_of f x) rest)"
    using find_key_skip_plain [of "'','' @ nl" f x rest] by simp
  show ?thesis unfolding 1 2 3 4 5 option.map_comp comp_def
    by (rule arg_cong2 [where f = map_option]) (simp_all add: str_line_def add.assoc)
qed

lemma find_key_plain_line:
  assumes "key_name f" and "plain g" and "plain w" and "f \<noteq> g"
  shows "find_sub (key_of f x) (plain_line g w rest) =
    map_option (\<lambda>i. length (plain_line g w []) + i) (find_sub (key_of f x) rest)"
proof -
  have 1: "find_sub (key_of f x) (plain_line g w rest) =
      map_option (\<lambda>i. Suc (Suc (Suc i))) (find_sub (key_of f x) (g @ quote # '': '' @ w @ '','' @ nl @ rest))"
    using find_key_skip [of "''  ''" f x] key_not_here(1) [OF assms(1,2,4)] by (simp add: plain_line_def)
  have 2: "find_sub (key_of f x) (g @ quote # '': '' @ w @ '','' @ nl @ rest) =
      map_option (\<lambda>i. length g + 1 + i) (find_sub (key_of f x) ('': '' @ w @ '','' @ nl @ rest))"
    using find_key_skip [of g f x] key_not_here(3) [OF assms(1)] assms(2) by (simp add: plain_def)
  have 3: "find_sub (key_of f x) ('': '' @ w @ '','' @ nl @ rest) =
      map_option (\<lambda>i. Suc (Suc (length w + Suc (Suc i)))) (find_sub (key_of f x) rest)"
    using find_key_skip_plain [of "'': '' @ w @ '','' @ nl" f x rest] assms(3) by (simp add: plain_def)
  show ?thesis unfolding 1 2 3 option.map_comp comp_def
    by (rule arg_cong2 [where f = map_option]) (simp_all add: plain_line_def add.assoc)
qed


text \<open>A text that contains no occurrence of the key, nor the start of one.\<close>

definition skips :: "string \<Rightarrow> string \<Rightarrow> bool" where
  "skips f xs \<longleftrightarrow> (\<forall>x ys. find_sub (key_of f x) (xs @ ys) = map_option (\<lambda>i. length xs + i) (find_sub (key_of f x) ys))"

lemma skips_append: "skips f xs \<Longrightarrow> skips f ys \<Longrightarrow> skips f (xs @ ys)"
  by (simp add: skips_def option.map_comp comp_def add.assoc)

lemma str_line_append: "str_line g v rest = str_line g v [] @ rest"
  by (simp add: str_line_def)

lemma plain_line_append: "plain_line g w rest = plain_line g w [] @ rest"
  by (simp add: plain_line_def)

lemma skips_lines:
  "key_name f \<Longrightarrow> plain g \<Longrightarrow> plain v \<Longrightarrow> f \<noteq> g \<Longrightarrow> skips f (str_line g v [])"
  "key_name f \<Longrightarrow> plain g \<Longrightarrow> plain v \<Longrightarrow> f \<noteq> g \<Longrightarrow> skips f (plain_line g v [])"
  "quote \<notin> set xs \<Longrightarrow> skips f xs"
  using find_key_str_line [of f g v] find_key_plain_line [of f g v] find_key_skip_plain [of xs f]
  by (simp_all add: skips_def flip: str_line_append plain_line_append)

lemma key_found:
  assumes "skips f xs" and "quote \<notin> set sp"
  shows "str_find (xs @ sp @ key_of f x @ ys) (key_of f x) 0 = Some (length (xs @ sp))"
  using assms find_key_here [OF assms(2)] by (simp add: skips_def str_find_0)

lemma str_find_char:
  "c \<notin> set v \<Longrightarrow> n = length xs \<Longrightarrow> str_find (xs @ v @ c # ys) [c] n = Some (length xs + length v)"
  by (simp add: str_find_at find_sub_char)

lemma read_string:
  assumes "skips f xs" and "plain v"
  shows "extractStringField (xs @ str_line f v ys) f = v"
proof -
  let ?x = "'' '' @ [quote]"
  have t: "xs @ str_line f v ys = xs @ ''  '' @ key_of f ?x @ v @ quote # '','' @ nl @ ys"
    by (simp add: str_line_def key_of_def)
  have k: "quote # f @ [quote, CHR '':'', CHR '' '', quote] = key_of f ?x" by (simp add: key_of_def)
  have "str_find (xs @ str_line f v ys) (key_of f ?x) 0 = Some (length (xs @ ''  ''))"
    unfolding t by (rule key_found) (simp_all add: assms(1))
  moreover have "str_find (xs @ str_line f v ys) [quote] (length (xs @ ''  '') + length (key_of f ?x)) =
      Some (length (xs @ ''  '' @ key_of f ?x) + length v)"
    using str_find_char [of quote v _ "xs @ ''  '' @ key_of f ?x" "'','' @ nl @ ys"] assms(2) unfolding t plain_def by simp
  moreover have "substr (xs @ str_line f v ys) (length (xs @ ''  '') + length (key_of f ?x)) (length v) = v"
    using substr_append [of "xs @ ''  '' @ key_of f ?x" v] unfolding t by simp
  ultimately show ?thesis by (simp add: extractStringField_def Let_def k)
qed

lemma comma_no_digit: "\<not> is_digit (CHR '','')"
  by (simp add: is_digit_def)

lemma read_digits:
  assumes "skips f xs"
  shows "extractUint64Field (xs @ plain_line f (dec n) ys) f = stoull (dec n)"
proof -
  have t: "xs @ plain_line f (dec n) ys = (xs @ ''  '' @ key_of f '' '') @ dec n @ CHR '','' # nl @ ys"
    by (simp add: plain_line_def key_of_def)
  have k: "quote # f @ [quote, CHR '':'', CHR '' ''] = key_of f '' ''" by (simp add: key_of_def)
  have "str_find (xs @ plain_line f (dec n) ys) (key_of f '' '') 0 = Some (length (xs @ ''  ''))"
    unfolding t append_assoc by (rule key_found) (simp_all add: assms(1))
  moreover have "takeWhile is_digit (drop (length (xs @ ''  '') + length (key_of f '' '')) (xs @ plain_line f (dec n) ys)) =
      dec n"
    unfolding t by (simp add: takeWhile_append2 dec_digits comma_no_digit)
  ultimately show ?thesis by (simp add: extractUint64Field_def Let_def k dec_nonempty)
qed

lemma read_uint64:
  assumes "skips f xs"
  shows "extractUint64Field (xs @ plain_line f (dec (unat n)) ys) f = Some n"
  unfolding read_digits [OF assms] by (rule stoull_dec)

lemma read_bool:
  assumes "skips f xs"
  shows "extractBoolField (xs @ plain_line f (bool_text b) ys) f = b"
proof -
  have t: "xs @ plain_line f (bool_text b) ys = (xs @ ''  '' @ key_of f '' '') @ bool_text b @ CHR '','' # nl @ ys"
    by (simp add: plain_line_def key_of_def)
  have k: "quote # f @ [quote, CHR '':'', CHR '' ''] = key_of f '' ''" by (simp add: key_of_def)
  have "str_find (xs @ plain_line f (bool_text b) ys) (key_of f '' '') 0 = Some (length (xs @ ''  ''))"
    unfolding t append_assoc by (rule key_found) (simp_all add: assms(1))
  moreover have "substr (xs @ plain_line f (bool_text b) ys) (length (xs @ ''  '') + length (key_of f '' '')) 4 = ''true'' \<longleftrightarrow> b"
    unfolding t substr_def by (simp add: bool_text_def)
  ultimately show ?thesis by (simp add: extractBoolField_def Let_def k)
qed


section \<open>The array of names\<close>

definition item_text :: "string \<Rightarrow> string" where
  "item_text c = [quote] @ c @ [quote]"

definition items_text :: "string list \<Rightarrow> string" where
  "items_text cs = concat (map (\<lambda>c. '', '' @ item_text c) cs)"

lemma json_items_text: "json_items (c # cs) = item_text c @ items_text cs"
proof -
  have "map (\<lambda>i. (if i > 0 then '', '' else []) @ [quote] @ (c # cs) ! i @ [quote]) [1 ..< Suc (length cs)] =
      map (\<lambda>c. '', '' @ item_text c) cs"
    by (rule nth_equalityI) (simp_all add: item_text_def del: upt_Suc)
  then show ?thesis by (simp add: json_items_def items_text_def item_text_def upt_rec [of 0] del: upt_Suc)
qed

lemma array_loop_item:
  assumes "quote \<notin> set sep" and "plain c"
  shows "array_loop (xs @ sep @ item_text c @ ys) (length xs) result =
    array_loop (xs @ sep @ item_text c @ ys) (length (xs @ sep @ item_text c)) (result @ [c])"
proof -
  let ?t = "xs @ sep @ item_text c @ ys"
  have 1: "str_find ?t [quote] (length xs) = Some (length xs + length sep)"
    using str_find_char [OF assms(1) refl, of xs "c @ quote # ys"] by (simp add: item_text_def)
  have 2: "str_find ?t [quote] (length xs + length sep + 1) = Some (length xs + length sep + 1 + length c)"
    using str_find_char [of quote c _ "xs @ sep @ [quote]" ys] assms(2) by (simp add: item_text_def plain_def)
  have 3: "substr ?t (length xs + length sep + 1) (length c) = c"
    using substr_append [of "xs @ sep @ [quote]" c "quote # ys"] by (simp add: item_text_def)
  show ?thesis
    by (subst array_loop.simps) (use 3 in \<open>simp only: 1 2 option.case, simp add: item_text_def add.assoc\<close>)
qed

lemma array_loop_items:
  "list_all plain cs \<Longrightarrow>
   array_loop (xs @ items_text cs) (length xs) result = result @ cs"
proof (induction cs arbitrary: xs result)
  case Nil
  then show ?case by (subst array_loop.simps) (simp add: items_text_def)
next
  case (Cons c cs)
  have "xs @ items_text (c # cs) = xs @ '', '' @ item_text c @ items_text cs" by (simp add: items_text_def)
  then show ?case
    using array_loop_item [of "'', ''" c xs "items_text cs" result] Cons.prems
      Cons.IH [of "xs @ '', '' @ item_text c" "result @ [c]"] by simp
qed

lemma array_loop_all: "list_all plain cs \<Longrightarrow> array_loop (json_items cs) 0 [] = cs"
proof (cases cs)
  case Nil
  then show ?thesis by (subst array_loop.simps) (simp add: json_items_def)
next
  case (Cons c cs')
  assume "list_all plain cs"
  then show ?thesis
    using array_loop_item [of "[]" c "[]" "items_text cs'" "[]"] array_loop_items [of cs' "item_text c" "[c]"]
    by (simp add: Cons json_items_text)
qed

lemma no_bracket: "list_all (\<lambda>c. CHR '']'' \<notin> set c) cs \<Longrightarrow> CHR '']'' \<notin> set (json_items cs)"
  by (auto simp: json_items_def list_all_length)

lemma read_array:
  assumes "skips f xs" and "list_all plain cs" and "list_all (\<lambda>c. CHR '']'' \<notin> set c) cs"
  shows "extractStringArray (xs @ ''  '' @ [quote] @ f @ [quote] @ '': ['' @ json_items cs @ '']'' @ ys) f = cs"
    (is "extractStringArray ?t f = _")
proof -
  let ?x = "'' [''"
  have t: "?t = xs @ ''  '' @ key_of f ?x @ json_items cs @ CHR '']'' # ys"
    by (simp add: key_of_def)
  have k: "quote # f @ [quote, CHR '':'', CHR '' '', CHR ''['']  = key_of f ?x" by (simp add: key_of_def)
  have "str_find ?t (key_of f ?x) 0 = Some (length (xs @ ''  ''))"
    unfolding t by (rule key_found) (simp_all add: assms(1))
  moreover have "str_find ?t '']'' (length (xs @ ''  '') + length (key_of f ?x)) =
      Some (length (xs @ ''  '' @ key_of f ?x) + length (json_items cs))"
    using str_find_char [OF no_bracket [OF assms(3)], of _ "xs @ ''  '' @ key_of f ?x" ys] unfolding t by simp
  moreover have "substr ?t (length (xs @ ''  '') + length (key_of f ?x)) (length (json_items cs)) = json_items cs"
    using substr_append [of "xs @ ''  '' @ key_of f ?x" "json_items cs"] unfolding t by simp
  ultimately show ?thesis by (simp add: extractStringArray_def Let_def k array_loop_all [OF assms(2)])
qed

section \<open>Round trip\<close>

text \<open>A manifest whose strings need no escaping, with an id and a timestamp.\<close>

definition writable_manifest :: "backup_manifest \<Rightarrow> bool" where
  "writable_manifest m \<longleftrightarrow>
     bm_backupId m \<noteq> [] \<and> bm_timestamp m \<noteq> [] \<and>
     list_all plain [bm_backupId m, bm_timestamp m, bm_version m, bm_path m] \<and>
     list_all (\<lambda>c. plain c \<and> CHR '']'' \<notin> set c) (bm_collections m)"

lemma toJson_lines:
  \<open>toJson m =
     (''{'' @ nl) @
     str_line ''backupId'' (bm_backupId m) [] @ str_line ''timestamp'' (bm_timestamp m) [] @
     str_line ''version'' (bm_version m) [] @ plain_line ''sequenceNumber'' (dec (unat (bm_sequenceNumber m))) [] @
     str_line ''path'' (bm_path m) [] @ plain_line ''isConsistent'' (bool_text (bm_isConsistent m)) [] @
     ''  '' @ [quote] @ ''collections'' @ [quote] @ '': ['' @ json_items (bm_collections m) @ '']'' @ nl @ ''}''\<close>
  by (simp add: toJson_def str_line_def plain_line_def)

lemma key_names [simp]:
  "key_name ''backupId''" "key_name ''timestamp''" "key_name ''version''" "key_name ''sequenceNumber''"
  "key_name ''path''" "key_name ''isConsistent''" "key_name ''collections''"
  "plain ''backupId''" "plain ''timestamp''" "plain ''version''" "plain ''sequenceNumber''"
  "plain ''path''" "plain ''isConsistent''"
  by (simp_all add: key_name_def plain_def)

lemma plain_values [simp]: "plain (dec n)" "plain (bool_text b)"
  using dec_digits [of quote n] by (auto simp: plain_def bool_text_def is_digit_def)


lemma skips_values:
  assumes "writable_manifest m"
  shows "key_name f \<Longrightarrow> f \<noteq> ''backupId'' \<Longrightarrow> skips f (str_line ''backupId'' (bm_backupId m) [])"
    and "key_name f \<Longrightarrow> f \<noteq> ''timestamp'' \<Longrightarrow> skips f (str_line ''timestamp'' (bm_timestamp m) [])"
    and "key_name f \<Longrightarrow> f \<noteq> ''version'' \<Longrightarrow> skips f (str_line ''version'' (bm_version m) [])"
    and "key_name f \<Longrightarrow> f \<noteq> ''sequenceNumber'' \<Longrightarrow>
           skips f (plain_line ''sequenceNumber'' (dec (unat (bm_sequenceNumber m))) [])"
    and "key_name f \<Longrightarrow> f \<noteq> ''path'' \<Longrightarrow> skips f (str_line ''path'' (bm_path m) [])"
    and "key_name f \<Longrightarrow> f \<noteq> ''isConsistent'' \<Longrightarrow>
           skips f (plain_line ''isConsistent'' (bool_text (bm_isConsistent m)) [])"
    and "skips f (''{'' @ nl)"
  using assms by (auto simp: writable_manifest_def intro: skips_lines)

text \<open>The head of the text before each field.\<close>

lemma field_read:
  assumes "writable_manifest m"
  shows "extractStringField (toJson m) ''backupId'' = bm_backupId m"
    and "extractStringField (toJson m) ''timestamp'' = bm_timestamp m"
    and "extractStringField (toJson m) ''version'' = bm_version m"
    and "extractUint64Field (toJson m) ''sequenceNumber'' = Some (bm_sequenceNumber m)"
    and "extractStringField (toJson m) ''path'' = bm_path m"
    and "extractBoolField (toJson m) ''isConsistent'' = bm_isConsistent m"
    and "extractStringArray (toJson m) ''collections'' = bm_collections m"
proof -
  let ?h = "''{'' @ nl" and ?b = "str_line ''backupId'' (bm_backupId m) []"
    and ?t = "str_line ''timestamp'' (bm_timestamp m) []" and ?v = "str_line ''version'' (bm_version m) []"
    and ?s = "plain_line ''sequenceNumber'' (dec (unat (bm_sequenceNumber m))) []"
    and ?p = "str_line ''path'' (bm_path m) []" and ?c = "plain_line ''isConsistent'' (bool_text (bm_isConsistent m)) []"
  note parts = skips_values [OF assms] skips_append
  note vals = assms [unfolded writable_manifest_def]
  have s: "skips ''timestamp'' (?h @ ?b)" "skips ''version'' (?h @ ?b @ ?t)"
    "skips ''sequenceNumber'' (?h @ ?b @ ?t @ ?v)" "skips ''path'' (?h @ ?b @ ?t @ ?v @ ?s)"
    "skips ''isConsistent'' (?h @ ?b @ ?t @ ?v @ ?s @ ?p)" "skips ''collections'' (?h @ ?b @ ?t @ ?v @ ?s @ ?p @ ?c)"
    by (intro parts; simp)+
  have v: "plain (bm_backupId m)" "plain (bm_timestamp m)" "plain (bm_version m)" "plain (bm_path m)"
    "list_all plain (bm_collections m)" "list_all (\<lambda>c. CHR '']'' \<notin> set c) (bm_collections m)"
    using vals by (auto simp: list_all_iff)
  show "extractStringField (toJson m) ''backupId'' = bm_backupId m"
    using read_string [OF skips_values(7) [OF assms] v(1)] unfolding toJson_lines by (metis append_assoc str_line_append)
  show "extractStringField (toJson m) ''timestamp'' = bm_timestamp m"
    using read_string [OF s(1) v(2)] unfolding toJson_lines by (metis append_assoc str_line_append)
  show "extractStringField (toJson m) ''version'' = bm_version m"
    using read_string [OF s(2) v(3)] unfolding toJson_lines by (metis append_assoc str_line_append)
  show "extractUint64Field (toJson m) ''sequenceNumber'' = Some (bm_sequenceNumber m)"
    using read_uint64 [OF s(3)] unfolding toJson_lines by (metis append_assoc plain_line_append)
  show "extractStringField (toJson m) ''path'' = bm_path m"
    using read_string [OF s(4) v(4)] unfolding toJson_lines by (metis append_assoc str_line_append)
  show "extractBoolField (toJson m) ''isConsistent'' = bm_isConsistent m"
    using read_bool [OF s(5)] unfolding toJson_lines by (metis append_assoc plain_line_append)
  show "extractStringArray (toJson m) ''collections'' = bm_collections m"
    using read_array [OF s(6) v(5,6)] unfolding toJson_lines by simp
qed


lemma hasField_line: "hasField (xs @ str_line f v [] @ ys) f"
proof -
  have "xs @ str_line f v [] @ ys = (xs @ ''  '') @ ([quote] @ f @ [quote]) @ ('': '' @ [quote] @ v @ [quote] @ '','' @ nl @ ys)"
    by (simp add: str_line_def)
  then have "sublist ([quote] @ f @ [quote]) (xs @ str_line f v [] @ ys)" by (simp only: sublist_appendI)
  then have "find_sub ([quote] @ f @ [quote]) (xs @ str_line f v [] @ ys) \<noteq> None" using find_sub_None by blast
  then show ?thesis unfolding hasField_def str_find_0 by simp
qed

lemma manifest_read_back:
  assumes "writable_manifest m"
  shows "fromJson (toJson m) out = Some (hr_success, m)"
proof -
  have "toJson m \<noteq> []" by (simp add: toJson_def)
  moreover have "hasField (toJson m) ''backupId''" unfolding toJson_lines by (rule hasField_line)
  moreover have "hasField (toJson m) ''timestamp''"
    unfolding toJson_lines using hasField_line [of "(''{'' @ nl) @ str_line ''backupId'' (bm_backupId m) []"]
    by (simp only: append_assoc)
  moreover have "bm_backupId m \<noteq> []" "bm_timestamp m \<noteq> []" using assms by (simp_all add: writable_manifest_def)
  ultimately show ?thesis by (simp add: fromJson_def Let_def field_read [OF assms])
qed

text \<open>C20. A manifest with an id, a timestamp and no quotes in its strings (nor a closing bracket in the
  name of a collection) is read back exactly from the text written for it, whatever the target held.
\<close>

theorem manifest_round_trip:
  assumes "writable_manifest m"
  shows "fromJson (toJson m) out = Some (hr_success, m)"
  using assms by (rule manifest_read_back)

definition sample_manifest :: backup_manifest where
  "sample_manifest = \<lparr>bm_backupId = ''2026'', bm_timestamp = ''T'', bm_version = ''3'', bm_sequenceNumber = 42,
     bm_collections = [''_system'', ''a, b''], bm_path = ''/b/2026'', bm_isConsistent = True\<rparr>"

theorem manifest_round_trip_witness:
  "fromJson (toJson sample_manifest) empty_manifest = Some (hr_success, sample_manifest)"
  by (rule manifest_round_trip) (simp add: sample_manifest_def writable_manifest_def plain_def)

text \<open>A collection name with a closing bracket cuts the list short; a manifest with a sequence number
  beyond 64 bits is not reported as corrupt but throws.\<close>

lemma bracket_cuts_collections:
  "extractStringArray (key_of ''collections'' '' ['' @ json_items [''a'', ''b]''] @ '']'') ''collections'' = [''a'']"
  by code_simp

lemma long_number_throws:
  assumes "2 ^ 64 \<le> n" and "plain a" and "plain t"
  shows "fromJson (str_line ''backupId'' a [] @ str_line ''timestamp'' t [] @ plain_line ''sequenceNumber'' (dec n) ys) out = None"
    (is "fromJson ?j out = None")
proof -
  let ?xs = "str_line ''backupId'' a [] @ str_line ''timestamp'' t []"
  have "skips ''sequenceNumber'' ?xs" using assms(2,3) by (intro skips_append skips_lines) simp_all
  then have "extractUint64Field ?j ''sequenceNumber'' = stoull (dec n)"
    using read_digits by (metis append_assoc)
  also have "\<dots> = None" using assms(1) by (simp add: stoull_def undec_dec)
  finally have "extractUint64Field ?j ''sequenceNumber'' = None" .
  moreover have "hasField ?j ''backupId''" using hasField_line [of "[]"] by simp
  moreover have "hasField ?j ''timestamp''" by (rule hasField_line)
  moreover have "?j \<noteq> []" by (simp add: str_line_def)
  ultimately show ?thesis by (simp add: fromJson_def)
qed


text \<open>The file is written in place.  When the process dies while it writes, a part of the manifest
  stays; from the end of the timestamp's line on such a part is accepted: a backup is listed, and passes
  for restorable, with sequence number 0, inconsistent and without collections.\<close>

lemma absent_key:
  assumes "skips f xs"
  shows "str_find xs (key_of f x) 0 = None"
proof -
  have "find_sub (key_of f x) [] = None" by (simp add: key_of_def)
  then show ?thesis using assms unfolding skips_def str_find_0 by (metis append_Nil2 option.simps(8))
qed

lemma cut_manifest_accepted:
  fixes part :: string
  assumes "writable_manifest m"
  defines "part \<equiv> (''{'' @ nl) @ str_line ''backupId'' (bm_backupId m) [] @ str_line ''timestamp'' (bm_timestamp m) []"
  shows "prefix part (toJson m) \<and>
    fromJson part out = Some (hr_success, empty_manifest\<lparr>bm_backupId := bm_backupId m, bm_timestamp := bm_timestamp m\<rparr>)"
proof
  show "prefix part (toJson m)" unfolding part_def toJson_lines by simp
  note parts = skips_values [OF assms(1)] skips_append
  have v: "plain (bm_backupId m)" "plain (bm_timestamp m)" "bm_backupId m \<noteq> []" "bm_timestamp m \<noteq> []"
    using assms(1) by (auto simp: writable_manifest_def)
  have absent: "skips ''version'' part" "skips ''sequenceNumber'' part" "skips ''path'' part" "skips ''isConsistent'' part"
    "skips ''collections'' part"
    unfolding part_def by (intro parts; simp)+
  have id: "extractStringField part ''backupId'' = bm_backupId m"
    using read_string [OF skips_values(7) [OF assms(1)] v(1)] unfolding part_def by (metis str_line_append)
  have "skips ''timestamp'' ((''{'' @ nl) @ str_line ''backupId'' (bm_backupId m) [])" by (intro parts; simp)
  from read_string [OF this v(2), of "[]"] have ts: "extractStringField part ''timestamp'' = bm_timestamp m"
    unfolding part_def by simp
  have "extractStringField part ''version'' = []" "extractStringField part ''path'' = []"
    "extractUint64Field part ''sequenceNumber'' = Some 0" "\<not> extractBoolField part ''isConsistent''"
    "extractStringArray part ''collections'' = []"
    using absent [THEN absent_key]
    by (simp_all add: extractStringField_def extractUint64Field_def extractBoolField_def extractStringArray_def key_of_def Let_def)
  moreover have "hasField part ''backupId''" unfolding part_def by (rule hasField_line)
  moreover have "hasField part ''timestamp''"
    using hasField_line [of "(''{'' @ nl) @ str_line ''backupId'' (bm_backupId m) []" "''timestamp''" _ "[]"]
    by (simp add: part_def)
  moreover have "part \<noteq> []" by (simp add: part_def)
  ultimately show "fromJson part out = Some (hr_success, empty_manifest\<lparr>bm_backupId := bm_backupId m, bm_timestamp := bm_timestamp m\<rparr>)"
    using v(3,4) by (simp add: fromJson_def id ts empty_manifest_def)
qed

end
