(* ===== verification/Backup_Files.thy ===== *)
theory Backup_Files
  imports Prelude "HOL-Library.Multiset"
begin

text \<open>
  The file system under the hot backups (\<^verbatim>\<open>std::filesystem\<close> as
  \<^verbatim>\<open>Enterprise/RocksDBEngine/RocksDBHotBackup.cpp\<close> uses it): absolute paths as lists of components, in
  the order a directory is iterated.  Paths are strings as in the code and are resolved component by
  component, so that empty names, \<open>.\<close> and \<open>..\<close> mean what they mean to the operating system (links
  apart).  The failures of the operating system are parameters.
\<close>

section \<open>Files\<close>

datatype fs_entry = File string | Dir

type_synonym fs_state = "(string list \<times> fs_entry) list"

fun split_path :: "string \<Rightarrow> string list" where
  "split_path [] = [[]]"
| "split_path (c # cs) =
     (if c = CHR ''/'' then [] # split_path cs
      else case split_path cs of [] \<Rightarrow> [[c]] | w # ws \<Rightarrow> (c # w) # ws)"

definition walk :: "string list \<Rightarrow> string \<Rightarrow> string list" where
  "walk cs w = (if w = [] \<or> w = ''.'' then cs else if w = ''..'' then butlast cs else cs @ [w])"

definition resolve :: "string \<Rightarrow> string list" where
  "resolve path = foldl walk [] (split_path path)"

text \<open>The root always exists.\<close>

definition fs_node :: "fs_state \<Rightarrow> string list \<Rightarrow> fs_entry option" where
  "fs_node st cs = (if cs = [] then Some Dir else map_of st cs)"

definition fs_exists :: "fs_state \<Rightarrow> string \<Rightarrow> bool" where
  "fs_exists st path = (fs_node st (resolve path) \<noteq> None)"

text \<open>The names in a directory, in iteration order.\<close>

definition fs_entries :: "fs_state \<Rightarrow> string list \<Rightarrow> string list" where
  "fs_entries st cs = map (last \<circ> fst) (filter (\<lambda>(p, _). p \<noteq> [] \<and> butlast p = cs) st)"

text \<open>\<open>fs::create_directories\<close>: the missing components one by one; a file in the way is an error.\<close>

fun create_dirs :: "string list \<Rightarrow> string list \<Rightarrow> fs_state \<Rightarrow> bool \<times> fs_state" where
  "create_dirs cs [] st = (True, st)"
| "create_dirs cs (w # ws) st =
     (case fs_node st (cs @ [w]) of
        None \<Rightarrow> create_dirs (cs @ [w]) ws (st @ [(cs @ [w], Dir)])
      | Some Dir \<Rightarrow> create_dirs (cs @ [w]) ws st
      | Some (File _) \<Rightarrow> (False, st))"

definition remove_all :: "string list \<Rightarrow> fs_state \<Rightarrow> fs_state" where
  "remove_all cs st = filter (\<lambda>(p, _). \<not> prefix cs p) st"

text \<open>A file can be opened for writing where its directory exists and it is not itself one.\<close>

definition writable_file :: "fs_state \<Rightarrow> string list \<Rightarrow> bool" where
  "writable_file st cs \<longleftrightarrow>
     cs \<noteq> [] \<and> fs_node st (butlast cs) = Some Dir \<and> fs_node st cs \<noteq> Some Dir"

text \<open>Failures of the operating system: creating the directory, opening, a write that left only some
  text, a removal that failed after some effect; and the message of the error code.\<close>

record os_env =
  os_mkdir_fails :: bool
  os_open_fails :: bool
  os_write_fails :: "string option"
  os_remove_fails :: "(fs_state \<Rightarrow> fs_state) option"
  os_message :: string

definition good_os :: os_env where
  "good_os = \<lparr>os_mkdir_fails = False, os_open_fails = False, os_write_fails = None, os_remove_fails = None, os_message = []\<rparr>"

section \<open>Paths\<close>

definition proper :: "string \<Rightarrow> bool" where
  "proper w \<longleftrightarrow> w \<noteq> [] \<and> w \<noteq> ''.'' \<and> w \<noteq> ''..'' \<and> CHR ''/'' \<notin> set w"

lemma split_path_nonempty [simp]: "split_path s \<noteq> []"
  by (induction s) (auto split: list.splits)

lemma split_path_slash: "split_path (a @ CHR ''/'' # b) = split_path a @ split_path b"
proof (induction a)
  case (Cons c a)
  then show ?case by (cases "split_path a") auto
qed simp

lemma split_path_plain: "CHR ''/'' \<notin> set w \<Longrightarrow> split_path w = [w]"
  by (induction w) auto

lemma resolve_slash: "proper w \<Longrightarrow> resolve (a @ CHR ''/'' # w) = resolve a @ [w]"
  by (simp add: resolve_def split_path_slash split_path_plain proper_def walk_def)

lemma resolve_append: "proper w \<Longrightarrow> resolve (path_append a w) = resolve a @ [w]"
proof (cases a rule: rev_cases)
  case Nil
  moreover assume "proper w"
  ultimately show ?thesis by (simp add: path_append_def resolve_def split_path_plain proper_def walk_def)
next
  case (snoc b c)
  moreover assume w: "proper w"
  moreover have "resolve (b @ [CHR ''/'']) = resolve b"
    using split_path_slash [of b "[]"] by (simp add: resolve_def walk_def)
  ultimately show ?thesis
    using resolve_slash [OF w, of b] resolve_slash [OF w, of a] by (auto simp: path_append_def)
qed

lemma proper_manifest [simp]: "proper ''MANIFEST.json''"
  by (simp add: proper_def)

lemma resolve_manifest: "resolve (d @ ''/MANIFEST.json'') = resolve d @ [''MANIFEST.json'']"
  using resolve_slash [of "''MANIFEST.json''" d] by simp

section \<open>What the file operations change\<close>

definition outside :: "string list \<Rightarrow> fs_state \<Rightarrow> fs_state" where
  "outside d st = filter (\<lambda>(p, _). \<not> prefix d p) st"

lemma map_of_outside: "\<not> prefix d p \<Longrightarrow> map_of (outside d st) p = map_of st p"
  unfolding outside_def by (induction st) auto

lemma outside_update: "prefix d p \<Longrightarrow> outside d (AList.update p e st) = outside d st"
  unfolding outside_def by (induction st) auto

lemma create_dirs_grow:
  "create_dirs cs ws st = (made, st') \<Longrightarrow>
   \<exists>new. st' = st @ new \<and> (\<forall>x \<in> set new. snd x = Dir \<and> prefix (fst x) (cs @ ws) \<and> fst x \<noteq> [] \<and> fst x \<notin> fst ` set st) \<and>
     (distinct (map fst st) \<longrightarrow> distinct (map fst st'))"
proof (induction cs ws st rule: create_dirs.induct)
  case (2 cs w ws st)
  show ?case
  proof (cases "fs_node st (cs @ [w])")
    case None
    have n: "cs @ [w] \<notin> fst ` set st" using None by (auto simp: fs_node_def map_of_eq_None_iff)
    obtain new where new: "st' = (st @ [(cs @ [w], Dir)]) @ new"
      "\<forall>x \<in> set new. snd x = Dir \<and> prefix (fst x) ((cs @ [w]) @ ws) \<and> fst x \<noteq> [] \<and> fst x \<notin> fst ` set (st @ [(cs @ [w], Dir)])"
      "distinct (map fst (st @ [(cs @ [w], Dir)])) \<longrightarrow> distinct (map fst st')"
      using "2.IH"(1) [OF None] "2.prems" None by auto
    then show ?thesis using n by (intro exI [of _ "(cs @ [w], Dir) # new"]) auto
  next
    case (Some e)
    then show ?thesis using "2.IH"(2) [OF Some] "2.prems" by (cases e) auto
  qed
qed auto

lemma create_dirs_made: "create_dirs cs ws st = (True, st') \<Longrightarrow> fs_node st cs = Some Dir \<Longrightarrow> fs_node st' (cs @ ws) = Some Dir"
proof (induction cs ws st rule: create_dirs.induct)
  case (2 cs w ws st)
  show ?case
  proof (cases "fs_node st (cs @ [w])")
    case None
    then have "fs_node (st @ [(cs @ [w], Dir)]) (cs @ [w]) = Some Dir" by (simp add: fs_node_def map_add_def)
    then show ?thesis using "2.IH"(1) [OF None] "2.prems" None by auto
  next
    case (Some e)
    then show ?thesis using "2.IH"(2) [OF Some] "2.prems" by (cases e) auto
  qed
qed auto

lemma in_fs_entries: "n \<in> set (fs_entries st cs) \<longleftrightarrow> cs @ [n] \<in> fst ` set st"
proof
  assume "n \<in> set (fs_entries st cs)"
  then obtain p e where "(p, e) \<in> set st" "p \<noteq> []" "butlast p = cs" "last p = n"
    by (auto simp: fs_entries_def)
  then show "cs @ [n] \<in> fst ` set st" by (metis append_butlast_last_id fst_conv image_eqI)
next
  assume "cs @ [n] \<in> fst ` set st"
  then obtain e where "(cs @ [n], e) \<in> set st" by auto
  then show "n \<in> set (fs_entries st cs)" unfolding fs_entries_def by force
qed

text \<open>A backup directory that did not exist before.\<close>

definition fresh_dir :: "string list \<Rightarrow> fs_state \<Rightarrow> bool" where
  "fresh_dir d st \<longleftrightarrow> d \<noteq> [] \<and> (\<forall>p \<in> fst ` set st. \<not> prefix d p)"

lemma made_below:
  assumes "fresh_dir d st" and "create_dirs [] d st = (made, st')" and "p \<in> fst ` set st'" and "prefix d p"
  shows "p = d"
proof -
  obtain new where "st' = st @ new" "\<forall>x \<in> set new. prefix (fst x) d"
    using create_dirs_grow [OF assms(2)] by auto
  with assms show ?thesis unfolding fresh_dir_def by (auto dest: prefix_order.antisym)
qed

lemma create_dirs_keep: "create_dirs cs ws st = (made, st') \<Longrightarrow> fs_node st p = Some e \<Longrightarrow> fs_node st' p = Some e"
  using create_dirs_grow [of cs ws st made st'] by (fastforce simp: fs_node_def map_add_Some_iff map_of_eq_None_iff split: if_splits)

lemma create_dirs_parents:
  "create_dirs cs ws st = (True, st') \<Longrightarrow> fs_node st cs = Some Dir \<Longrightarrow> prefix vs ws \<Longrightarrow> fs_node st' (cs @ vs) = Some Dir"
proof (induction cs ws st arbitrary: vs rule: create_dirs.induct)
  case (2 cs w ws st)
  show ?case
  proof (cases vs)
    case Nil
    then show ?thesis using create_dirs_keep [OF "2.prems"(1,2)] by simp
  next
    case (Cons v vs')
    then have v: "v = w" "prefix vs' ws" using "2.prems"(3) by auto
    show ?thesis
    proof (cases "fs_node st (cs @ [w])")
      case None
      then have "fs_node (st @ [(cs @ [w], Dir)]) (cs @ [w]) = Some Dir" by (simp add: fs_node_def map_add_def)
      then show ?thesis using "2.IH"(1) [OF None _ _ v(2)] "2.prems"(1) None v Cons by auto
    next
      case (Some e)
      then show ?thesis using "2.IH"(2) [OF Some _ _ _ v(2)] "2.prems"(1) v Cons by (cases e) auto
    qed
  qed
qed auto

text \<open>Names are proper and parents are directories.\<close>

definition wf_fs :: "fs_state \<Rightarrow> bool" where
  "wf_fs st \<longleftrightarrow> distinct (map fst st) \<and>
     (\<forall>p \<in> fst ` set st. p \<noteq> [] \<and> list_all proper p \<and> fs_node st (butlast p) = Some Dir)"

lemma prefix_snocD: "prefix p (B @ [i]) \<Longrightarrow> p \<noteq> B @ [i] \<Longrightarrow> prefix p B"
  by simp

lemma update_fresh: "p \<notin> fst ` set al \<Longrightarrow> AList.update p e al = al @ [(p, e)]"
  by (induction al) auto

lemma distinct_update_keys: "distinct (map fst al) \<Longrightarrow> distinct (map fst (AList.update p e al))"
  by (rule AList.distinct_update)

lemma distinct_key_filter:
  "distinct (map fst al) \<Longrightarrow> map_of al k = Some v \<Longrightarrow> filter (\<lambda>(p, _). p = k) al = [(k, v)]"
proof (induction al)
  case (Cons a al)
  show ?case
  proof (cases "fst a = k")
    case True
    then have "filter (\<lambda>(p, _). p = k) al = []" using Cons.prems(1) unfolding filter_empty_conv by (auto simp: image_iff)
    then show ?thesis using True Cons.prems(2) by (cases a) auto
  next
    case False
    then show ?thesis using Cons by (cases a) auto
  qed
qed simp

lemma child_prefix: "p \<noteq> [] \<Longrightarrow> butlast p = B \<Longrightarrow> prefix (B @ [i]) p \<Longrightarrow> p = B @ [i]"
  by (elim prefixE) (auto simp: butlast_append split: if_splits)

lemma entries_after:
  assumes "distinct (map fst st')" and "map_of st' d = Some e" and "d = B @ [i]"
    and "outside d st' = st @ new" and "\<forall>x \<in> set new. prefix (fst x) B"
  shows "mset (fs_entries st' B) = add_mset i (mset (fs_entries st B))"
proof -
  let ?Q = "\<lambda>(p, _ :: fs_entry). p \<noteq> [] \<and> butlast p = B" and ?P = "\<lambda>(p, _ :: fs_entry). \<not> prefix d p"
  have new: "filter ?Q new = []"
  proof -
    have False if x: "(p, f) \<in> set new" and p: "p \<noteq> []" "butlast p = B" for p f
    proof -
      have "length p \<le> length B" using assms(5) x prefix_length_le by force
      then show False using p by (cases p rule: rev_cases) auto
    qed
    then show ?thesis by (auto simp: filter_empty_conv)
  qed
  have "filter (\<lambda>x. \<not> ?P x) (filter ?Q st') = filter (\<lambda>(p, _). p = d) st'"
    unfolding filter_filter by (rule filter_cong) (auto simp: assms(3) dest: child_prefix)
  then have in_d: "filter (\<lambda>x. \<not> ?P x) (filter ?Q st') = [(d, e)]"
    using distinct_key_filter [OF assms(1,2)] by simp
  have "filter ?P (filter ?Q st') = filter ?Q (outside d st')"
    unfolding outside_def filter_filter by (rule filter_cong) auto
  then have out_d: "filter ?P (filter ?Q st') = filter ?Q st" using assms(4) new by simp
  have "mset (filter ?Q st') = mset (filter ?P (filter ?Q st')) + mset (filter (\<lambda>x. \<not> ?P x) (filter ?Q st'))"
    unfolding mset_filter by (rule multiset_partition)
  also have "\<dots> = add_mset (d, e) (mset (filter ?Q st))" unfolding in_d out_d by simp
  finally show ?thesis unfolding fs_entries_def by (simp add: assms(3))
qed

text \<open>Nothing is read of an old name that a backup changes.\<close>

lemma no_base_no_entries:
  assumes "wf_fs st" and "fs_node st B = None"
  shows "fs_entries st B = []"
proof -
  have "n \<notin> set (fs_entries st B)" for n
  proof
    assume "n \<in> set (fs_entries st B)"
    then have "fs_node st (butlast (B @ [n])) = Some Dir"
      using assms(1) unfolding in_fs_entries wf_fs_def by blast
    then show False using assms(2) by simp
  qed
  then show ?thesis by (metis list.set_intros(1) neq_Nil_conv)
qed


section \<open>Well-formed states stay well formed\<close>

lemma split_path_no_slash: "w \<in> set (split_path s) \<Longrightarrow> CHR ''/'' \<notin> set w"
  by (induction s arbitrary: w) (auto split: list.splits if_splits)

lemma resolve_proper: "list_all proper (resolve path)"
proof -
  have "list_all proper (foldl walk cs ws)" if "list_all proper cs" "\<forall>w \<in> set ws. CHR ''/'' \<notin> set w" for cs ws
    using that
  proof (induction ws arbitrary: cs)
    case (Cons w ws)
    have "list_all proper (walk cs w)"
      using Cons.prems by (auto simp: walk_def proper_def list_all_iff dest: in_set_butlastD)
    then show ?case using Cons by simp
  qed simp
  from this [of "[]"] show ?thesis unfolding resolve_def by (simp add: split_path_no_slash)
qed

lemma wf_fsD: "wf_fs st \<Longrightarrow> p \<in> fst ` set st \<Longrightarrow> p \<noteq> [] \<and> list_all proper p \<and> fs_node st (butlast p) = Some Dir"
  unfolding wf_fs_def by blast

lemma wf_add_dir:
  assumes "wf_fs st" and "fs_node st cs = Some Dir" and "list_all proper (cs @ [w])" and "fs_node st (cs @ [w]) = None"
  shows "wf_fs (st @ [(cs @ [w], Dir)])"
proof -
  have keep: "fs_node (st @ [(cs @ [w], Dir)]) p = Some Dir" if "fs_node st p = Some Dir" for p
    using that by (auto simp: fs_node_def map_add_def split: if_splits option.splits)
  have "cs @ [w] \<notin> fst ` set st" using assms(4) by (simp add: fs_node_def map_of_eq_None_iff)
  then show ?thesis
    using assms(1-3) keep by (auto simp: wf_fs_def)
qed

lemma create_dirs_wf:
  "create_dirs cs ws st = (made, st') \<Longrightarrow> wf_fs st \<Longrightarrow> fs_node st cs = Some Dir \<Longrightarrow> list_all proper (cs @ ws) \<Longrightarrow> wf_fs st'"
proof (induction cs ws st rule: create_dirs.induct)
  case (2 cs w ws st)
  show ?case
  proof (cases "fs_node st (cs @ [w])")
    case None
    have "wf_fs (st @ [(cs @ [w], Dir)])" by (rule wf_add_dir [OF "2.prems"(2,3) _ None]) (use "2.prems"(4) in simp)
    moreover have "fs_node (st @ [(cs @ [w], Dir)]) (cs @ [w]) = Some Dir"
      using None by (simp add: fs_node_def map_add_def)
    ultimately show ?thesis using "2.IH"(1) [OF None] "2.prems"(1,4) None by simp
  next
    case (Some e)
    then show ?thesis using "2.IH"(2) [OF Some] "2.prems" by (cases e) auto
  qed
qed auto

lemma wf_outside:
  assumes "wf_fs st" shows "wf_fs (outside d st)"
proof -
  have "fs_node (outside d st) (butlast p) = Some Dir" if "p \<in> fst ` set st" "\<not> prefix d p" for p
  proof -
    have "\<not> prefix d (butlast p)" using that(2) prefix_order.trans prefixeq_butlast by blast
    then have "fs_node (outside d st) (butlast p) = fs_node st (butlast p)" by (simp add: fs_node_def map_of_outside)
    then show ?thesis using wf_fsD [OF assms that(1)] by simp
  qed
  moreover have "distinct (map fst (outside d st))"
    using assms by (auto simp: outside_def wf_fs_def distinct_map intro: inj_on_subset distinct_filter)
  ultimately show ?thesis using assms by (force simp: wf_fs_def outside_def)
qed

lemma wf_write_file:
  assumes "wf_fs st" and "cs \<noteq> []" and "list_all proper cs" and "fs_node st (butlast cs) = Some Dir" and "fs_node st cs \<noteq> Some Dir"
  shows "wf_fs (AList.update cs (File x) st)"
proof -
  have same: "fs_node (AList.update cs (File x) st) p = Some Dir" if "fs_node st p = Some Dir" for p
    using that assms(2,5) by (auto simp: fs_node_def)
  have "p \<noteq> [] \<and> list_all proper p \<and> fs_node (AList.update cs (File x) st) (butlast p) = Some Dir"
    if "p \<in> fst ` set (AList.update cs (File x) st)" for p
  proof -
    from that have "p = cs \<or> p \<in> fst ` set st" by (auto simp: AList.dom_update)
    then show ?thesis using wf_fsD [OF assms(1), of p] assms(2-4) same by blast
  qed
  moreover have "distinct (map fst (AList.update cs (File x) st))"
    using assms(1) by (intro distinct_update_keys) (simp add: wf_fs_def)
  ultimately show ?thesis by (simp only: wf_fs_def) blast
qed

section \<open>What is below a directory\<close>

definition below :: "string list \<Rightarrow> fs_state \<Rightarrow> fs_state" where
  "below q st = filter (\<lambda>(p, _). prefix q p) st"

lemma map_of_below: "prefix q p \<Longrightarrow> map_of (below q st) p = map_of st p"
  unfolding below_def by (induction st) auto

lemma fs_node_below: "q \<noteq> [] \<Longrightarrow> prefix q p \<Longrightarrow> fs_node (below q st) p = fs_node st p"
  by (auto simp: fs_node_def map_of_below)

lemma fs_entries_below: "prefix q cs \<Longrightarrow> fs_entries (below q st) cs = fs_entries st cs"
proof -
  assume q: "prefix q cs"
  have "prefix q p" if "butlast p = cs" for p using q that prefixeq_butlast prefix_order.trans by metis
  then have "filter (\<lambda>(p, _). p \<noteq> [] \<and> butlast p = cs) (below q st) = filter (\<lambda>(p, _). p \<noteq> [] \<and> butlast p = cs) st"
    unfolding below_def filter_filter by (intro filter_cong) auto
  then show ?thesis by (simp add: fs_entries_def)
qed

lemma below_other:
  assumes "outside (B @ [i]) st' = st @ new" and "\<forall>x \<in> set new. prefix (fst x) B" and "n \<noteq> i"
  shows "below (B @ [n]) st' = below (B @ [n]) st"
proof -
  have "\<not> prefix (B @ [i]) p" if "prefix (B @ [n]) p" for p
    using that assms(3) by (auto elim!: prefixE)
  then have "below (B @ [n]) st' = below (B @ [n]) (outside (B @ [i]) st')"
    unfolding below_def outside_def filter_filter by (intro filter_cong) auto
  moreover have "\<not> prefix (B @ [n]) (fst x)" if "x \<in> set new" for x
    using prefix_length_le [of "fst x" B] prefix_length_le [of "B @ [n]" "fst x"] assms(2) that by force
  then have "below (B @ [n]) new = []" by (auto simp: below_def filter_empty_conv)
  ultimately show ?thesis by (simp add: assms(1) below_def)
qed

text \<open>A directory with nothing in it.\<close>

definition empty_dir :: "string list \<Rightarrow> fs_state \<Rightarrow> bool" where
  "empty_dir d st \<longleftrightarrow> fs_node st d = Some Dir \<and> (\<forall>p \<in> fst ` set st. prefix d p \<longrightarrow> p = d)"

end
