(* ===== verification/Hot_Backup.thy ===== *)
theory Hot_Backup
  imports Backup_Manifest Backup_Files
begin

text \<open>
  Hot backups (\<^verbatim>\<open>Enterprise/RocksDBEngine/RocksDBHotBackup.cpp\<close>), the feature that owns the engine
  (\<^verbatim>\<open>Enterprise/StorageEngine/HotBackupFeature.h\<close>) and the REST operations
  (\<^verbatim>\<open>Enterprise/RestHandler/RestHotBackupHandler.cpp\<close>) over the file system of
  \<open>Backup_Files\<close>.  The database is a parameter.
\<close>

section \<open>Manifest files\<close>

definition saveToFile :: "os_env \<Rightarrow> string \<Rightarrow> backup_manifest \<Rightarrow> fs_state \<Rightarrow> hotbackup_result \<times> fs_state" where
  "saveToFile os manifestPath manifest st =
     (let cs = resolve manifestPath
      in if os_open_fails os \<or> \<not> writable_file st cs
         then (hr_error 500 (''Failed to open manifest file for writing: '' @ manifestPath), st)
         else case os_write_fails os of
                Some part \<Rightarrow> (hr_error 500 (''Failed to write manifest file: '' @ manifestPath),
                               AList.update cs (File part) st)
              | None \<Rightarrow> (hr_success, AList.update cs (File (toJson manifest)) st))"

definition loadFromFile :: "fs_state \<Rightarrow> string \<Rightarrow> backup_manifest \<Rightarrow> (hotbackup_result \<times> backup_manifest) option" where
  "loadFromFile st manifestPath out =
     (case fs_node st (resolve manifestPath) of
        None \<Rightarrow> Some (hr_notFound (''Manifest file not found: '' @ manifestPath), out)
      | Some Dir \<Rightarrow> Some (hr_badRequest (''Manifest file is empty: '' @ manifestPath), out)
      | Some (File json) \<Rightarrow>
          if json = [] then Some (hr_badRequest (''Manifest file is empty: '' @ manifestPath), out)
          else fromJson json out)"

section \<open>The engine\<close>

text \<open>The database of a backup; a checkpoint writes files.\<close>

record 'db backup_db =
  db_flushWAL :: "'db \<Rightarrow> bool \<times> 'db"
  db_createCheckpoint :: "string \<Rightarrow> 'db \<Rightarrow> fs_state \<Rightarrow> bool \<times> 'db \<times> fs_state"
  db_getLatestSequenceNumber :: "'db \<Rightarrow> u64"
  db_getCollectionNames :: "'db \<Rightarrow> string list"

record 'db hot_backup =
  hb_basePath :: string
  hb_db :: "'db backup_db option"

definition generateBackupId :: "utc_time \<Rightarrow> string" where
  "generateBackupId now =
     pad0 4 (tm_year now) @ ''-'' @ pad0 2 (tm_mon now) @ ''-'' @ pad0 2 (tm_mday now) @ ''T'' @
     pad0 2 (tm_hour now) @ ''.'' @ pad0 2 (tm_min now) @ ''.'' @ pad0 2 (tm_sec now) @ ''.'' @ pad0 6 (tm_usec now)"

definition manifest_time :: "utc_time \<Rightarrow> string" where
  "manifest_time now =
     pad0 4 (tm_year now) @ ''-'' @ pad0 2 (tm_mon now) @ ''-'' @ pad0 2 (tm_mday now) @ ''T'' @
     pad0 2 (tm_hour now) @ '':'' @ pad0 2 (tm_min now) @ '':'' @ pad0 2 (tm_sec now) @ ''Z''"

definition backupPath :: "'db hot_backup \<Rightarrow> string \<Rightarrow> string" where
  "backupPath hb backupId = hb_basePath hb @ ''/'' @ backupId"

definition removeDirectory :: "os_env \<Rightarrow> string \<Rightarrow> fs_state \<Rightarrow> hotbackup_result \<times> fs_state" where
  "removeDirectory os path st =
     (case os_remove_fails os of
        Some part \<Rightarrow> (hr_error 500 (''Failed to remove directory: '' @ path @ '' ('' @ os_message os @ '')''), part st)
      | None \<Rightarrow> (hr_success, remove_all (resolve path) st))"

text \<open>What the database contributes: consistency, sequence number and names, or a failed checkpoint.\<close>

definition take_checkpoint ::
  "'db backup_db \<Rightarrow> string \<Rightarrow> 'db \<Rightarrow> fs_state \<Rightarrow> (bool \<times> u64 \<times> string list) option \<times> 'db \<times> fs_state" where
  "take_checkpoint D backupDir db st =
     (case db_flushWAL D db of (isConsistent, db) \<Rightarrow>
        case db_createCheckpoint D backupDir db st of (checkpointOk, db, st) \<Rightarrow>
          if \<not> checkpointOk then (None, db, st)
          else (Some (isConsistent, db_getLatestSequenceNumber D db, db_getCollectionNames D db), db, st))"

text \<open>\<open>now\<close> and \<open>now'\<close> are the two readings of the clock.  The label is not used.  The manifest of
  the result is delivered on success only.\<close>

definition create ::
  "os_env \<Rightarrow> 'db hot_backup \<Rightarrow> utc_time \<Rightarrow> utc_time \<Rightarrow> string \<Rightarrow> 'db \<times> fs_state \<Rightarrow>
   hotbackup_result \<times> backup_manifest option \<times> 'db \<times> fs_state" where
  "create os hb now now' label s =
     (case s of (db, st) \<Rightarrow>
      let id = generateBackupId now;
          backupDir = backupPath hb id
      in case create_dirs [] (resolve backupDir) st of (made, st) \<Rightarrow>
           if os_mkdir_fails os \<or> \<not> made
           then (hr_error 500 (''Failed to create backup directory: '' @ os_message os), None, db, st)
           else
             (case (case hb_db hb of
                      None \<Rightarrow> (Some (False, 0, []), db, st)
                    | Some D \<Rightarrow> take_checkpoint D backupDir db st) of
                (None, db, st) \<Rightarrow>
                  (hr_error 500 ''Failed to create RocksDB checkpoint'', None, db, snd (removeDirectory os backupDir st))
              | (Some (isConsistent, seqNum, collectionNames), db, st) \<Rightarrow>
                  let manifest = \<lparr>bm_backupId = id, bm_timestamp = manifest_time now', bm_version = ''3.12.0'',
                        bm_sequenceNumber = seqNum, bm_collections = collectionNames, bm_path = backupDir,
                        bm_isConsistent = isConsistent\<rparr>
                  in case saveToFile os (backupDir @ ''/MANIFEST.json'') manifest st of (res, st) \<Rightarrow>
                       if \<not> hr_ok res then (res, None, db, snd (removeDirectory os backupDir st))
                       else (hr_success, Some manifest, db, st)))"

fun list_loop :: "fs_state \<Rightarrow> string \<Rightarrow> string list \<Rightarrow> backup_manifest list \<Rightarrow> backup_manifest list option" where
  "list_loop st base [] out = Some out"
| "list_loop st base (name # names) out =
     (let entry = path_append base name
      in if fs_node st (resolve entry) \<noteq> Some Dir then list_loop st base names out
         else case loadFromFile st (entry @ ''/MANIFEST.json'') empty_manifest of
                None \<Rightarrow> None
              | Some (res, manifest) \<Rightarrow> list_loop st base names (if hr_ok res then out @ [manifest] else out))"

text \<open>The order of equal timestamps is that of the iteration; \<open>std::sort\<close> leaves it open.  \<open>None\<close>
  is an exception.\<close>

definition list_backups :: "'db hot_backup \<Rightarrow> fs_state \<Rightarrow> (hotbackup_result \<times> backup_manifest list) option" where
  "list_backups hb st =
     (if \<not> fs_exists st (hb_basePath hb) then Some (hr_success, [])
      else map_option (\<lambda>out. (hr_success, sort_key bm_timestamp out))
             (list_loop st (hb_basePath hb) (fs_entries st (resolve (hb_basePath hb))) []))"

definition deleteBackup :: "os_env \<Rightarrow> 'db hot_backup \<Rightarrow> string \<Rightarrow> fs_state \<Rightarrow> hotbackup_result \<times> fs_state" where
  "deleteBackup os hb backupId st =
     (let dir = backupPath hb backupId
      in if \<not> fs_exists st dir then (hr_notFound (''Backup not found: '' @ backupId), st)
         else removeDirectory os dir st)"

definition is_file :: "fs_entry option \<Rightarrow> bool" where
  "is_file e = (case e of Some (File _) \<Rightarrow> True | _ \<Rightarrow> False)"

definition validateBackupDirectory :: "fs_state \<Rightarrow> string \<Rightarrow> hotbackup_result" where
  "validateBackupDirectory st backupDir =
     (if \<not> fs_exists st (backupDir @ ''/MANIFEST.json'')
      then hr_error 400 (''Backup directory missing MANIFEST.json: '' @ backupDir)
      else
        let fileCount = length (filter (\<lambda>name. is_file (fs_node st (resolve (path_append backupDir name))) \<and> name \<noteq> ''MANIFEST.json'')
                                  (fs_entries st (resolve backupDir)))
        in if fileCount = 0
           then hr_error 400 (''Backup directory contains no data files (expected SST files): '' @ backupDir)
           else hr_success)"

definition restore :: "'db hot_backup \<Rightarrow> string \<Rightarrow> fs_state \<Rightarrow> hotbackup_result option" where
  "restore hb backupId st =
     (let dir = backupPath hb backupId
      in if \<not> fs_exists st dir then Some (hr_notFound (''Backup not found: '' @ backupId))
         else let valRes = validateBackupDirectory st dir
              in if \<not> hr_ok valRes then Some valRes
                 else case loadFromFile st (dir @ ''/MANIFEST.json'') empty_manifest of
                        None \<Rightarrow> None
                      | Some (loadRes, manifest) \<Rightarrow> if \<not> hr_ok loadRes then Some loadRes else Some hr_success)"

section \<open>The feature\<close>

record 'db hotbackup_feature =
  hf_hotBackup :: "'db hot_backup option"
  hf_backupPath :: string
  hf_enabled :: bool
  hf_maxBackups :: u64

definition HotBackupFeature :: "'db hotbackup_feature" where
  "HotBackupFeature = \<lparr>hf_hotBackup = None, hf_backupPath = [], hf_enabled = True, hf_maxBackups = 0\<rparr>"

definition hf_collectOptions :: "string list" where
  "hf_collectOptions = [''--rocksdb.backup-path'', ''--hot-backup.enabled'', ''--hot-backup.max-backups'']"

definition hf_validateOptions :: "'db hotbackup_feature \<Rightarrow> 'db hotbackup_feature" where
  "hf_validateOptions f =
     (if hf_enabled f \<and> hf_backupPath f = [] then f\<lparr>hf_backupPath := ''/tmp/arangodb-backups''\<rparr> else f)"

text \<open>The engine is made without a database.\<close>

definition hf_prepare :: "'db hotbackup_feature \<Rightarrow> 'db hotbackup_feature" where
  "hf_prepare f = (if \<not> hf_enabled f then f else f\<lparr>hf_hotBackup := Some \<lparr>hb_basePath = hf_backupPath f, hb_db = None\<rparr>\<rparr>)"

definition hf_stop :: "'db hotbackup_feature \<Rightarrow> 'db hotbackup_feature" where
  "hf_stop f = f\<lparr>hf_hotBackup := None\<rparr>"

definition hf_unprepare :: "'db hotbackup_feature \<Rightarrow> 'db hotbackup_feature" where
  "hf_unprepare f = f\<lparr>hf_hotBackup := None\<rparr>"

text \<open>\<open>None\<close> is the \<open>std::runtime_error\<close> of a feature that is disabled or not prepared.\<close>

definition hotBackup :: "'db hotbackup_feature \<Rightarrow> 'db hot_backup option" where
  "hotBackup f = hf_hotBackup f"

section \<open>REST operations\<close>

datatype backup_operation = CREATE | LIST | DELETE | RESTORE | UNKNOWN

definition parseOperation :: "string \<Rightarrow> backup_operation" where
  "parseOperation suf =
     (if suf = ''create'' then CREATE else if suf = ''list'' then LIST
      else if suf = ''delete'' then DELETE else if suf = ''restore'' then RESTORE else UNKNOWN)"

definition formatSuccess :: "string \<Rightarrow> string" where
  \<open>formatSuccess resultJson =
     ''{'' @ nl @ ''  "error": false,'' @ nl @ ''  "code": 200,'' @ nl @ ''  "result": '' @ resultJson @ nl @ ''}''\<close>

definition formatError :: "int \<Rightarrow> string \<Rightarrow> string" where
  \<open>formatError code message =
     ''{'' @ nl @ ''  "error": true,'' @ nl @ ''  "code": '' @ (if code < 0 then ''-'' else []) @ dec (nat (abs code)) @ '','' @ nl @
     ''  "errorMessage": "'' @ message @ ''"'' @ nl @ ''}''\<close>

definition executeCreate ::
  "os_env \<Rightarrow> 'db hot_backup \<Rightarrow> utc_time \<Rightarrow> utc_time \<Rightarrow> string \<Rightarrow> 'db \<times> fs_state \<Rightarrow>
   hotbackup_result \<times> string \<times> 'db \<times> fs_state" where
  \<open>executeCreate os hb now now' label s =
     (case create os hb now now' label s of
        (res, Some m, s) \<Rightarrow>
          (hr_success,
           formatSuccess
             (''{'' @ nl @
              ''  "id": "'' @ bm_backupId m @ ''",'' @ nl @
              ''  "datetime": "'' @ bm_timestamp m @ ''",'' @ nl @
              ''  "version": "'' @ bm_version m @ ''",'' @ nl @
              ''  "durationSeconds": '' @ dec (unat (bm_sequenceNumber m)) @ '','' @ nl @
              ''  "collections": ['' @ json_items (bm_collections m) @ ''],'' @ nl @
              ''  "isConsistent": '' @ bool_text (bm_isConsistent m) @ nl @ ''}''), s)
      | (res, None, s) \<Rightarrow> (res, formatError (hr_errorNumber res) (hr_errorMessage res), s))\<close>

definition list_item :: "backup_manifest \<Rightarrow> string" where
  \<open>list_item m =
     ''{'' @ nl @
     ''  "id": "'' @ bm_backupId m @ ''",'' @ nl @
     ''  "datetime": "'' @ bm_timestamp m @ ''",'' @ nl @
     ''  "version": "'' @ bm_version m @ ''",'' @ nl @
     ''  "collections": ['' @ json_items (bm_collections m) @ ''],'' @ nl @
     ''  "isConsistent": '' @ bool_text (bm_isConsistent m) @ nl @ ''}''\<close>

definition executeList :: "'db hot_backup \<Rightarrow> fs_state \<Rightarrow> (hotbackup_result \<times> string) option" where
  "executeList hb st =
     (case list_backups hb st of
        None \<Rightarrow> None
      | Some (res, ms) \<Rightarrow>
          if \<not> hr_ok res then Some (res, formatError (hr_errorNumber res) (hr_errorMessage res))
          else Some (hr_success, formatSuccess
                 (''['' @ concat (map (\<lambda>i. (if i > 0 then '', '' else []) @ list_item (ms ! i)) [0 ..< length ms]) @ '']'')))"

definition executeDelete :: "os_env \<Rightarrow> 'db hot_backup \<Rightarrow> string \<Rightarrow> fs_state \<Rightarrow> hotbackup_result \<times> string \<times> fs_state" where
  \<open>executeDelete os hb backupId st =
     (case deleteBackup os hb backupId st of (res, st) \<Rightarrow>
        if \<not> hr_ok res then (res, formatError (hr_errorNumber res) (hr_errorMessage res), st)
        else (hr_success, formatSuccess (''{"deleted": true, "id": "'' @ backupId @ ''"}''), st))\<close>

definition executeRestore :: "'db hot_backup \<Rightarrow> string \<Rightarrow> fs_state \<Rightarrow> (hotbackup_result \<times> string) option" where
  \<open>executeRestore hb backupId st =
     (case restore hb backupId st of
        None \<Rightarrow> None
      | Some res \<Rightarrow>
          if \<not> hr_ok res then Some (res, formatError (hr_errorNumber res) (hr_errorMessage res))
          else Some (hr_success, formatSuccess (''{"restored": true, "id": "'' @ backupId @ ''"}'')))\<close>

lemma resolve_backup: "proper i \<Longrightarrow> resolve (backupPath hb i) = resolve (hb_basePath hb) @ [i]"
  using resolve_slash [of i "hb_basePath hb"] by (simp add: backupPath_def)

lemma backupId_chars: "c \<in> set (generateBackupId now) \<Longrightarrow> is_digit c \<or> c = CHR ''-'' \<or> c = CHR ''T'' \<or> c = CHR ''.''"
proof -
  have "c \<in> set (pad0 k n) \<Longrightarrow> is_digit c" for k n
    using dec_digits [of c n] by (auto simp: pad0_def is_digit_def split: if_splits)
  moreover assume "c \<in> set (generateBackupId now)"
  ultimately show ?thesis unfolding generateBackupId_def by fastforce
qed

lemma backupId_proper: "proper (generateBackupId now)" and backupId_plain: "plain (generateBackupId now)"
proof -
  have "CHR ''T'' \<in> set (generateBackupId now)" by (simp add: generateBackupId_def)
  moreover have "CHR ''/'' \<notin> set (generateBackupId now)" "quote \<notin> set (generateBackupId now)"
    by (auto dest!: backupId_chars simp: is_digit_def)
  ultimately show "proper (generateBackupId now)" "plain (generateBackupId now)"
    by (auto simp: proper_def plain_def)
qed

lemma saved:
  assumes "saveToFile os path m st = (res, st')" and "hr_ok res"
  shows "st' = AList.update (resolve path) (File (toJson m)) st" and "os_write_fails os = None"
  using assms by (auto simp: saveToFile_def Let_def hr_error_def split: if_splits option.splits)

lemma toJson_nonempty [simp]: "toJson m \<noteq> []"
  by (simp add: toJson_def)

text \<open>C37. A backup made by the feature cannot be restored: the feature makes its engine without a
  database, so a backup in a new directory, though reported as made, holds the manifest alone, and
  restoring it answers that there are no data files.
\<close>

theorem feature_backup_unrestorable:
  assumes "hotBackup (hf_prepare (hf_validateOptions f)) = Some hb" and "hf_hotBackup f = None"
    and "fresh_dir (resolve (backupPath hb (generateBackupId now))) st"
    and "create os hb now now' label (db, st) = (res, Some m, db', st')"
  shows "hr_ok res \<and> \<not> bm_isConsistent m \<and>
         restore hb (bm_backupId m) st' = Some (hr_error 400
           (''Backup directory contains no data files (expected SST files): '' @ backupPath hb (bm_backupId m)))"
proof -
  let ?d = "resolve (backupPath hb (generateBackupId now))"
  have db: "hb_db hb = None"
    using assms(1,2) by (auto simp: hotBackup_def hf_prepare_def hf_validateOptions_def split: if_splits)
  obtain made st1 where made: "create_dirs [] ?d st = (made, st1)" by fastforce
  obtain sres st2 where sv: "saveToFile os (backupPath hb (generateBackupId now) @ ''/MANIFEST.json'') m st1 = (sres, st2)"
    by fastforce
  have c: "made" "hr_ok sres" "res = hr_success" "st' = st2" "bm_backupId m = generateBackupId now" "\<not> bm_isConsistent m"
    using assms(4) made sv
    by (auto simp: create_def Let_def db split: if_splits prod.splits)
  have st': "st' = AList.update (?d @ [''MANIFEST.json'']) (File (toJson m)) st1"
    using saved(1) [OF sv c(2)] c(4) by (simp add: resolve_manifest)
  have "fs_node st1 ?d = Some Dir"
    using create_dirs_made [of "[]" ?d st st1] made c(1) by (simp add: fs_node_def)
  then have dir: "fs_node st' ?d = Some Dir" by (auto simp: st' fs_node_def)
  have man: "fs_node st' (?d @ [''MANIFEST.json'']) = Some (File (toJson m))" by (simp add: st' fs_node_def)
  have "n = ''MANIFEST.json''" if "n \<in> set (fs_entries st' ?d)" for n
    using that made_below [OF assms(3) made, of "?d @ [n]"] unfolding in_fs_entries st'
    by (auto simp: AList.dom_update dest: set_update_distinct)
  then have none: "filter (\<lambda>n. is_file (fs_node st' (resolve (path_append (backupPath hb (generateBackupId now)) n))) \<and> n \<noteq> ''MANIFEST.json'')
      (fs_entries st' ?d) = []"
    by (auto simp: filter_empty_conv)
  have "restore hb (bm_backupId m) st' = Some (hr_error 400
           (''Backup directory contains no data files (expected SST files): '' @ backupPath hb (bm_backupId m)))"
    unfolding c(5) using dir man none
    by (simp add: restore_def validateBackupDirectory_def fs_exists_def resolve_manifest Let_def hr_error_def)
  with c show ?thesis by (simp add: hr_success_def)
qed

section \<open>Backups of a database\<close>

text \<open>What is relied on from the database: a checkpoint into an empty directory keeps the file system
  well formed and touches nothing outside the directory, and when it succeeds leaves at least one
  data file there.\<close>

definition checkpoint_contract :: "'db backup_db \<Rightarrow> bool" where
  "checkpoint_contract D \<longleftrightarrow>
     (\<forall>path db st ok db' st'. db_createCheckpoint D path db st = (ok, db', st') \<longrightarrow>
        wf_fs st \<longrightarrow> empty_dir (resolve path) st \<longrightarrow>
        outside (resolve path) st' = outside (resolve path) st \<and> wf_fs st' \<and>
        (ok \<longrightarrow> fs_node st' (resolve path) = Some Dir \<and>
           fs_node st' (resolve path @ [''MANIFEST.json'']) \<noteq> Some Dir \<and>
           (\<exists>n. proper n \<and> n \<noteq> ''MANIFEST.json'' \<and> is_file (fs_node st' (resolve path @ [n])))))"

lemma made_empty:
  assumes "wf_fs st" and "fresh_dir d st" and "list_all proper d" and "create_dirs [] d st = (True, st1)"
  shows "wf_fs st1" and "empty_dir d st1"
  using create_dirs_wf [OF assms(4,1)] create_dirs_made [OF assms(4)] made_below [OF assms(2,4)] assms(3)
  by (auto simp: fs_node_def empty_dir_def)

lemma create_steps:
  assumes "hb_db hb = Some D" and "create os hb now now' label (db, st) = (res, Some m, db', st')"
  obtains db0 st1 st2 where
    "create_dirs [] (resolve (backupPath hb (generateBackupId now))) st = (True, st1)"
    "db_createCheckpoint D (backupPath hb (generateBackupId now)) db0 st1 = (True, db', st2)"
    "st' = AList.update (resolve (backupPath hb (generateBackupId now)) @ [''MANIFEST.json'']) (File (toJson m)) st2"
    "res = hr_success" "bm_backupId m = generateBackupId now" "bm_path m = backupPath hb (generateBackupId now)"
    "bm_version m = ''3.12.0''" "bm_timestamp m = manifest_time now'" "bm_collections m = db_getCollectionNames D db'"
proof -
  let ?d = "backupPath hb (generateBackupId now)"
  obtain made st1 where 1: "create_dirs [] (resolve ?d) st = (made, st1)" by fastforce
  obtain cons db0 where 2: "db_flushWAL D db = (cons, db0)" by fastforce
  obtain ok db2 st2 where 3: "db_createCheckpoint D ?d db0 st1 = (ok, db2, st2)" by (metis prod_cases3)
  have ok: "made" "ok"
    using assms 1 2 3 by (auto simp: create_def Let_def take_checkpoint_def split: if_splits prod.splits)
  define m0 where "m0 = \<lparr>bm_backupId = generateBackupId now, bm_timestamp = manifest_time now', bm_version = ''3.12.0'',
      bm_sequenceNumber = db_getLatestSequenceNumber D db2, bm_collections = db_getCollectionNames D db2, bm_path = ?d,
      bm_isConsistent = cons\<rparr>"
  obtain sres st3 where 4: "saveToFile os (?d @ ''/MANIFEST.json'') m0 st2 = (sres, st3)" by fastforce
  have sv: "hr_ok sres" "m = m0" "st' = st3" "res = hr_success" "db' = db2"
    using assms 1 2 3 4 ok by (auto simp: create_def Let_def take_checkpoint_def m0_def split: if_splits)
  show thesis
    by (rule that [of st1 db0 st2]) (use 1 3 ok sv saved(1) [OF 4 sv(1)] in \<open>simp_all add: m0_def resolve_manifest\<close>)
qed

text \<open>What listing reads of one name: nothing, a manifest, or an exception.\<close>

definition entry_of :: "fs_state \<Rightarrow> string \<Rightarrow> string \<Rightarrow> backup_manifest option option" where
  "entry_of st base name =
     (if fs_node st (resolve (path_append base name)) \<noteq> Some Dir then Some None
      else map_option (\<lambda>(res, m). if hr_ok res then Some m else None)
             (loadFromFile st (path_append base name @ ''/MANIFEST.json'') empty_manifest))"

lemma list_loop_eq:
  "list_loop st base names out =
     (if \<exists>n \<in> set names. entry_of st base n = None then None
      else Some (out @ List.map_filter (\<lambda>n. the (entry_of st base n)) names))"
  by (induction names arbitrary: out)
    (auto simp: entry_of_def List.map_filter_def Let_def split: option.splits prod.splits)

lemma mset_map_filter: "mset (List.map_filter f xs) = image_mset (the \<circ> f) (filter_mset (\<lambda>x. f x \<noteq> None) (mset xs))"
  by (simp add: List.map_filter_def)

lemma manifest_writable:
  assumes "plain (hb_basePath hb)" and "bm_backupId m = generateBackupId now" and "bm_version m = ''3.12.0''"
    and "bm_path m = backupPath hb (generateBackupId now)" and "bm_timestamp m = manifest_time now'"
    and "list_all (\<lambda>c. plain c \<and> CHR '']'' \<notin> set c) (bm_collections m)"
  shows "writable_manifest m"
proof -
  have pad0: "c \<in> set (pad0 k n) \<Longrightarrow> is_digit c" for c k n
    using dec_digits [of c n] by (auto simp: pad0_def is_digit_def split: if_splits)
  have "\<not> is_digit quote" by (simp add: is_digit_def)
  then have "plain (manifest_time now')" unfolding plain_def manifest_time_def by (auto dest: pad0)
  then show ?thesis
    using assms backupId_plain [of now] backupId_proper [of now]
    by (simp add: writable_manifest_def plain_def proper_def backupPath_def manifest_time_def)
qed

text \<open>The parts of the state after a backup: the old entries, new directories on the way to the base,
  and what is in the backup directory.\<close>

lemma made_outside:
  assumes "fresh_dir d st" and "create_dirs [] d st = (made, st1)" and "d = B @ [i]"
  shows "\<exists>new. outside d st1 = st @ new \<and> (\<forall>x \<in> set new. prefix (fst x) B \<and> fst x \<notin> fst ` set st)"
proof -
  obtain new where new: "st1 = st @ new" "\<forall>x \<in> set new. prefix (fst x) d \<and> fst x \<notin> fst ` set st"
    using create_dirs_grow [OF assms(2)] by auto
  have "outside d st1 = st @ outside d new"
    using assms(1) new by (auto simp: outside_def fresh_dir_def filter_id_conv)
  moreover have "\<forall>x \<in> set (outside d new). prefix (fst x) B"
    using new(2) unfolding outside_def assms(3) by auto
  moreover have "\<forall>x \<in> set (outside d new). fst x \<notin> fst ` set st"
    using new(2) by (auto simp: outside_def)
  ultimately show ?thesis by blast
qed

text \<open>What is read of an id is in its directory.\<close>

lemma entry_of_below:
  assumes "proper n" and "below (resolve base @ [n]) st' = below (resolve base @ [n]) st"
  shows "entry_of st' base n = entry_of st base n"
proof -
  have "fs_node st' p = fs_node st p" if "prefix (resolve base @ [n]) p" for p
    using fs_node_below [OF _ that, of st] fs_node_below [OF _ that, of st'] assms(2) by simp
  then show ?thesis
    by (simp add: entry_of_def loadFromFile_def resolve_append [OF assms(1)] resolve_manifest)
qed

lemma wf_names: "wf_fs st \<Longrightarrow> n \<in> set (fs_entries st cs) \<Longrightarrow> proper n"
  using wf_fsD [of st "cs @ [n]"] by (simp add: in_fs_entries)

lemma list_backups_eq:
  assumes "wf_fs st \<or> fs_exists st (hb_basePath hb)"
  shows "list_backups hb st =
    map_option (\<lambda>out. (hr_success, sort_key bm_timestamp out))
      (list_loop st (hb_basePath hb) (fs_entries st (resolve (hb_basePath hb))) [])"
  using assms no_base_no_entries [of st "resolve (hb_basePath hb)"]
  by (auto simp: list_backups_def fs_exists_def)

text \<open>What a successful backup leaves.\<close>

lemma created_effect:
  fixes hb :: "'db hot_backup" and now :: utc_time
  defines "B \<equiv> resolve (hb_basePath hb)" and "d \<equiv> resolve (hb_basePath hb) @ [generateBackupId now]"
  assumes "hb_db hb = Some D" and "checkpoint_contract D" and "wf_fs st" and "fresh_dir d st"
    and "plain (hb_basePath hb)" and "\<forall>db. list_all (\<lambda>c. plain c \<and> CHR '']'' \<notin> set c) (db_getCollectionNames D db)"
    and "create os hb now now' label (db, st) = (res, Some m, db', st')"
  shows "wf_fs st'" and "\<exists>new. outside d st' = st @ new \<and> (\<forall>x \<in> set new. prefix (fst x) B \<and> fst x \<notin> fst ` set st)"
    and "fs_node st' B = Some Dir" and "fs_node st' d = Some Dir" and "bm_backupId m = generateBackupId now"
    and "entry_of st' (hb_basePath hb) (generateBackupId now) = Some (Some m)"
    and "restore hb (generateBackupId now) st' = Some hr_success"
proof -
  define i where "i = generateBackupId now"
  define dir where "dir = backupPath hb i"
  have i: "proper i" unfolding i_def by (rule backupId_proper)
  have dB: "d = B @ [i]" by (simp add: d_def B_def i_def)
  have dir: "resolve dir = d" unfolding dir_def d_def i_def by (rule resolve_backup [OF backupId_proper])
  obtain db0 st1 st2 where
    made: "create_dirs [] d st = (True, st1)" and
    ck: "db_createCheckpoint D dir db0 st1 = (True, db', st2)" and
    st': "st' = AList.update (d @ [''MANIFEST.json'']) (File (toJson m)) st2" and
    res: "res = hr_success" and
    m: "bm_backupId m = i" "bm_path m = dir"
      "bm_version m = ''3.12.0''" "bm_timestamp m = manifest_time now'" "bm_collections m = db_getCollectionNames D db'"
    by (rule create_steps [OF assms(3,9), folded i_def, folded dir_def, unfolded dir])
  have pd: "list_all proper d" using resolve_proper [of dir] by (simp add: dir)
  note st1 = made_empty [OF assms(5,6) pd made]
  have ck': "outside d st2 = outside d st1" "wf_fs st2" "fs_node st2 d = Some Dir"
    "fs_node st2 (d @ [''MANIFEST.json'']) \<noteq> Some Dir"
    "\<exists>n. proper n \<and> n \<noteq> ''MANIFEST.json'' \<and> is_file (fs_node st2 (d @ [n]))"
    using assms(4) ck st1 unfolding checkpoint_contract_def by (metis dir)+
  show "\<exists>new. outside d st' = st @ new \<and> (\<forall>x \<in> set new. prefix (fst x) B \<and> fst x \<notin> fst ` set st)"
    using made_outside [OF assms(6) made dB] ck'(1) outside_update [of d "d @ [''MANIFEST.json'']"] by (simp add: st')
  show "wf_fs st'" unfolding st'
    by (rule wf_write_file [OF ck'(2)]) (use pd ck'(3,4) in simp_all)
  show dir': "fs_node st' d = Some Dir" using ck'(3) by (auto simp: st' fs_node_def)
  have man': "fs_node st' (d @ [''MANIFEST.json'']) = Some (File (toJson m))" by (simp add: st' fs_node_def)
  have wm: "writable_manifest m"
    using manifest_writable [OF assms(7), of m now now'] m assms(8) by (simp add: i_def dir_def)
  have loaded: "fromJson (toJson m) out = Some (hr_success, m)" for out by (rule manifest_read_back [OF wm])
  have "entry_of st' (hb_basePath hb) i = Some (Some m)"
    using dir' man' loaded resolve_append [OF i, of "hb_basePath hb"]
    by (simp add: entry_of_def loadFromFile_def resolve_manifest dB B_def hr_success_def)
  then show "entry_of st' (hb_basePath hb) (generateBackupId now) = Some (Some m)" by (simp only: i_def)
  show "bm_backupId m = generateBackupId now" using m(1) by (simp only: i_def)
  have "fs_node st1 B = Some Dir"
    using create_dirs_parents [OF made, of B] by (simp add: fs_node_def dB)
  then show "fs_node st' B = Some Dir"
    using map_of_outside [of d B st'] map_of_outside [of d B st1] ck'(1) outside_update [of d "d @ [''MANIFEST.json'']"]
    by (auto simp: fs_node_def dB st')
  obtain n where n: "proper n" "n \<noteq> ''MANIFEST.json''" "is_file (fs_node st2 (d @ [n]))" using ck'(5) by blast
  then have f: "is_file (fs_node st' (d @ [n]))" by (simp add: st' fs_node_def)
  then have "n \<in> set (fs_entries st' d)"
    by (auto simp: in_fs_entries fs_node_def is_file_def dest: map_of_SomeD split: option.splits intro: rev_image_eqI)
  then have "filter (\<lambda>name. is_file (fs_node st' (resolve (path_append dir name))) \<and> name \<noteq> ''MANIFEST.json'') (fs_entries st' d) \<noteq> []"
    using n f resolve_append [OF n(1), of dir] unfolding filter_empty_conv dir by metis
  then have "restore hb i st' = Some hr_success"
    using dir' man' loaded
    by (simp add: restore_def Let_def fs_exists_def dir_def [symmetric] dir validateBackupDirectory_def resolve_manifest
        loadFromFile_def hr_success_def)
  then show "restore hb (generateBackupId now) st' = Some hr_success" by (simp only: i_def)
qed

text \<open>A backup of a database is complete: when the database keeps its contract and the backup goes
  to a new directory, a backup reported as made can be restored, listing then shows it together
  with all backups listed before, in the order of their timestamps, and everything outside its
  directory is as it was.
\<close>

theorem created_backup_available:
  assumes "hb_db hb = Some D" and "checkpoint_contract D" and "wf_fs st"
    and "fresh_dir (resolve (backupPath hb (generateBackupId now))) st"
    and "plain (hb_basePath hb)" and "\<forall>db. list_all (\<lambda>c. plain c \<and> CHR '']'' \<notin> set c) (db_getCollectionNames D db)"
    and "list_backups hb st = Some (r, ms)"
    and "create os hb now now' label (db, st) = (res, Some m, db', st')"
  shows "\<exists>ms'. restore hb (bm_backupId m) st' = Some hr_success \<and>
           list_backups hb st' = Some (hr_success, ms') \<and> mset ms' = add_mset m (mset ms) \<and> sorted (map bm_timestamp ms') \<and>
           (\<forall>p \<in> fst ` set st. map_of st' p = map_of st p)"
proof -
  define B where "B = resolve (hb_basePath hb)"
  define i where "i = generateBackupId now"
  define d where "d = B @ [i]"
  have fresh: "fresh_dir d st"
    using assms(4) unfolding resolve_backup [OF backupId_proper] d_def i_def B_def .
  note eff = created_effect [OF assms(1-3) fresh [unfolded d_def i_def B_def] assms(5,6,8), folded i_def, folded B_def, folded d_def]
  obtain new where new: "outside d st' = st @ new" "\<forall>x \<in> set new. prefix (fst x) B \<and> fst x \<notin> fst ` set st"
    using eff(2) by blast
  have names: "mset (fs_entries st' B) = add_mset i (mset (fs_entries st B))"
    using entries_after [OF _ _ d_def new(1)] eff(1,4) new(2) by (auto simp: fs_node_def d_def wf_fs_def)
  have old: "entry_of st' (hb_basePath hb) n = entry_of st (hb_basePath hb) n" if "n \<in> set (fs_entries st B)" for n
  proof -
    have "B @ [n] \<in> fst ` set st" using that by (simp only: in_fs_entries)
    then have "n \<noteq> i" using fresh by (auto simp: fresh_dir_def d_def)
    have "\<forall>x \<in> set new. prefix (fst x) B" using new(2) by blast
    from below_other [OF new(1) [unfolded d_def] this \<open>n \<noteq> i\<close>]
    have "below (B @ [n]) st' = below (B @ [n]) st" .
    then show ?thesis unfolding B_def by (rule entry_of_below [OF wf_names [OF assms(3) that]])
  qed
  let ?g = "entry_of st (hb_basePath hb)" and ?g' = "entry_of st' (hb_basePath hb)"
  have list: "\<forall>n \<in> set (fs_entries st B). ?g n \<noteq> None"
    "ms = sort_key bm_timestamp (List.map_filter (\<lambda>n. the (?g n)) (fs_entries st B))"
    using assms(7) list_backups_eq [of st hb] assms(3) by (auto simp: B_def list_loop_eq split: if_splits)
  have "set (fs_entries st' B) = insert i (set (fs_entries st B))"
    using names by (metis set_mset_add_mset_insert set_mset_mset)
  then have all': "\<forall>n \<in> set (fs_entries st' B). ?g' n \<noteq> None" using list(1) old eff(6) by auto
  define ms' where "ms' = sort_key bm_timestamp (List.map_filter (\<lambda>n. the (?g' n)) (fs_entries st' B))"
  have "list_backups hb st' = Some (hr_success, ms')"
    using all' eff(1) list_backups_eq [of st' hb] by (simp add: B_def list_loop_eq ms'_def)
  moreover have "mset ms' = add_mset m (mset ms)"
  proof -
    have f: "filter_mset (\<lambda>n. the (?g' n) \<noteq> None) (mset (fs_entries st B)) = filter_mset (\<lambda>n. the (?g n) \<noteq> None) (mset (fs_entries st B))"
      using old by (intro filter_mset_cong) auto
    have "mset ms' = image_mset (the \<circ> (\<lambda>n. the (?g' n))) (filter_mset (\<lambda>n. the (?g' n) \<noteq> None) (add_mset i (mset (fs_entries st B))))"
      by (simp add: ms'_def mset_map_filter names)
    also have "\<dots> = add_mset m (image_mset (the \<circ> (\<lambda>n. the (?g' n))) (filter_mset (\<lambda>n. the (?g n) \<noteq> None) (mset (fs_entries st B))))"
      by (simp add: eff(6) f del: not_None_eq)
    also have "image_mset (the \<circ> (\<lambda>n. the (?g' n))) (filter_mset (\<lambda>n. the (?g n) \<noteq> None) (mset (fs_entries st B))) =
        image_mset (the \<circ> (\<lambda>n. the (?g n))) (filter_mset (\<lambda>n. the (?g n) \<noteq> None) (mset (fs_entries st B)))"
      using old by (intro image_mset_cong) auto
    finally show ?thesis by (simp add: list(2) mset_map_filter)
  qed
  moreover have "sorted (map bm_timestamp ms')" by (simp add: ms'_def)
  moreover have "map_of st' p = map_of st p" if "p \<in> fst ` set st" for p
  proof -
    have "\<not> prefix d p" using fresh that by (auto simp: fresh_dir_def)
    moreover have "map_of new p = None" using new(2) that unfolding map_of_eq_None_iff by (metis imageE)
    ultimately show ?thesis using map_of_outside [of d p st'] new(1) by (simp add: map_add_def split: option.splits)
  qed
  ultimately show ?thesis using eff(5,7) by auto
qed

definition sample_time :: utc_time where
  "sample_time = \<lparr>tm_year = 1, tm_mon = 2, tm_mday = 3, tm_hour = 4, tm_min = 5, tm_sec = 6, tm_usec = 7\<rparr>"

text \<open>A database whose checkpoint adds one data file.\<close>

definition sample_db :: "unit backup_db" where
  "sample_db = \<lparr>db_flushWAL = (\<lambda>db. (True, db)),
     db_createCheckpoint = (\<lambda>path db st. (True, db, AList.update (resolve path @ [''1.sst'']) (File ''x'') st)),
     db_getLatestSequenceNumber = (\<lambda>db. 42), db_getCollectionNames = (\<lambda>db. [''_system''])\<rparr>"

lemma empty_dir_inside: "empty_dir d st \<Longrightarrow> fs_node st (d @ [n]) = None"
  by (force simp: empty_dir_def fs_node_def map_of_eq_None_iff)

lemma sample_db_contract: "checkpoint_contract sample_db"
proof -
  have p: "proper ''1.sst''" by (simp add: proper_def)
  have "wf_fs (AList.update (d @ [''1.sst'']) (File ''x'') st)" if "wf_fs st" "empty_dir d st" "list_all proper d" for d st
    by (rule wf_write_file [OF that(1)]) (use that p in \<open>simp_all add: empty_dir_inside, simp add: empty_dir_def\<close>)
  moreover have "fs_node (AList.update (d @ [''1.sst'']) (File ''x'') st) d = Some Dir"
    and "fs_node (AList.update (d @ [''1.sst'']) (File ''x'') st) (d @ [''MANIFEST.json'']) = None"
    and "is_file (fs_node (AList.update (d @ [''1.sst'']) (File ''x'') st) (d @ [''1.sst'']))" if "empty_dir d st" for d st
    using that empty_dir_inside [OF that, of "''MANIFEST.json''"]
    by (simp_all add: fs_node_def is_file_def empty_dir_def split: if_splits)
  ultimately show ?thesis
    using p resolve_proper unfolding checkpoint_contract_def sample_db_def
    by (auto simp: outside_update intro!: exI [of _ "''1.sst''"])
qed

definition sample_engine :: "unit hot_backup" where
  "sample_engine = \<lparr>hb_basePath = ''/b'', hb_db = Some sample_db\<rparr>"

definition sample_created :: "hotbackup_result \<times> backup_manifest option \<times> unit \<times> fs_state" where
  "sample_created = create good_os sample_engine sample_time sample_time ''label'' ((), [([''b''], Dir)])"

theorem created_backup_available_witness:
  "\<exists>m st' ms'. sample_created = (hr_success, Some m, (), st') \<and>
     restore sample_engine (bm_backupId m) st' = Some hr_success \<and>
     list_backups sample_engine st' = Some (hr_success, ms') \<and> mset ms' = {#m#}"
proof -
  have r: "fst sample_created = hr_success" "\<not> Option.is_none (fst (snd sample_created))" by code_simp+
  obtain rs mo db' st' where s: "sample_created = (rs, mo, db', st')" by (cases sample_created)
  from r(2) obtain m where "mo = Some m" by (cases mo) (simp_all add: s)
  with r(1) [unfolded s] s have c: "sample_created = (hr_success, Some m, (), st')" by simp
  have wf: "wf_fs [([''b''], Dir)]" by (simp add: wf_fs_def proper_def fs_node_def)
  have d: "resolve (backupPath sample_engine (generateBackupId sample_time)) = [''b'', generateBackupId sample_time]"
    unfolding resolve_backup [OF backupId_proper] by (simp add: sample_engine_def resolve_def walk_def)
  have l: "list_backups sample_engine [([''b''], Dir)] = Some (hr_success, [])" by code_simp
  have "\<exists>ms'. restore sample_engine (bm_backupId m) st' = Some hr_success \<and>
      list_backups sample_engine st' = Some (hr_success, ms') \<and> mset ms' = add_mset m (mset []) \<and> sorted (map bm_timestamp ms') \<and>
      (\<forall>p \<in> fst ` set [([''b''], Dir)]. map_of st' p = map_of [([''b''], Dir)] p)"
    by (rule created_backup_available [OF _ sample_db_contract wf _ _ _ l c [unfolded sample_created_def]])
      (simp_all only: d, simp_all add: sample_engine_def fresh_dir_def plain_def sample_db_def)
  with c show ?thesis by auto
qed

definition bare_engine :: "unit hot_backup" where
  "bare_engine = \<lparr>hb_basePath = ''/tmp/arangodb-backups'', hb_db = None\<rparr>"

theorem feature_backup_unrestorable_witness:
  "\<exists>m st'. create good_os bare_engine sample_time sample_time ''label'' ((), []) = (hr_success, Some m, (), st') \<and>
     restore bare_engine (bm_backupId m) st' = Some (hr_error 400
       (''Backup directory contains no data files (expected SST files): '' @ backupPath bare_engine (bm_backupId m)))"
proof -
  let ?c = "create good_os bare_engine sample_time sample_time ''label'' ((), [])"
  have r: "fst ?c = hr_success" "\<not> Option.is_none (fst (snd ?c))" by code_simp+
  obtain rs mo db' st' where s: "?c = (rs, mo, db', st')" by (cases ?c)
  from r(2) obtain m where "mo = Some m" by (cases mo) (simp_all add: s)
  with r(1) [unfolded s] s have c: "?c = (hr_success, Some m, (), st')" by simp
  have e: "hotBackup (hf_prepare (hf_validateOptions HotBackupFeature)) = Some bare_engine"
    by (simp add: hotBackup_def hf_prepare_def hf_validateOptions_def HotBackupFeature_def bare_engine_def)
  have f: "fresh_dir (resolve (backupPath bare_engine (generateBackupId sample_time))) []"
    unfolding resolve_backup [OF backupId_proper] by (simp add: fresh_dir_def)
  show ?thesis
    using feature_backup_unrestorable [OF e _ f c] c by (simp add: HotBackupFeature_def)
qed

text \<open>Deleting a backup by a proper id removes exactly its directory: the other entries stay, in
  place, and it is an error when there is nothing to delete or the system fails.
\<close>

theorem delete_exact:
  assumes "proper backupId" and "os_remove_fails os = None"
  shows "deleteBackup os hb backupId st =
    (let d = resolve (hb_basePath hb) @ [backupId]
     in if fs_node st d = None then (hr_notFound (''Backup not found: '' @ backupId), st)
        else (hr_success, outside d st))"
  using assms by (simp add: deleteBackup_def removeDirectory_def fs_exists_def resolve_backup remove_all_def outside_def Let_def)

theorem delete_exact_witness:
  "deleteBackup good_os sample_engine ''x'' [([''b''], Dir), ([''b'', ''x''], Dir), ([''b'', ''x'', ''f''], File []), ([''c''], Dir)] =
     (hr_success, [([''b''], Dir), ([''c''], Dir)])"
proof -
  have "resolve (hb_basePath sample_engine) = [''b'']" by (simp add: sample_engine_def resolve_def walk_def)
  then show ?thesis
    using delete_exact [of "''x''" good_os sample_engine "[([''b''], Dir), ([''b'', ''x''], Dir), ([''b'', ''x'', ''f''], File []), ([''c''], Dir)]"]
    by (simp add: proper_def good_os_def fs_node_def outside_def)
qed

text \<open>An id is not checked: the empty one, or one dot, deletes every backup, and two dots delete
  everything beside the backups as well.\<close>

lemma delete_escapes:
  assumes "os_remove_fails os = None" and "fs_exists st (hb_basePath hb)"
  shows "deleteBackup os hb [] st = (hr_success, outside (resolve (hb_basePath hb)) st)"
    and "fs_node st (butlast (resolve (hb_basePath hb))) \<noteq> None \<Longrightarrow>
         deleteBackup os hb ''..'' st = (hr_success, outside (butlast (resolve (hb_basePath hb))) st)"
proof -
  have "resolve (hb_basePath hb @ ''/'') = resolve (hb_basePath hb)"
    using split_path_slash [of "hb_basePath hb" "[]"] by (simp add: resolve_def walk_def)
  then show "deleteBackup os hb [] st = (hr_success, outside (resolve (hb_basePath hb)) st)"
    using assms by (auto simp: deleteBackup_def backupPath_def removeDirectory_def fs_exists_def remove_all_def outside_def)
  have "resolve (hb_basePath hb @ ''/..'') = butlast (resolve (hb_basePath hb))"
    using split_path_slash [of "hb_basePath hb" "''..''"] by (simp add: resolve_def walk_def)
  then show "fs_node st (butlast (resolve (hb_basePath hb))) \<noteq> None \<Longrightarrow>
         deleteBackup os hb ''..'' st = (hr_success, outside (butlast (resolve (hb_basePath hb))) st)"
    using assms by (auto simp: deleteBackup_def backupPath_def removeDirectory_def fs_exists_def remove_all_def outside_def)
qed

end
