(* ===== verification/Audit_Log.thy ===== *)
theory Audit_Log
  imports Prelude
begin

text \<open>
  Auditing (\<^verbatim>\<open>Enterprise/Audit/AuditLogger.cpp\<close>, \<^verbatim>\<open>Enterprise/Audit/AuditFeature.cpp\<close>): the buffer
  filled by any thread and emptied by one writer thread, whose steps interleave with the others',
  the two-part shutdown, and the feature that turns output specifications into a logger.
\<close>

section \<open>Events\<close>

record audit_event =
  ae_timestamp :: string
  ae_server :: string
  ae_topic :: string
  ae_username :: string
  ae_database :: string
  ae_clientIp :: string
  ae_authMethod :: string
  ae_text :: string

definition format_event :: "audit_event \<Rightarrow> string" where
  "format_event e = ae_timestamp e @ ''|'' @ ae_server e @ ''|'' @ ae_topic e @ ''|'' @ ae_username e @ ''|'' @
     ae_database e @ ''|'' @ ae_clientIp e @ ''|'' @ ae_authMethod e @ ''|'' @ ae_text e"

section \<open>The logger\<close>

datatype output_type = OFile | OSyslog

record file_output =
  fo_path :: string
  fo_open :: bool
  fo_text :: string

text \<open>Where the writer thread is in \<open>drainLoop\<close>: waiting for the condition, writing the rest of a
  batch, testing for the end, taking the last events, writing them, returned.\<close>

datatype writer_pc = W_wait | W_write "audit_event list" | W_check | W_final | W_final_write "audit_event list" | W_exit

text \<open>\<open>al_thread\<close> is \<open>None\<close> when \<open>_writerThread\<close> is not joinable.\<close>

record audit_logger =
  al_buffer :: "audit_event list"
  al_running :: bool
  al_thread :: "writer_pc option"
  al_files :: "file_output list"
  al_syslog :: "string list"

definition AuditLogger :: audit_logger where
  "AuditLogger = \<lparr>al_buffer = [], al_running = False, al_thread = None, al_files = [], al_syslog = []\<rparr>"

text \<open>\<open>opens\<close> says which files the system opens for appending; \<open>None\<close> is the exception thrown.  The
  text is what was appended through the stream.\<close>

definition addOutput :: "(string \<Rightarrow> bool) \<Rightarrow> output_type \<Rightarrow> string \<Rightarrow> audit_logger \<Rightarrow> audit_logger option" where
  "addOutput opens type target l =
     (case type of
        OFile \<Rightarrow>
          if \<not> opens target then None
          else Some (l\<lparr>al_files := al_files l @ [\<lparr>fo_path = target, fo_open = True, fo_text = []\<rparr>]\<rparr>)
      | OSyslog \<Rightarrow> Some (l\<lparr>al_syslog := al_syslog l @ [target]\<rparr>))"

definition log_event :: "audit_event \<Rightarrow> audit_logger \<Rightarrow> audit_logger" where
  "log_event e l = l\<lparr>al_buffer := al_buffer l @ [e]\<rparr>"

text \<open>Assigning a thread over a joinable one ends the process: \<open>None\<close>.\<close>

definition start_logger :: "audit_logger \<Rightarrow> audit_logger option" where
  "start_logger l =
     (if al_thread l \<noteq> None then None else Some (l\<lparr>al_running := True, al_thread := Some W_wait\<rparr>))"

text \<open>\<open>stop\<close> signals and then joins, which returns once the writer has.\<close>

definition stop_signal :: "audit_logger \<Rightarrow> audit_logger" where
  "stop_signal l = l\<lparr>al_running := False\<rparr>"

definition stop_join :: "audit_logger \<Rightarrow> audit_logger option" where
  "stop_join l =
     (case al_thread l of
        None \<Rightarrow> Some l
      | Some W_exit \<Rightarrow> Some (l\<lparr>al_thread := None\<rparr>)
      | Some _ \<Rightarrow> None)"

definition writeEvent :: "audit_event \<Rightarrow> audit_logger \<Rightarrow> audit_logger" where
  "writeEvent event l =
     (let formatted = format_event event
      in l\<lparr>al_files := map (\<lambda>fo. if fo_open fo then fo\<lparr>fo_text := fo_text fo @ formatted @ [CHR 0x0A]\<rparr> else fo) (al_files l)\<rparr>)"

text \<open>One step of \<open>drainLoop\<close>.  The wait ends by itself after 100 milliseconds, so it never blocks.\<close>

definition drain_step :: "writer_pc \<Rightarrow> audit_logger \<Rightarrow> audit_logger" where
  "drain_step pc l =
     (case pc of
        W_wait \<Rightarrow> l\<lparr>al_thread := Some (W_write (al_buffer l)), al_buffer := []\<rparr>
      | W_write (event # batch) \<Rightarrow> (writeEvent event l)\<lparr>al_thread := Some (W_write batch)\<rparr>
      | W_write [] \<Rightarrow> l\<lparr>al_thread := Some W_check\<rparr>
      | W_check \<Rightarrow>
          l\<lparr>al_thread := Some (if \<not> al_running l \<and> al_buffer l = [] then W_final else W_wait)\<rparr>
      | W_final \<Rightarrow> l\<lparr>al_thread := Some (W_final_write (al_buffer l)), al_buffer := []\<rparr>
      | W_final_write (event # remaining) \<Rightarrow> (writeEvent event l)\<lparr>al_thread := Some (W_final_write remaining)\<rparr>
      | W_final_write [] \<Rightarrow> l\<lparr>al_thread := Some W_exit\<rparr>
      | W_exit \<Rightarrow> l)"

section \<open>Interleavings\<close>

datatype audit_action = Log audit_event | Writer | Stop_signal | Stop_join

text \<open>\<open>None\<close> where the action cannot happen now.\<close>

definition audit_act :: "audit_action \<Rightarrow> audit_logger \<Rightarrow> audit_logger option" where
  "audit_act a l =
     (case a of
        Log e \<Rightarrow> Some (log_event e l)
      | Writer \<Rightarrow> (case al_thread l of None \<Rightarrow> None | Some W_exit \<Rightarrow> None | Some pc \<Rightarrow> Some (drain_step pc l))
      | Stop_signal \<Rightarrow> Some (stop_signal l)
      | Stop_join \<Rightarrow> stop_join l)"

fun audit_run :: "audit_action list \<Rightarrow> audit_logger \<Rightarrow> audit_logger option" where
  "audit_run [] l = Some l"
| "audit_run (a # as) l = (case audit_act a l of None \<Rightarrow> None | Some l' \<Rightarrow> audit_run as l')"

text \<open>The destructor stops a running logger and closes its files; a thread that is neither running nor
  joined ends the program.\<close>

definition audit_destroy :: "audit_action list \<Rightarrow> audit_logger \<Rightarrow> file_output list option" where
  "audit_destroy run l =
     map_option al_files
       (if al_running l then audit_run (Stop_signal # run @ [Stop_join]) l
        else if al_thread l \<noteq> None then None else Some l)"

section \<open>The feature\<close>

datatype audit_exn = Invalid_output_spec string | Cannot_open_audit_file string

record audit_feature =
  af_logger :: "audit_logger option"
  af_outputSpecs :: "string list"

definition setOutputSpecs :: "string list \<Rightarrow> audit_feature \<Rightarrow> audit_feature" where
  "setOutputSpecs specs f = f\<lparr>af_outputSpecs := specs\<rparr>"

definition af_validateOptions :: "audit_feature \<Rightarrow> audit_exn option" where
  "af_validateOptions f =
     map_option Invalid_output_spec
       (List.find (\<lambda>spec. substr spec 0 7 \<noteq> ''file://'' \<and> substr spec 0 9 \<noteq> ''syslog://'') (af_outputSpecs f))"

fun add_specs :: "(string \<Rightarrow> bool) \<Rightarrow> string list \<Rightarrow> audit_logger \<Rightarrow> audit_exn option \<times> audit_logger" where
  "add_specs opens [] l = (None, l)"
| "add_specs opens (spec # specs) l =
     (if substr spec 0 7 = ''file://''
      then (case addOutput opens OFile (drop 7 spec) l of
              None \<Rightarrow> (Some (Cannot_open_audit_file (drop 7 spec)), l)
            | Some l \<Rightarrow> add_specs opens specs l)
      else if substr spec 0 9 = ''syslog://''
      then (case addOutput opens OSyslog (drop 9 spec) l of
              None \<Rightarrow> (Some (Cannot_open_audit_file (drop 9 spec)), l)
            | Some l \<Rightarrow> add_specs opens specs l)
      else add_specs opens specs l)"

text \<open>Assigning the pointer destroys a logger it held; what is left of that one are its files.  \<open>run\<close>
  stands for what the threads do until its writer has exited.\<close>

definition reset_logger :: "audit_action list \<Rightarrow> audit_feature \<Rightarrow> file_output list option" where
  "reset_logger run f = (case af_logger f of None \<Rightarrow> Some [] | Some l \<Rightarrow> audit_destroy run l)"

definition af_prepare ::
  "(string \<Rightarrow> bool) \<Rightarrow> audit_action list \<Rightarrow> audit_feature \<Rightarrow> (audit_exn option \<times> audit_feature) option" where
  "af_prepare opens run f =
     map_option (\<lambda>_. case add_specs opens (af_outputSpecs f) AuditLogger of (e, l) \<Rightarrow> (e, f\<lparr>af_logger := Some l\<rparr>))
       (reset_logger run f)"

definition af_start :: "audit_feature \<Rightarrow> audit_feature option" where
  "af_start f = (case af_logger f of None \<Rightarrow> Some f | Some l \<Rightarrow> map_option (\<lambda>l. f\<lparr>af_logger := Some l\<rparr>) (start_logger l))"

text \<open>\<open>run\<close> stands for what the threads do between the signal and the join.\<close>

definition af_stop :: "audit_action list \<Rightarrow> audit_feature \<Rightarrow> audit_feature option" where
  "af_stop run f =
     (case af_logger f of
        None \<Rightarrow> Some f
      | Some l \<Rightarrow> map_option (\<lambda>l. f\<lparr>af_logger := Some l\<rparr>) (audit_run (Stop_signal # run @ [Stop_join]) l))"

definition af_unprepare :: "audit_action list \<Rightarrow> audit_feature \<Rightarrow> (file_output list \<times> audit_feature) option" where
  "af_unprepare run f = map_option (\<lambda>files. (files, f\<lparr>af_logger := None\<rparr>)) (reset_logger run f)"

definition currentTimestamp :: "utc_time \<Rightarrow> string" where
  "currentTimestamp now =
     pad0 4 (tm_year now) @ ''-'' @ pad0 2 (tm_mon now) @ ''-'' @ pad0 2 (tm_mday now) @ ''T'' @
     pad0 2 (tm_hour now) @ '':'' @ pad0 2 (tm_min now) @ '':'' @ pad0 2 (tm_sec now) @ ''Z''"

definition hostname :: "string option \<Rightarrow> string" where
  "hostname gethostname = (case gethostname of Some buf \<Rightarrow> buf | None \<Rightarrow> ''unknown'')"

definition logEvent ::
  "utc_time \<Rightarrow> string option \<Rightarrow> string \<Rightarrow> string \<Rightarrow> string \<Rightarrow> string \<Rightarrow> string \<Rightarrow> string \<Rightarrow> audit_feature \<Rightarrow> audit_feature" where
  "logEvent now host topic username database clientIp authMethod text f =
     (case af_logger f of
        None \<Rightarrow> f
      | Some l \<Rightarrow>
          f\<lparr>af_logger := Some (log_event
             \<lparr>ae_timestamp = currentTimestamp now, ae_server = hostname host, ae_topic = topic, ae_username = username,
              ae_database = database, ae_clientIp = clientIp, ae_authMethod = authMethod, ae_text = text\<rparr> l)\<rparr>)"

definition logAuthentication ::
  "utc_time \<Rightarrow> string option \<Rightarrow> string \<Rightarrow> string \<Rightarrow> string \<Rightarrow> string \<Rightarrow> string \<Rightarrow> audit_feature \<Rightarrow> audit_feature" where
  "logAuthentication now host = logEvent now host ''authentication''"

definition logAuthorization ::
  "utc_time \<Rightarrow> string option \<Rightarrow> string \<Rightarrow> string \<Rightarrow> string \<Rightarrow> string \<Rightarrow> string \<Rightarrow> audit_feature \<Rightarrow> audit_feature" where
  "logAuthorization now host = logEvent now host ''authorization''"

definition logCollection ::
  "utc_time \<Rightarrow> string option \<Rightarrow> string \<Rightarrow> string \<Rightarrow> string \<Rightarrow> string \<Rightarrow> string \<Rightarrow> audit_feature \<Rightarrow> audit_feature" where
  "logCollection now host = logEvent now host ''collection''"

definition logDatabase ::
  "utc_time \<Rightarrow> string option \<Rightarrow> string \<Rightarrow> string \<Rightarrow> string \<Rightarrow> string \<Rightarrow> string \<Rightarrow> audit_feature \<Rightarrow> audit_feature" where
  "logDatabase now host = logEvent now host ''database''"

definition logDocument ::
  "utc_time \<Rightarrow> string option \<Rightarrow> string \<Rightarrow> string \<Rightarrow> string \<Rightarrow> string \<Rightarrow> string \<Rightarrow> audit_feature \<Rightarrow> audit_feature" where
  "logDocument now host = logEvent now host ''document''"

definition logView ::
  "utc_time \<Rightarrow> string option \<Rightarrow> string \<Rightarrow> string \<Rightarrow> string \<Rightarrow> string \<Rightarrow> string \<Rightarrow> audit_feature \<Rightarrow> audit_feature" where
  "logView now host = logEvent now host ''view''"

definition logService ::
  "utc_time \<Rightarrow> string option \<Rightarrow> string \<Rightarrow> string \<Rightarrow> string \<Rightarrow> string \<Rightarrow> string \<Rightarrow> audit_feature \<Rightarrow> audit_feature" where
  "logService now host = logEvent now host ''service''"

definition logHotbackup ::
  "utc_time \<Rightarrow> string option \<Rightarrow> string \<Rightarrow> string \<Rightarrow> string \<Rightarrow> string \<Rightarrow> string \<Rightarrow> audit_feature \<Rightarrow> audit_feature" where
  "logHotbackup now host = logEvent now host ''hotbackup''"


section \<open>Nothing is lost or reordered\<close>

definition audit_lines :: "audit_event list \<Rightarrow> string" where
  "audit_lines es = concat (map (\<lambda>e. format_event e @ [CHR 0x0A]) es)"

definition appended :: "audit_event list \<Rightarrow> file_output list \<Rightarrow> file_output list" where
  "appended es = map (\<lambda>fo. if fo_open fo then fo\<lparr>fo_text := fo_text fo @ audit_lines es\<rparr> else fo)"

definition logged :: "audit_action list \<Rightarrow> audit_event list" where
  "logged as = List.map_filter (\<lambda>a. case a of Log e \<Rightarrow> Some e | _ \<Rightarrow> None) as"

definition in_flight :: "audit_logger \<Rightarrow> audit_event list" where
  "in_flight l = (case al_thread l of Some (W_write b) \<Rightarrow> b | Some (W_final_write b) \<Rightarrow> b | _ \<Rightarrow> [])"

definition final_phase :: "audit_logger \<Rightarrow> bool" where
  "final_phase l = (case al_thread l of None \<Rightarrow> True | Some W_final \<Rightarrow> True | Some (W_final_write _) \<Rightarrow> True | Some W_exit \<Rightarrow> True | _ \<Rightarrow> False)"

lemma logged_simps [simp]:
  "logged [] = []" "logged (Log e # as) = e # logged as" "logged (Writer # as) = logged as"
  "logged (Stop_signal # as) = logged as" "logged (Stop_join # as) = logged as"
  by (simp_all add: logged_def List.map_filter_def)

lemma logged_append [simp]: "logged (as @ bs) = logged as @ logged bs"
  by (simp add: logged_def List.map_filter_def)

lemma audit_run_append: "audit_run (as @ bs) l = (case audit_run as l of None \<Rightarrow> None | Some l' \<Rightarrow> audit_run bs l')"
  by (induction as arbitrary: l) (auto split: option.splits)

lemma writeEvent_appended:
  "al_files l = appended ws fs \<Longrightarrow> al_files (writeEvent e l) = appended (ws @ [e]) fs"
  by (simp add: writeEvent_def appended_def audit_lines_def Let_def)

lemma writeEvent_rest [simp]:
  "al_buffer (writeEvent e l) = al_buffer l" "al_running (writeEvent e l) = al_running l" "al_syslog (writeEvent e l) = al_syslog l"
  by (simp_all add: writeEvent_def Let_def)

text \<open>The files hold the events \<open>ws\<close>, and those, the batch in flight and the buffer are all events
  accepted, in order.\<close>

definition audit_inv :: "file_output list \<Rightarrow> audit_event list \<Rightarrow> audit_event list \<Rightarrow> audit_logger \<Rightarrow> bool" where
  "audit_inv fs accepted ws l \<longleftrightarrow> al_files l = appended ws fs \<and> ws @ in_flight l @ al_buffer l = accepted"

lemma drain_step_inv:
  assumes "audit_inv fs accepted ws l" and "al_thread l = Some pc" and "pc \<noteq> W_exit"
  shows "\<exists>ws'. audit_inv fs accepted (ws @ ws') (drain_step pc l)"
proof -
  have "\<exists>ws'. al_files (drain_step pc l) = appended (ws @ ws') fs \<and>
      ws' @ in_flight (drain_step pc l) @ al_buffer (drain_step pc l) = in_flight l @ al_buffer l"
  proof (cases pc)
    case (W_write b)
    then show ?thesis
    proof (cases b)
      case (Cons e es)
      then show ?thesis using assms(1,2) W_write
        by (intro exI [of _ "[e]"]) (simp add: drain_step_def in_flight_def audit_inv_def writeEvent_appended)
    qed (use assms(1,2) in \<open>simp add: drain_step_def in_flight_def audit_inv_def\<close>)
  next
    case (W_final_write b)
    then show ?thesis
    proof (cases b)
      case (Cons e es)
      then show ?thesis using assms(1,2) W_final_write
        by (intro exI [of _ "[e]"]) (simp add: drain_step_def in_flight_def audit_inv_def writeEvent_appended)
    qed (use assms(1,2) in \<open>simp add: drain_step_def in_flight_def audit_inv_def\<close>)
  qed (use assms in \<open>simp_all add: drain_step_def in_flight_def audit_inv_def\<close>)
  then show ?thesis using assms(1) by (auto simp: audit_inv_def)
qed

lemma audit_act_inv:
  assumes "audit_inv fs accepted ws l" and "audit_act a l = Some l'"
  shows "\<exists>ws'. audit_inv fs (accepted @ logged [a]) (ws @ ws') l'"
proof (cases a)
  case (Log e)
  then show ?thesis using assms by (intro exI [of _ "[]"]) (auto simp: audit_act_def log_event_def audit_inv_def in_flight_def)
next
  case Writer
  then obtain pc where "al_thread l = Some pc" "pc \<noteq> W_exit" "l' = drain_step pc l"
    using assms(2) by (auto simp: audit_act_def split: option.splits writer_pc.splits)
  then show ?thesis using drain_step_inv [OF assms(1)] Writer by auto
next
  case Stop_signal
  then show ?thesis using assms by (intro exI [of _ "[]"]) (auto simp: audit_act_def stop_signal_def audit_inv_def in_flight_def)
next
  case Stop_join
  then show ?thesis using assms
    by (intro exI [of _ "[]"]) (auto simp: audit_act_def stop_join_def audit_inv_def in_flight_def split: option.splits writer_pc.splits)
qed

lemma audit_run_inv:
  "audit_inv fs accepted ws l \<Longrightarrow> audit_run as l = Some l' \<Longrightarrow>
   \<exists>ws'. audit_inv fs (accepted @ logged as) (ws @ ws') l'"
proof (induction as arbitrary: accepted ws l)
  case (Cons a as)
  then obtain l1 where l1: "audit_act a l = Some l1" "audit_run as l1 = Some l'" by (auto split: option.splits)
  obtain ws1 where "audit_inv fs (accepted @ logged [a]) (ws @ ws1) l1" using audit_act_inv [OF Cons.prems(1) l1(1)] by blast
  from Cons.IH [OF this l1(2)] obtain ws2 where "audit_inv fs ((accepted @ logged [a]) @ logged as) ((ws @ ws1) @ ws2) l'" by blast
  moreover have "logged [a] @ logged as = logged (a # as)" by (cases a) simp_all
  ultimately show ?case by (intro exI [of _ "ws1 @ ws2"]) simp
qed (auto intro: exI [of _ "[]"])


section \<open>Shutting down\<close>

lemma run_before_stop:
  "Stop_signal \<notin> set as \<Longrightarrow> Stop_join \<notin> set as \<Longrightarrow> al_running l \<Longrightarrow> \<not> final_phase l \<Longrightarrow> audit_run as l = Some l' \<Longrightarrow>
   al_running l' \<and> \<not> final_phase l'"
proof (induction as arbitrary: l)
  case (Cons a as)
  then obtain l1 where l1: "audit_act a l = Some l1" "audit_run as l1 = Some l'" by (auto split: option.splits)
  have "al_running l1 \<and> \<not> final_phase l1"
  proof (cases a)
    case Writer
    then show ?thesis using l1(1) Cons.prems(3,4)
      by (auto simp: audit_act_def drain_step_def final_phase_def split: option.splits writer_pc.splits list.splits)
  qed (use Cons.prems l1 in \<open>auto simp: audit_act_def log_event_def final_phase_def\<close>)
  then show ?case using Cons l1 by auto
qed simp

lemma stopping_act:
  assumes "audit_inv fs accepted ws l" and "\<not> al_running l" and "prefix E accepted" and "final_phase l \<longrightarrow> prefix E ws"
    and "audit_act a l = Some l'" and "audit_inv fs (accepted @ logged [a]) (ws @ ws') l'"
  shows "\<not> al_running l' \<and> (final_phase l' \<longrightarrow> prefix E (ws @ ws'))"
proof (cases a)
  case Writer
  then obtain pc where pc: "al_thread l = Some pc" "pc \<noteq> W_exit" "l' = drain_step pc l"
    using assms(5) by (auto simp: audit_act_def split: option.splits writer_pc.splits)
  have r: "\<not> al_running l'" using assms(2) pc(3) by (auto simp: drain_step_def split: writer_pc.splits list.splits)
  show ?thesis
  proof (cases "final_phase l")
    case False
    then have "final_phase l' \<Longrightarrow> pc = W_check \<and> al_buffer l = []"
      using pc by (auto simp: final_phase_def drain_step_def split: writer_pc.splits list.splits if_splits)
    then show ?thesis using assms(1,3) r pc(1) by (auto simp: audit_inv_def in_flight_def)
  qed (use assms(4) r in auto)
qed (use assms in \<open>auto simp: audit_act_def log_event_def stop_signal_def stop_join_def final_phase_def
      split: option.splits writer_pc.splits\<close>)

lemma stopping_run:
  "audit_inv fs accepted ws l \<Longrightarrow> \<not> al_running l \<Longrightarrow> prefix E accepted \<Longrightarrow> (final_phase l \<longrightarrow> prefix E ws) \<Longrightarrow>
   audit_run as l = Some l' \<Longrightarrow>
   \<exists>ws'. audit_inv fs (accepted @ logged as) ws' l' \<and> (final_phase l' \<longrightarrow> prefix E ws')"
proof (induction as arbitrary: accepted ws l)
  case (Cons a as)
  then obtain l1 where l1: "audit_act a l = Some l1" "audit_run as l1 = Some l'" by (auto split: option.splits)
  obtain ws1 where ws1: "audit_inv fs (accepted @ logged [a]) (ws @ ws1) l1" using audit_act_inv [OF Cons.prems(1) l1(1)] by blast
  have "prefix E (accepted @ logged [a])" using Cons.prems(3) by (simp add: prefix_prefix)
  with stopping_act [OF Cons.prems(1-4) l1(1) ws1] Cons.IH [OF ws1 _ _ _ l1(2)]
  obtain ws' where "audit_inv fs ((accepted @ logged [a]) @ logged as) ws' l'" "final_phase l' \<longrightarrow> prefix E ws'" by blast
  moreover have "logged [a] @ logged as = logged (a # as)" by (cases a) simp_all
  ultimately show ?case by (intro exI [of _ ws']) simp
qed auto

text \<open>Steps left to the writer once stopped, when nothing more is logged.\<close>

definition drain_left :: "audit_logger \<Rightarrow> nat" where
  "drain_left l =
     (case al_thread l of
        Some W_wait \<Rightarrow> length (al_buffer l) + 5
      | Some (W_write b) \<Rightarrow> length b + 1 + (if al_buffer l = [] then 3 else length (al_buffer l) + 6)
      | Some W_check \<Rightarrow> (if al_buffer l = [] then 3 else length (al_buffer l) + 6)
      | Some W_final \<Rightarrow> length (al_buffer l) + 2
      | Some (W_final_write b) \<Rightarrow> length b + 1
      | _ \<Rightarrow> 0)"

lemma drain_step_thread: "al_thread l = Some pc \<Longrightarrow> \<exists>pc'. al_thread (drain_step pc l) = Some pc'"
  by (cases pc; simp add: drain_step_def split: list.split)

lemma writer_exits:
  "al_thread l = Some pc \<Longrightarrow> \<not> al_running l \<Longrightarrow> \<exists>n l'. audit_run (replicate n Writer) l = Some l' \<and> al_thread l' = Some W_exit"
proof (induction "drain_left l" arbitrary: l pc rule: less_induct)
  case less
  show ?case
  proof (cases "pc = W_exit")
    case True
    then show ?thesis using less.prems(1) by (intro exI [of _ 0]) simp
  next
    case False
    have act: "audit_act Writer l = Some (drain_step pc l)"
      using less.prems(1) False by (simp add: audit_act_def split: writer_pc.splits)
    have "drain_left (drain_step pc l) < drain_left l"
      using less.prems False by (auto simp: drain_left_def drain_step_def split: writer_pc.splits list.splits)
    moreover have "\<not> al_running (drain_step pc l)"
      using less.prems(2) by (auto simp: drain_step_def split: writer_pc.splits list.splits)
    moreover obtain pc' where "al_thread (drain_step pc l) = Some pc'"
      using drain_step_thread [OF less.prems(1)] by blast
    ultimately obtain n l' where "audit_run (replicate n Writer) (drain_step pc l) = Some l'" "al_thread l' = Some W_exit"
      using less.hyps by blast
    then show ?thesis using act by (intro exI [of _ "Suc n"] exI [of _ l']) simp
  qed
qed

lemma logged_writers [simp]: "logged (replicate n Writer) = []"
  by (induction n) simp_all

text \<open>Stopping always succeeds; whatever the threads do until the writer exits, the files have received
  a sequence of events that begins with those accepted before, the rest is in the buffer.\<close>

lemma stop_writes_all:
  assumes "start_logger l0 = Some l1" and "Stop_signal \<notin> set as" and "Stop_join \<notin> set as" and "audit_run as l1 = Some l"
  shows "(\<exists>n l'. audit_run (Stop_signal # replicate n Writer @ [Stop_join]) l = Some l') \<and>
    (\<forall>mid l'. audit_run (Stop_signal # mid @ [Stop_join]) l = Some l' \<longrightarrow>
       (\<exists>ws. al_files l' = appended ws (al_files l0) \<and> prefix (al_buffer l0 @ logged as) ws \<and>
             ws @ al_buffer l' = al_buffer l0 @ logged as @ logged mid))"
proof -
  have l1: "al_thread l1 = Some W_wait" "al_running l1" "al_files l1 = al_files l0" "al_buffer l1 = al_buffer l0"
    using assms(1) by (auto simp: start_logger_def split: if_splits)
  have "appended [] fs = fs" for fs
    by (induction fs) (simp_all add: appended_def audit_lines_def)
  then have "audit_inv (al_files l0) (al_buffer l0) [] l1" using l1 by (simp add: audit_inv_def in_flight_def)
  from audit_run_inv [OF this assms(4)] obtain ws where inv: "audit_inv (al_files l0) (al_buffer l0 @ logged as) ws l" by auto
  have run: "al_running l" "\<not> final_phase l"
    using run_before_stop [OF assms(2,3) l1(2) _ assms(4)] l1(1) by (simp_all add: final_phase_def)
  obtain pc where pc: "al_thread l = Some pc" using run(2) by (auto simp: final_phase_def split: option.splits)
  let ?s = "stop_signal l"
  have s: "audit_act Stop_signal l = Some ?s" "\<not> al_running ?s" "al_thread ?s = Some pc" "\<not> final_phase ?s"
    "audit_inv (al_files l0) (al_buffer l0 @ logged as) ws ?s"
    using run pc inv by (auto simp: audit_act_def stop_signal_def final_phase_def audit_inv_def in_flight_def)
  obtain n l2 where "audit_run (replicate n Writer) ?s = Some l2" "al_thread l2 = Some W_exit"
    using writer_exits [OF s(3,2)] by blast
  then have "audit_run (Stop_signal # replicate n Writer @ [Stop_join]) l = Some (l2\<lparr>al_thread := None\<rparr>)"
    by (simp add: s(1) audit_run_append audit_act_def stop_join_def)
  moreover have "\<exists>ws. al_files l' = appended ws (al_files l0) \<and> prefix (al_buffer l0 @ logged as) ws \<and>
             ws @ al_buffer l' = al_buffer l0 @ logged as @ logged mid"
    if "audit_run (Stop_signal # mid @ [Stop_join]) l = Some l'" for mid l'
  proof -
    have r: "audit_run (mid @ [Stop_join]) ?s = Some l'" using that by (simp add: s(1))
    obtain ws' where ws': "audit_inv (al_files l0) ((al_buffer l0 @ logged as) @ logged (mid @ [Stop_join])) ws' l'"
      "final_phase l' \<longrightarrow> prefix (al_buffer l0 @ logged as) ws'"
      using stopping_run [OF s(5,2) prefix_order.refl _ r] s(4) by blast
    obtain l2 where "stop_join l2 = Some l'" using r by (auto simp: audit_run_append audit_act_def split: option.splits)
    then have "al_thread l' = None" by (auto simp: stop_join_def split: option.splits writer_pc.splits)
    then show ?thesis using ws' by (auto simp: audit_inv_def in_flight_def final_phase_def)
  qed
  ultimately show ?thesis by blast
qed


definition sample_event :: "string \<Rightarrow> audit_event" where
  "sample_event u = \<lparr>ae_timestamp = ''t'', ae_server = ''s'', ae_topic = ''document'', ae_username = u, ae_database = ''d'',
     ae_clientIp = ''i'', ae_authMethod = ''m'', ae_text = ''x''\<rparr>"

definition sample_logger :: audit_logger where
  "sample_logger = the (addOutput (\<lambda>_. True) OFile ''a.log'' AuditLogger)"

text \<open>One event is in flight and one in the buffer when the stop is signalled.\<close>

text \<open>C38. Stopping the logger always succeeds and loses nothing: after any interleaving of logging
  threads and the writer, enough steps of the writer let \<open>stop\<close> return; and whenever it returns,
  whatever else was logged in between, every open file has received, in order and once, a sequence
  of events that begins with all events accepted before the stop, and the events not written are
  exactly those left in the buffer.  Destroying a logger that was not stopped does the same, and
  without further events its files end with exactly the events accepted.\<close>

theorem audit_stop_complete:
  assumes "start_logger l0 = Some l1" and "Stop_signal \<notin> set as" and "Stop_join \<notin> set as" and "audit_run as l1 = Some l"
  shows "(\<exists>n l'. audit_run (Stop_signal # replicate n Writer @ [Stop_join]) l = Some l') \<and>
    (\<forall>mid l'. audit_run (Stop_signal # mid @ [Stop_join]) l = Some l' \<longrightarrow>
       (\<exists>ws. al_files l' = appended ws (al_files l0) \<and> prefix (al_buffer l0 @ logged as) ws \<and>
             ws @ al_buffer l' = al_buffer l0 @ logged as @ logged mid)) \<and>
    (\<exists>n. audit_destroy (replicate n Writer) l = Some (appended (al_buffer l0 @ logged as) (al_files l0))) \<and>
    (\<forall>mid files. logged mid = [] \<longrightarrow> audit_destroy mid l = Some files \<longrightarrow>
       files = appended (al_buffer l0 @ logged as) (al_files l0))"
proof -
  note st = stop_writes_all [OF assms]
  have "al_running l1" "\<not> final_phase l1"
    using assms(1) by (auto simp: start_logger_def final_phase_def split: if_splits)
  then have running: "al_running l" using run_before_stop [OF assms(2,3) _ _ assms(4)] by blast
  have destroyed: "files = appended (al_buffer l0 @ logged as) (al_files l0)"
    if "logged mid = []" "audit_destroy mid l = Some files" for mid files
    using st that running by (fastforce simp: audit_destroy_def prefix_def)
  moreover have "\<exists>n. audit_destroy (replicate n Writer) l = Some (appended (al_buffer l0 @ logged as) (al_files l0))"
  proof -
    obtain n l' where "audit_run (Stop_signal # replicate n Writer @ [Stop_join]) l = Some l'" using st by blast
    then have d: "audit_destroy (replicate n Writer) l = Some (al_files l')" by (simp add: audit_destroy_def running)
    with destroyed [OF _ d] show ?thesis by auto
  qed
  ultimately show ?thesis using st by blast
qed

theorem audit_stop_complete_witness:
  "\<exists>ws l'. audit_run ([Log (sample_event ''a''), Writer, Log (sample_event ''b'')] @ Stop_signal # replicate 9 Writer @ [Stop_join])
     (sample_logger\<lparr>al_running := True, al_thread := Some W_wait\<rparr>) = Some l' \<and>
     al_files l' = appended ws (al_files sample_logger) \<and> ws = [sample_event ''a'', sample_event ''b'']"
proof -
  let ?l1 = "sample_logger\<lparr>al_running := True, al_thread := Some W_wait\<rparr>"
  let ?as = "[Log (sample_event ''a''), Writer, Log (sample_event ''b'')]"
  have s: "start_logger sample_logger = Some ?l1"
    by (simp add: start_logger_def sample_logger_def addOutput_def AuditLogger_def)
  have "\<not> Option.is_none (audit_run ?as ?l1)" by code_simp
  then obtain l where l: "audit_run ?as ?l1 = Some l" by (auto simp: Option.is_none_def)
  have "\<not> Option.is_none (audit_run (?as @ Stop_signal # replicate 9 Writer @ [Stop_join]) ?l1)" by code_simp
  then obtain l' where l': "audit_run (?as @ Stop_signal # replicate 9 Writer @ [Stop_join]) ?l1 = Some l'"
    by (auto simp: Option.is_none_def)
  then have run: "audit_run (Stop_signal # replicate 9 Writer @ [Stop_join]) l = Some l'"
    unfolding audit_run_append [of ?as] l by (simp only: option.case)
  have no: "Stop_signal \<notin> set ?as" "Stop_join \<notin> set ?as" by simp_all
  have empty: "al_buffer sample_logger = []" by (simp add: sample_logger_def addOutput_def AuditLogger_def)
  obtain ws where "al_files l' = appended ws (al_files sample_logger)" "prefix (al_buffer sample_logger @ logged ?as) ws"
      "ws @ al_buffer l' = al_buffer sample_logger @ logged ?as @ logged (replicate 9 Writer)"
    using audit_stop_complete [OF s no l, THEN conjunct2, THEN conjunct1, rule_format, OF run] by blast
  then show ?thesis using l' by (auto simp: empty prefix_def)
qed

section \<open>What a line does not tell\<close>

text \<open>The separator and the end of line are not escaped: different events give one line, and one
  event the lines of two.\<close>

lemma lines_ambiguous:
  "format_event (e\<lparr>ae_username := u @ ''|'' @ d, ae_database := i\<rparr>) = format_event (e\<lparr>ae_username := u, ae_database := d @ ''|'' @ i\<rparr>)"
  by (simp add: format_event_def)

lemma line_injection: "audit_lines [e\<lparr>ae_text := t @ [CHR 0x0A] @ format_event e'\<rparr>] = audit_lines [e\<lparr>ae_text := t\<rparr>, e']"
  by (simp add: audit_lines_def format_event_def)

text \<open>What is logged after the writer has returned is never written.\<close>

lemma late_events_kept_in_buffer:
  assumes "al_thread l = None" and "audit_run (map Log es) l = Some l'"
  shows "al_files l' = al_files l \<and> al_buffer l' = al_buffer l @ es"
  using assms
proof (induction es arbitrary: l)
  case (Cons e es)
  then show ?case using Cons.IH [of "log_event e l"] by (simp add: audit_act_def log_event_def)
qed simp

section \<open>Outputs of the feature\<close>

lemma accepted_specs_open:
  "add_specs opens specs l = (None, l') \<Longrightarrow>
   al_files l' = al_files l @ map (\<lambda>spec. \<lparr>fo_path = drop 7 spec, fo_open = True, fo_text = []\<rparr>)
     (filter (\<lambda>spec. substr spec 0 7 = ''file://'') specs) \<and>
   al_buffer l' = al_buffer l \<and> al_thread l' = al_thread l"
  by (induction specs arbitrary: l) (auto simp: addOutput_def split: if_splits)

end
