(* ===== verification/Ldap.thy ===== *)
theory Ldap
  imports Prelude "HOL-Library.State_Monad"
begin

text \<open>
  LDAP authentication (\<^verbatim>\<open>Enterprise/Auth/LDAPHandler.cpp\<close>, \<^verbatim>\<open>LDAPConfig.cpp\<close>).  The handler calls
  the library only through its table \<open>LDAPFunctions\<close>, which is a parameter here: each entry maps the
  state of the library and the server to its answer and a new state.  The model is written in the
  state monad, over that state and the list of calls made, so that theorems can speak of how handles
  and credentials are used.  Handles and messages are numbers, a null pointer is \<open>None\<close>.
\<close>

section \<open>Configuration\<close>

datatype ldap_mode = Simple_mode | Search_mode

record ldap_config =
  lc_server :: string
  lc_port :: int
  lc_basedn :: string
  lc_binddn :: string
  lc_bindpasswd :: string
  lc_prefix :: string
  lc_suffix :: string
  lc_useTLS :: bool
  lc_useLDAPS :: bool
  lc_tlsCACertFile :: string
  lc_rolesAttribute :: string
  lc_rolesSearch :: string
  lc_mode :: ldap_mode

definition ldap_validate :: "ldap_config \<Rightarrow> string" where
  "ldap_validate c =
     (if lc_server c = [] then ''LDAP server address must not be empty''
      else if lc_port c < 1 \<or> lc_port c > 65535 then ''LDAP port must be between 1 and 65535''
      else if lc_mode c = Search_mode \<and> lc_binddn c = [] then ''binddn is required for search authentication mode''
      else if lc_mode c = Search_mode \<and> lc_basedn c = [] then ''basedn is required for search authentication mode''
      else if lc_useTLS c \<and> lc_useLDAPS c then ''Cannot enable both StartTLS and LDAPS simultaneously''
      else [])"

section \<open>The library\<close>

record 's ldap_functions =
  lf_initialize :: "string \<Rightarrow> 's \<Rightarrow> (int \<times> nat option) \<times> 's"
  lf_simpleBind :: "nat \<Rightarrow> string \<Rightarrow> string \<Rightarrow> 's \<Rightarrow> int \<times> 's"
  lf_searchExtS :: "nat \<Rightarrow> string \<Rightarrow> string \<Rightarrow> 's \<Rightarrow> (int \<times> nat option) \<times> 's"
  lf_setOption :: "nat \<Rightarrow> string \<Rightarrow> 's \<Rightarrow> int \<times> 's"
  lf_startTlsS :: "nat \<Rightarrow> 's \<Rightarrow> int \<times> 's"
  lf_unbindExt :: "nat \<Rightarrow> 's \<Rightarrow> int \<times> 's"
  lf_getDn :: "nat \<Rightarrow> nat \<Rightarrow> 's \<Rightarrow> string option \<times> 's"
  lf_firstEntry :: "nat \<Rightarrow> nat \<Rightarrow> 's \<Rightarrow> nat option \<times> 's"
  lf_getValuesLen :: "nat \<Rightarrow> nat \<Rightarrow> string \<Rightarrow> 's \<Rightarrow> string option list option \<times> 's"
  lf_msgfree :: "nat \<Rightarrow> 's \<Rightarrow> unit \<times> 's"

text \<open>The calls made on handles, with the arguments and results that matter.\<close>

datatype ldap_call =
    Initialize string int "nat option"
  | Set_option nat string
  | Start_tls nat int
  | Bind nat string string int
  | Search nat string string int
  | First_entry nat
  | Get_dn nat "string option"
  | Get_values nat string
  | Unbind nat
  | Msg_free nat

record 's ldap_world =
  lw_lib :: 's
  lw_calls :: "ldap_call list"

type_synonym ('s, 'a) ldap = "('s ldap_world, 'a) state"

definition lib_call :: "('s \<Rightarrow> 'a \<times> 's) \<Rightarrow> ('a \<Rightarrow> ldap_call) \<Rightarrow> ('s, 'a) ldap" where
  "lib_call f note_call = State (\<lambda>w. case f (lw_lib w) of
     (a, lib) \<Rightarrow> (a, \<lparr>lw_lib = lib, lw_calls = lw_calls w @ [note_call a]\<rparr>))"

definition initialize :: "'s ldap_functions \<Rightarrow> string \<Rightarrow> ('s, int \<times> nat option) ldap" where
  "initialize F uri = lib_call (lf_initialize F uri) (\<lambda>(rc, h). Initialize uri rc h)"

definition simpleBind :: "'s ldap_functions \<Rightarrow> nat \<Rightarrow> string \<Rightarrow> string \<Rightarrow> ('s, int) ldap" where
  "simpleBind F h dn pw = lib_call (lf_simpleBind F h dn pw) (\<lambda>rc. Bind h dn pw rc)"

definition searchExtS :: "'s ldap_functions \<Rightarrow> nat \<Rightarrow> string \<Rightarrow> string \<Rightarrow> ('s, int \<times> nat option) ldap" where
  "searchExtS F h base flt = lib_call (lf_searchExtS F h base flt) (\<lambda>(rc, _). Search h base flt rc)"

definition setOption :: "'s ldap_functions \<Rightarrow> nat \<Rightarrow> string \<Rightarrow> ('s, int) ldap" where
  "setOption F h v = lib_call (lf_setOption F h v) (\<lambda>_. Set_option h v)"

definition startTlsS :: "'s ldap_functions \<Rightarrow> nat \<Rightarrow> ('s, int) ldap" where
  "startTlsS F h = lib_call (lf_startTlsS F h) (\<lambda>rc. Start_tls h rc)"

definition unbindExt :: "'s ldap_functions \<Rightarrow> nat \<Rightarrow> ('s, int) ldap" where
  "unbindExt F h = lib_call (lf_unbindExt F h) (\<lambda>_. Unbind h)"

definition getDn :: "'s ldap_functions \<Rightarrow> nat \<Rightarrow> nat \<Rightarrow> ('s, string option) ldap" where
  "getDn F h e = lib_call (lf_getDn F h e) (\<lambda>dn. Get_dn h dn)"

definition firstEntry :: "'s ldap_functions \<Rightarrow> nat \<Rightarrow> nat \<Rightarrow> ('s, nat option) ldap" where
  "firstEntry F h msg = lib_call (lf_firstEntry F h msg) (\<lambda>_. First_entry h)"

definition getValuesLen :: "'s ldap_functions \<Rightarrow> nat \<Rightarrow> nat \<Rightarrow> string \<Rightarrow> ('s, string option list option) ldap" where
  "getValuesLen F h e attr = lib_call (lf_getValuesLen F h e attr) (\<lambda>_. Get_values h attr)"

definition msgfree :: "'s ldap_functions \<Rightarrow> nat \<Rightarrow> ('s, unit) ldap" where
  "msgfree F msg = lib_call (lf_msgfree F msg) (\<lambda>_. Msg_free msg)"

section \<open>The handler\<close>

text \<open>\<open>std::string::c_str\<close> handed to a C function ends at the first zero byte.\<close>

definition c_str :: "string \<Rightarrow> string" where
  "c_str s = takeWhile (\<lambda>c. c \<noteq> CHR 0x00) s"

abbreviation ret :: "'a \<Rightarrow> ('s, 'a) ldap" where "ret \<equiv> State_Monad.return"

definition destroyHandle :: "'s ldap_functions \<Rightarrow> nat option \<Rightarrow> ('s, unit) ldap" where
  "destroyHandle F handle =
     (case handle of None \<Rightarrow> ret () | Some h \<Rightarrow> do { _ \<leftarrow> unbindExt F h; ret () })"

definition dec_int :: "int \<Rightarrow> string" where
  "dec_int i = (if i < 0 then ''-'' @ dec (nat (- i)) else dec (nat i))"

definition createHandle :: "'s ldap_functions \<Rightarrow> ldap_config \<Rightarrow> ('s, nat option) ldap" where
  "createHandle F c =
     (let scheme = (if lc_useLDAPS c then ''ldaps'' else ''ldap'');
          uri = scheme @ ''://'' @ lc_server c @ '':'' @ dec_int (lc_port c)
      in do {
        (rc, handle) \<leftarrow> initialize F (c_str uri);
        (case handle of
           None \<Rightarrow> ret None
         | Some h \<Rightarrow>
             if rc \<noteq> 0 then ret None
             else do {
               _ \<leftarrow> (if lc_tlsCACertFile c \<noteq> [] then setOption F h (c_str (lc_tlsCACertFile c)) else ret 0);
               if lc_useTLS c \<and> \<not> lc_useLDAPS c
               then do {
                 rc \<leftarrow> startTlsS F h;
                 if rc \<noteq> 0 then do { _ \<leftarrow> destroyHandle F (Some h); ret None } else ret (Some h)
               }
               else ret (Some h)
             })
      })"

definition bindUser :: "'s ldap_functions \<Rightarrow> nat \<Rightarrow> string \<Rightarrow> string \<Rightarrow> ('s, bool) ldap" where
  "bindUser F h dn password = do { rc \<leftarrow> simpleBind F h (c_str dn) (c_str password); ret (rc = 0) }"

definition fetchRolesViaAttribute :: "'s ldap_functions \<Rightarrow> ldap_config \<Rightarrow> nat \<Rightarrow> string \<Rightarrow> ('s, string list) ldap" where
  "fetchRolesViaAttribute F c h userDn = do {
     (rc, result) \<leftarrow> searchExtS F h (c_str userDn) ''(objectClass=*)'';
     (case result of
        None \<Rightarrow> ret []
      | Some msg \<Rightarrow>
          if rc \<noteq> 0 then ret []
          else do {
            entry \<leftarrow> firstEntry F h msg;
            roles \<leftarrow> (case entry of
                        None \<Rightarrow> ret []
                      | Some e \<Rightarrow> do {
                          vals \<leftarrow> getValuesLen F h e (c_str (lc_rolesAttribute c));
                          ret (case vals of None \<Rightarrow> [] | Some vs \<Rightarrow> List.map_filter (\<lambda>v. case v of Some s \<Rightarrow> if s \<noteq> [] then Some s else None | None \<Rightarrow> None) vs)
                        });
            _ \<leftarrow> msgfree F msg;
            ret roles
          })
   }"

definition fetchRolesViaSearch :: "'s ldap_functions \<Rightarrow> ldap_config \<Rightarrow> nat \<Rightarrow> string \<Rightarrow> ('s, string list) ldap" where
  "fetchRolesViaSearch F c h userDn =
     (let flt = (case str_find (lc_rolesSearch c) ''{userDn}'' 0 of
                   None \<Rightarrow> lc_rolesSearch c
                 | Some pos \<Rightarrow> take pos (lc_rolesSearch c) @ userDn @ drop (pos + 8) (lc_rolesSearch c))
      in do {
        (rc, result) \<leftarrow> searchExtS F h (c_str (lc_basedn c)) (c_str flt);
        (case result of
           None \<Rightarrow> ret []
         | Some msg \<Rightarrow>
             if rc \<noteq> 0 then ret []
             else do {
               entry \<leftarrow> firstEntry F h msg;
               roles \<leftarrow> (case entry of
                           None \<Rightarrow> ret []
                         | Some e \<Rightarrow> do { dn \<leftarrow> getDn F h e; ret (case dn of None \<Rightarrow> [] | Some d \<Rightarrow> [d]) });
               _ \<leftarrow> msgfree F msg;
               ret roles
             })
      })"

definition fetchRoles :: "'s ldap_functions \<Rightarrow> ldap_config \<Rightarrow> nat \<Rightarrow> string \<Rightarrow> ('s, string list) ldap" where
  "fetchRoles F c h userDn =
     (if lc_rolesAttribute c \<noteq> [] then fetchRolesViaAttribute F c h userDn
      else if lc_rolesSearch c \<noteq> [] then fetchRolesViaSearch F c h userDn
      else ret [])"

text \<open>Binding, fetching the roles and closing the handle, as both modes end.\<close>

definition bind_and_fetch :: "'s ldap_functions \<Rightarrow> ldap_config \<Rightarrow> string \<Rightarrow> string \<Rightarrow> ('s, bool \<times> string list) ldap" where
  "bind_and_fetch F c dn password = do {
     handle \<leftarrow> createHandle F c;
     (case handle of
        None \<Rightarrow> ret (False, [])
      | Some h \<Rightarrow> do {
          bound \<leftarrow> bindUser F h dn password;
          if \<not> bound then do { _ \<leftarrow> destroyHandle F (Some h); ret (False, []) }
          else do {
            outRoles \<leftarrow> fetchRoles F c h dn;
            _ \<leftarrow> destroyHandle F (Some h);
            ret (True, outRoles)
          }
        })
   }"

text \<open>The distinguished name of the user, found with an administrator's handle; empty when not found.
  \<open>None\<close> where the administrator cannot bind.\<close>

definition find_user :: "'s ldap_functions \<Rightarrow> ldap_config \<Rightarrow> string \<Rightarrow> ('s, string option) ldap" where
  "find_user F c username = do {
     handle \<leftarrow> createHandle F c;
     (case handle of
        None \<Rightarrow> ret None
      | Some h \<Rightarrow> do {
          bound \<leftarrow> bindUser F h (lc_binddn c) (lc_bindpasswd c);
          if \<not> bound then do { _ \<leftarrow> destroyHandle F (Some h); ret None }
          else do {
            (rc, searchResult) \<leftarrow> searchExtS F h (c_str (lc_basedn c)) (c_str (''(uid='' @ username @ '')''));
            userDn \<leftarrow> (case searchResult of
                         None \<Rightarrow> ret []
                       | Some msg \<Rightarrow>
                           if rc \<noteq> 0 then ret []
                           else do {
                             entry \<leftarrow> firstEntry F h msg;
                             userDn \<leftarrow> (case entry of
                                          None \<Rightarrow> ret []
                                        | Some e \<Rightarrow> do { dn \<leftarrow> getDn F h e; ret (case dn of None \<Rightarrow> [] | Some d \<Rightarrow> d) });
                             _ \<leftarrow> msgfree F msg;
                             ret userDn
                           });
            _ \<leftarrow> destroyHandle F (Some h);
            ret (Some userDn)
          }
        })
   }"

definition authenticate :: "'s ldap_functions \<Rightarrow> ldap_config \<Rightarrow> string \<Rightarrow> string \<Rightarrow> ('s, bool \<times> string list) ldap" where
  "authenticate F c username password =
     (case lc_mode c of
        Simple_mode \<Rightarrow> bind_and_fetch F c (lc_prefix c @ username @ lc_suffix c) password
      | Search_mode \<Rightarrow> do {
          userDn \<leftarrow> find_user F c username;
          (case userDn of
             None \<Rightarrow> ret (False, [])
           | Some dn \<Rightarrow> if dn = [] then ret (False, []) else bind_and_fetch F c dn password)
        })"


section \<open>Reasoning about the calls\<close>

text \<open>\<open>lwp m Q cs\<close>: whatever the library answers, running \<open>m\<close> after the calls \<open>cs\<close> ends with \<open>Q\<close>.\<close>

definition lwp :: "('s, 'a) ldap \<Rightarrow> ('a \<Rightarrow> ldap_call list \<Rightarrow> bool) \<Rightarrow> ldap_call list \<Rightarrow> bool" where
  "lwp m Q cs \<longleftrightarrow> (\<forall>lib. case run_state m \<lparr>lw_lib = lib, lw_calls = cs\<rparr> of (a, w) \<Rightarrow> Q a (lw_calls w))"

named_theorems lwp_rules \<open>backward rules for the calls of the handler\<close>

lemma lwp_return [simp]: "lwp (ret a) Q cs = Q a cs"
  by (simp add: lwp_def)

lemma lwp_ret [lwp_rules]: "Q a cs \<Longrightarrow> lwp (ret a) Q cs"
  by simp

lemma lwp_bind [lwp_rules]: "lwp m (\<lambda>a. lwp (f a) Q) cs \<Longrightarrow> lwp (m \<bind> f) Q cs"
proof -
  assume m: "lwp m (\<lambda>a. lwp (f a) Q) cs"
  have "case run_state (m \<bind> f) \<lparr>lw_lib = lib, lw_calls = cs\<rparr> of (a, w) \<Rightarrow> Q a (lw_calls w)" for lib
  proof -
    obtain a w where aw: "run_state m \<lparr>lw_lib = lib, lw_calls = cs\<rparr> = (a, w)" by fastforce
    have "lwp (f a) Q (lw_calls w)" using m aw unfolding lwp_def by (auto split: prod.splits)
    then have "case run_state (f a) \<lparr>lw_lib = lw_lib w, lw_calls = lw_calls w\<rparr> of (b, v) \<Rightarrow> Q b (lw_calls v)"
      unfolding lwp_def by (rule spec)
    moreover have "\<lparr>lw_lib = lw_lib w, lw_calls = lw_calls w\<rparr> = w" by simp
    ultimately show ?thesis by (simp add: aw)
  qed
  then show ?thesis by (simp add: lwp_def)
qed

lemma lwp_mono: "lwp m Q cs \<Longrightarrow> (\<And>a cs'. Q a cs' \<Longrightarrow> Q' a cs') \<Longrightarrow> lwp m Q' cs"
  unfolding lwp_def by (fastforce split: prod.splits)

lemma lwp_lib_call: "(\<And>a. Q a (cs @ [note_call a])) \<Longrightarrow> lwp (lib_call f note_call) Q cs"
  by (simp add: lwp_def lib_call_def split: prod.splits)

lemma lwp_calls [lwp_rules]:
  "(\<And>rc h. Q1 (rc, h) (cs @ [Initialize uri rc h])) \<Longrightarrow> lwp (initialize F uri) Q1 cs"
  "(\<And>rc. Q2 rc (cs @ [Bind h dn pw rc])) \<Longrightarrow> lwp (simpleBind F h dn pw) Q2 cs"
  "(\<And>rc m. Q3 (rc, m) (cs @ [Search h base flt rc])) \<Longrightarrow> lwp (searchExtS F h base flt) Q3 cs"
  "(\<And>rc. Q4 rc (cs @ [Set_option h v])) \<Longrightarrow> lwp (setOption F h v) Q4 cs"
  "(\<And>rc. Q5 rc (cs @ [Start_tls h rc])) \<Longrightarrow> lwp (startTlsS F h) Q5 cs"
  "(\<And>rc. Q6 rc (cs @ [Unbind h])) \<Longrightarrow> lwp (unbindExt F h) Q6 cs"
  "(\<And>r. Q7 r (cs @ [Get_dn h r])) \<Longrightarrow> lwp (getDn F h e) Q7 cs"
  "(\<And>r. Q8 r (cs @ [First_entry h])) \<Longrightarrow> lwp (firstEntry F h msg) Q8 cs"
  "(\<And>r. Q9 r (cs @ [Get_values h attr])) \<Longrightarrow> lwp (getValuesLen F h e attr) Q9 cs"
  "Q10 () (cs @ [Msg_free msg]) \<Longrightarrow> lwp (msgfree F msg) Q10 cs"
  unfolding initialize_def simpleBind_def searchExtS_def setOption_def startTlsS_def unbindExt_def getDn_def
    firstEntry_def getValuesLen_def msgfree_def
  by (rule lwp_lib_call; auto)+

lemma lwp_if [lwp_rules]: "(b \<Longrightarrow> lwp m Q cs) \<Longrightarrow> (\<not> b \<Longrightarrow> lwp n Q cs) \<Longrightarrow> lwp (if b then m else n) Q cs"
  by simp

lemma lwp_option [lwp_rules]:
  "(x = None \<Longrightarrow> lwp m Q cs) \<Longrightarrow> (\<And>y. x = Some y \<Longrightarrow> lwp (f y) Q cs) \<Longrightarrow> lwp (case x of None \<Rightarrow> m | Some y \<Rightarrow> f y) Q cs"
  by (cases x) auto

lemma lwp_prod [lwp_rules]: "(\<And>a b. p = (a, b) \<Longrightarrow> lwp (f a b) Q cs) \<Longrightarrow> lwp (case p of (a, b) \<Rightarrow> f a b) Q cs"
  by (cases p) auto

section \<open>Handles and credentials\<close>

text \<open>The state of the one handle a request may hold: none, or one that is or is not protected; and
  misuse.  A bind needs a protected handle when protection is configured.\<close>

datatype handle_state = Misused | Idle | Open nat bool

fun handle_step :: "bool \<Rightarrow> handle_state \<Rightarrow> ldap_call \<Rightarrow> handle_state" where
  "handle_step req Idle (Initialize uri rc h) =
     (case h of None \<Rightarrow> Idle | Some i \<Rightarrow> if rc = 0 then Open i (prefix ''ldaps:'' uri) else Idle)"
| "handle_step req (Open i sec) (Set_option j v) = (if i = j then Open i sec else Misused)"
| "handle_step req (Open i sec) (Start_tls j rc) = (if i = j then Open i (sec \<or> rc = 0) else Misused)"
| "handle_step req (Open i sec) (Bind j dn pw rc) = (if i = j \<and> (req \<longrightarrow> sec) then Open i sec else Misused)"
| "handle_step req (Open i sec) (Search j base flt rc) = (if i = j then Open i sec else Misused)"
| "handle_step req (Open i sec) (First_entry j) = (if i = j then Open i sec else Misused)"
| "handle_step req (Open i sec) (Get_dn j dn) = (if i = j then Open i sec else Misused)"
| "handle_step req (Open i sec) (Get_values j attr) = (if i = j then Open i sec else Misused)"
| "handle_step req (Open i sec) (Unbind j) = (if i = j then Idle else Misused)"
| "handle_step req st (Msg_free m) = st"
| "handle_step req st call = Misused"

definition secure :: "ldap_config \<Rightarrow> bool" where
  "secure c \<longleftrightarrow> lc_useTLS c \<or> lc_useLDAPS c"

definition handle_state :: "ldap_config \<Rightarrow> ldap_call list \<Rightarrow> handle_state" where
  "handle_state c cs = foldl (handle_step (secure c)) Idle cs"

definition binds :: "ldap_call list \<Rightarrow> (string \<times> string \<times> int) list" where
  "binds cs = List.map_filter (\<lambda>x. case x of Bind h dn pw rc \<Rightarrow> Some (dn, pw, rc) | _ \<Rightarrow> None) cs"

lemma handle_state_simps [simp]:
  "handle_state c [] = Idle" "handle_state c (cs @ xs) = foldl (handle_step (secure c)) (handle_state c cs) xs"
  by (simp_all add: handle_state_def)

lemma binds_simps [simp]:
  "binds [] = []" "binds (cs @ xs) = binds cs @ binds xs"
  "binds (x # xs) = (case x of Bind h dn pw rc \<Rightarrow> [(dn, pw, rc)] | _ \<Rightarrow> []) @ binds xs"
  by (simp_all add: binds_def List.map_filter_def split: ldap_call.split)

definition protected_open :: "ldap_config \<Rightarrow> nat \<Rightarrow> ldap_call list \<Rightarrow> bool" where
  "protected_open c h cs \<longleftrightarrow> (\<exists>sec. handle_state c cs = Open h sec \<and> (secure c \<longrightarrow> sec))"

lemma c_str_scheme: "prefix ''ldaps:'' (c_str (''ldaps://'' @ s))"
  by (simp add: c_str_def)

lemma createHandle_spec:
  assumes "handle_state c cs = Idle"
  shows "lwp (createHandle F c)
    (\<lambda>r cs'. (case r of None \<Rightarrow> handle_state c cs' = Idle | Some h \<Rightarrow> protected_open c h cs') \<and> binds cs' = binds cs \<and> set cs \<subseteq> set cs') cs"
  unfolding createHandle_def Let_def destroyHandle_def option.case
  by (intro lwp_rules conjI) (use assms c_str_scheme in \<open>auto simp: protected_open_def secure_def\<close>)

lemma destroyHandle_spec:
  assumes "protected_open c h cs"
  shows "lwp (destroyHandle F (Some h)) (\<lambda>_ cs'. handle_state c cs' = Idle \<and> binds cs' = binds cs \<and> set cs \<subseteq> set cs') cs"
  unfolding destroyHandle_def option.case
  by (intro lwp_rules conjI) (use assms in \<open>auto simp: protected_open_def\<close>)

lemma bindUser_spec:
  assumes "protected_open c h cs"
  shows "lwp (bindUser F h dn pw)
    (\<lambda>ok cs'. protected_open c h cs' \<and> set cs \<subseteq> set cs' \<and> (\<exists>rc. binds cs' = binds cs @ [(c_str dn, c_str pw, rc)] \<and> ok = (rc = 0))) cs"
  unfolding bindUser_def
  by (intro lwp_rules conjI) (use assms in \<open>auto simp: protected_open_def\<close>)

lemma fetchRoles_spec:
  assumes "protected_open c h cs"
  shows "lwp (fetchRoles F c h dn) (\<lambda>_ cs'. protected_open c h cs' \<and> binds cs' = binds cs \<and> set cs \<subseteq> set cs') cs"
  unfolding fetchRoles_def fetchRolesViaAttribute_def fetchRolesViaSearch_def Let_def
  by (intro lwp_rules conjI) (use assms in \<open>auto simp: protected_open_def intro!: lwp_rules\<close>)


section \<open>Authentication\<close>

lemma lwp_seq: "lwp m R cs \<Longrightarrow> (\<And>a cs'. R a cs' \<Longrightarrow> lwp (f a) Q cs') \<Longrightarrow> lwp (m \<bind> f) Q cs"
  by (rule lwp_bind) (erule lwp_mono)

lemma bind_and_fetch_spec:
  assumes "handle_state c cs = Idle"
  shows "lwp (bind_and_fetch F c dn pw)
    (\<lambda>(ok, roles) cs'. handle_state c cs' = Idle \<and> set cs \<subseteq> set cs' \<and> (\<not> ok \<longrightarrow> roles = []) \<and>
       (ok \<longrightarrow> binds cs' = binds cs @ [(c_str dn, c_str pw, 0)]) \<and>
       (\<not> ok \<longrightarrow> binds cs' = binds cs \<or> (\<exists>rc. rc \<noteq> 0 \<and> binds cs' = binds cs @ [(c_str dn, c_str pw, rc)]))) cs"
  unfolding bind_and_fetch_def
  apply (rule lwp_seq [OF createHandle_spec [OF assms]])
  apply (rule lwp_option)
   apply simp
  apply (simp, elim conjE)
  apply (rule lwp_seq [OF bindUser_spec], assumption)
  apply (rule lwp_if)
   apply (elim conjE exE)
   apply (rule lwp_seq [OF destroyHandle_spec], assumption)
   apply auto[1]
  apply (elim conjE exE)
  apply (rule lwp_seq [OF fetchRoles_spec], assumption)
  apply (elim conjE)
  apply (rule lwp_seq [OF destroyHandle_spec], assumption)
  apply auto
  done

text \<open>The search for the user makes one bind, as the administrator.\<close>

lemma find_user_spec:
  assumes "handle_state c cs = Idle"
  shows "lwp (find_user F c username)
    (\<lambda>r cs'. handle_state c cs' = Idle \<and>
       (case r of None \<Rightarrow> binds cs' = binds cs \<or> (\<exists>rc. rc \<noteq> 0 \<and> binds cs' = binds cs @ [(c_str (lc_binddn c), c_str (lc_bindpasswd c), rc)])
        | Some dn \<Rightarrow> binds cs' = binds cs @ [(c_str (lc_binddn c), c_str (lc_bindpasswd c), 0)] \<and>
            (dn \<noteq> [] \<longrightarrow> (\<exists>h. Search h (c_str (lc_basedn c)) (c_str (''(uid='' @ username @ '')'')) 0 \<in> set cs' \<and> Get_dn h (Some dn) \<in> set cs')))) cs"
  unfolding find_user_def
  apply (rule lwp_seq [OF createHandle_spec [OF assms]])
  apply (rule lwp_option)
   apply simp
  apply (simp, elim conjE)
  apply (rule lwp_seq [OF bindUser_spec], assumption)
  apply (rule lwp_if)
   apply (elim conjE exE)
   apply (rule lwp_seq [OF destroyHandle_spec], assumption)
   apply auto[1]
  apply (elim conjE exE)
  apply (unfold destroyHandle_def option.case)
  apply (intro lwp_rules)
  apply (auto simp: protected_open_def split: option.splits)
  done

text \<open>When authentication succeeds or fails, in terms of the binds made.\<close>

definition decided :: "ldap_config \<Rightarrow> string \<Rightarrow> string \<Rightarrow> bool \<Rightarrow> ldap_call list \<Rightarrow> bool" where
  "decided c username password ok cs \<longleftrightarrow>
     (case lc_mode c of
        Simple_mode \<Rightarrow> ok = (binds cs = [(c_str (lc_prefix c @ username @ lc_suffix c), c_str password, 0)])
      | Search_mode \<Rightarrow>
          ok = (\<exists>dn h. dn \<noteq> [] \<and>
             binds cs = [(c_str (lc_binddn c), c_str (lc_bindpasswd c), 0), (c_str dn, c_str password, 0)] \<and>
             Search h (c_str (lc_basedn c)) (c_str (''(uid='' @ username @ '')'')) 0 \<in> set cs \<and> Get_dn h (Some dn) \<in> set cs))"

lemma authenticate_spec:
  "lwp (authenticate F c username password)
    (\<lambda>(ok, roles) cs. handle_state c cs = Idle \<and> (\<not> ok \<longrightarrow> roles = []) \<and> decided c username password ok cs) []"
proof (cases "lc_mode c")
  case Simple_mode
  have "lwp (bind_and_fetch F c (lc_prefix c @ username @ lc_suffix c) password)
    (\<lambda>(ok, roles) cs. handle_state c cs = Idle \<and> (\<not> ok \<longrightarrow> roles = []) \<and> decided c username password ok cs) []"
    by (rule lwp_mono [OF bind_and_fetch_spec]) (auto simp: decided_def Simple_mode)
  then show ?thesis by (simp add: authenticate_def Simple_mode)
next
  case Search_mode
  have "lwp (find_user F c username \<bind>
      (\<lambda>userDn. case userDn of None \<Rightarrow> ret (False, []) | Some dn \<Rightarrow> if dn = [] then ret (False, []) else bind_and_fetch F c dn password))
    (\<lambda>(ok, roles) cs. handle_state c cs = Idle \<and> (\<not> ok \<longrightarrow> roles = []) \<and> decided c username password ok cs) []"
    apply (rule lwp_seq [OF find_user_spec], simp)
    apply (rule lwp_option)
     apply (auto simp: decided_def Search_mode)[1]
    apply (rule lwp_if)
     apply (auto simp: decided_def Search_mode)[1]
    apply (simp, elim conjE exE)
    apply (rule lwp_mono [OF bind_and_fetch_spec], assumption)
    apply (auto simp: decided_def Search_mode)
    done
  then show ?thesis by (simp add: authenticate_def Search_mode)
qed


lemma lwpD: "lwp m Q cs \<Longrightarrow> Q (fst (run_state m \<lparr>lw_lib = lib, lw_calls = cs\<rparr>)) (lw_calls (snd (run_state m \<lparr>lw_lib = lib, lw_calls = cs\<rparr>)))"
  unfolding lwp_def by (auto split: prod.splits dest: spec [of _ lib])

text \<open>C19. Whatever the library and the server answer, a request uses its handles correctly: it holds at
  most one at a time, makes every call on the one it holds, has closed it at the end on every path,
  and where TLS or LDAPS is configured sends no credentials before the connection is protected.
\<close>

theorem handles_closed_and_protected:
  "handle_state c (lw_calls (snd (run_state (authenticate F c username password) \<lparr>lw_lib = lib, lw_calls = []\<rparr>))) = Idle"
  using lwpD [OF authenticate_spec [of F c username password], of lib] by (auto split: prod.splits)

text \<open>C39. A user is accepted exactly when the server accepted a bind with the user's password: in simple
  mode as the name between prefix and suffix, and that bind alone; in search mode as a name the
  server gave for the user to the administrator, after the administrator's own bind.  A user who is
  not accepted gets no roles.
\<close>

theorem authenticate_decides:
  "let r = run_state (authenticate F c username password) \<lparr>lw_lib = lib, lw_calls = []\<rparr>;
       ok = fst (fst r); roles = snd (fst r); cs = lw_calls (snd r)
   in (ok \<or> roles = []) \<and>
      ok = (case lc_mode c of
        Simple_mode \<Rightarrow> binds cs = [(c_str (lc_prefix c @ username @ lc_suffix c), c_str password, 0)]
      | Search_mode \<Rightarrow> \<exists>dn h. dn \<noteq> [] \<and>
             binds cs = [(c_str (lc_binddn c), c_str (lc_bindpasswd c), 0), (c_str dn, c_str password, 0)] \<and>
             Search h (c_str (lc_basedn c)) (c_str (''(uid='' @ username @ '')'')) 0 \<in> set cs \<and> Get_dn h (Some dn) \<in> set cs)"
  using lwpD [OF authenticate_spec [of F c username password], of lib]
  by (auto simp: Let_def decided_def split: prod.splits ldap_mode.splits)

section \<open>What is not checked\<close>

text \<open>A server that follows the protocol answers a bind with an empty password by success, without
  authenticating anybody.  The handler sends it and accepts the user.\<close>

lemma empty_password_accepted:
  assumes "lc_mode c = Simple_mode" and "\<not> lc_useTLS c" and "lc_tlsCACertFile c = []"
    and "\<And>uri lib. \<exists>h lib'. lf_initialize F uri lib = ((0, Some h), lib')"
    and "\<And>h dn lib. fst (lf_simpleBind F h dn [] lib) = 0"
  shows "fst (fst (run_state (authenticate F c username []) w))"
proof -
  obtain h lib where "lf_initialize F (c_str ((if lc_useLDAPS c then ''ldaps'' else ''ldap'') @ ''://'' @ lc_server c @ '':'' @ dec_int (lc_port c))) (lw_lib w) = ((0, Some h), lib)"
    using assms(4) by blast
  moreover have "c_str [] = []" by (simp add: c_str_def)
  ultimately show ?thesis
    using assms(1-3) assms(5) [of h "c_str (lc_prefix c @ username @ lc_suffix c)" lib]
    by (auto simp: authenticate_def bind_and_fetch_def createHandle_def bindUser_def Let_def initialize_def simpleBind_def
        lib_call_def split: prod.splits)
qed

text \<open>A zero byte in the name ends the distinguished name before the suffix.\<close>

lemma zero_byte_drops_suffix:
  "CHR 0x00 \<notin> set (pre @ u) \<Longrightarrow> c_str (pre @ (u @ [CHR 0x00]) @ suf) = pre @ u"
  unfolding c_str_def using takeWhile_upto [of "CHR 0x00" "pre @ u" suf] by simp

section \<open>A handler of one's own\<close>

text \<open>The constructor without a table fills it from the library, where the build has one; each entry passes
  its arguments on.  Without a library the functions of the table stay empty (\<open>None\<close>), and calling one
  throws.\<close>

definition LDAPHandler :: "'s ldap_functions option \<Rightarrow> 's ldap_functions option" where
  "LDAPHandler libldap =
     (case libldap of
        None \<Rightarrow> None
      | Some L \<Rightarrow> Some
          \<lparr>lf_initialize = (\<lambda>uri. lf_initialize L uri), lf_simpleBind = (\<lambda>ld dn passwd. lf_simpleBind L ld dn passwd),
           lf_searchExtS = (\<lambda>ld base flt. lf_searchExtS L ld base flt), lf_setOption = (\<lambda>ld v. lf_setOption L ld v),
           lf_startTlsS = (\<lambda>ld. lf_startTlsS L ld), lf_unbindExt = (\<lambda>ld. lf_unbindExt L ld),
           lf_getDn = (\<lambda>ld entry. lf_getDn L ld entry), lf_firstEntry = (\<lambda>ld chain. lf_firstEntry L ld chain),
           lf_getValuesLen = (\<lambda>ld entry attr. lf_getValuesLen L ld entry attr), lf_msgfree = (\<lambda>msg. lf_msgfree L msg)\<rparr>)"

text \<open>A request to such a handler; \<open>None\<close> is \<^verbatim>\<open>std::bad_function_call\<close>, thrown by the first call.\<close>

definition authenticate_default ::
  "'s ldap_functions option \<Rightarrow> ldap_config \<Rightarrow> string \<Rightarrow> string \<Rightarrow> ('s, (bool \<times> string list) option) ldap" where
  "authenticate_default libldap c username password =
     (case LDAPHandler libldap of
        None \<Rightarrow> ret None
      | Some F \<Rightarrow> do { r \<leftarrow> authenticate F c username password; ret (Some r) })"

lemma table_forwards [simp]: "LDAPHandler L = L"
proof (cases L)
  case (Some F)
  then show ?thesis by (cases F) (simp add: LDAPHandler_def)
qed (simp add: LDAPHandler_def)

lemma no_library_throws:
  "fst (run_state (authenticate_default L c username password) w) =
     (case L of None \<Rightarrow> None | Some F \<Rightarrow> Some (fst (run_state (authenticate F c username password) w)))"
  by (cases L) (simp_all add: authenticate_default_def State_Monad.bind_def State_Monad.return_def split: prod.splits)

end
