(* ===== verification/Rclone.thy ===== *)
theory Rclone
  imports Prelude
begin

text \<open>
  Cloud uploads (\<^verbatim>\<open>Enterprise/RClone\<close>): providers and configuration, the command line and
  environment of the rclone process, reading its progress, the loop that collects its output, and
  the feature that builds a configuration from options and environment variables.  What the
  operating system does is a parameter: the outcomes of \<open>pipe\<close> and \<open>posix_spawn\<close>, the sequence of
  \<open>poll\<close> results with what the reads deliver, and the status of the child.
\<close>

section \<open>Providers and configuration\<close>

datatype cloud_provider = S3 | AzureBlob | GCS

definition cloudProviderToRCloneType :: "cloud_provider \<Rightarrow> string" where
  "cloudProviderToRCloneType p = (case p of S3 \<Rightarrow> ''s3'' | AzureBlob \<Rightarrow> ''azureblob'' | GCS \<Rightarrow> ''google cloud storage'')"

definition parseCloudProvider :: "string \<Rightarrow> cloud_provider option" where
  "parseCloudProvider input =
     (if input = ''s3'' \<or> input = ''S3'' then Some S3
      else if input = ''azure'' \<or> input = ''azureblob'' \<or> input = ''Azure'' then Some AzureBlob
      else if input = ''gcs'' \<or> input = ''GCS'' then Some GCS
      else None)"

definition cloudProviderName :: "cloud_provider \<Rightarrow> string" where
  "cloudProviderName p = (case p of S3 \<Rightarrow> ''Amazon S3'' | AzureBlob \<Rightarrow> ''Azure Blob Storage'' | GCS \<Rightarrow> ''Google Cloud Storage'')"

record rclone_config =
  rc_provider :: cloud_provider
  rc_endpoint :: string
  rc_bucket :: string
  rc_pathPrefix :: string
  rc_region :: string
  rc_binaryPath :: string
  rc_timeoutSeconds :: u64
  rc_transfers :: u32
  rc_retries :: u32
  rc_accessKeyId :: string
  rc_secretAccessKey :: string
  rc_azureAccount :: string
  rc_azureKey :: string
  rc_gcsServiceAccountFile :: string

definition rclone_validate :: "rclone_config \<Rightarrow> string" where
  "rclone_validate c =
     (if rc_binaryPath c = [] then ''rclone binary path must not be empty (set --rclone-executable)''
      else if rc_bucket c = [] then ''bucket/container name must not be empty (set --rclone-bucket)''
      else case rc_provider c of
        S3 \<Rightarrow>
          if rc_accessKeyId c = [] then ''S3 access key ID must not be empty (set ARANGO_RCLONE_S3_ACCESS_KEY_ID)''
          else if rc_secretAccessKey c = [] then ''S3 secret access key must not be empty (set ARANGO_RCLONE_S3_SECRET_ACCESS_KEY)''
          else []
      | AzureBlob \<Rightarrow>
          if rc_azureAccount c = [] then ''Azure account must not be empty (set ARANGO_RCLONE_AZURE_ACCOUNT)''
          else if rc_azureKey c = [] then ''Azure key must not be empty (set ARANGO_RCLONE_AZURE_KEY)''
          else []
      | GCS \<Rightarrow>
          if rc_gcsServiceAccountFile c = []
          then ''GCS service account file must not be empty (set ARANGO_RCLONE_GCS_SERVICE_ACCOUNT_FILE)''
          else [])"

section \<open>The command and its environment\<close>

definition buildCommand :: "rclone_config \<Rightarrow> string \<Rightarrow> string list" where
  "buildCommand config localPath =
     (let remoteDest = ''remote:'' @ rc_bucket config;
          remoteDest = (if rc_pathPrefix config \<noteq> [] then remoteDest @ ''/'' @ rc_pathPrefix config else remoteDest)
      in [rc_binaryPath config, ''copy'', localPath, remoteDest, ''--progress'', ''--stats'', ''1s'',
          ''--transfers'', dec (unat (rc_transfers config)), ''--retries'', dec (unat (rc_retries config)),
          ''--timeout'', dec (unat (rc_timeoutSeconds config)) @ ''s'', ''--log-level'', ''INFO''])"

definition buildEnvironment :: "rclone_config \<Rightarrow> (string \<times> string) list" where
  "buildEnvironment config =
     (let env = [(''RCLONE_CONFIG_REMOTE_TYPE'', cloudProviderToRCloneType (rc_provider config))]
      in case rc_provider config of
           S3 \<Rightarrow>
             env @ [(''RCLONE_CONFIG_REMOTE_ACCESS_KEY_ID'', rc_accessKeyId config),
                    (''RCLONE_CONFIG_REMOTE_SECRET_ACCESS_KEY'', rc_secretAccessKey config)] @
             (if rc_endpoint config \<noteq> [] then [(''RCLONE_CONFIG_REMOTE_ENDPOINT'', rc_endpoint config)] else []) @
             (if rc_region config \<noteq> [] then [(''RCLONE_CONFIG_REMOTE_REGION'', rc_region config)] else [])
         | AzureBlob \<Rightarrow>
             env @ [(''RCLONE_CONFIG_REMOTE_ACCOUNT'', rc_azureAccount config), (''RCLONE_CONFIG_REMOTE_KEY'', rc_azureKey config)]
         | GCS \<Rightarrow>
             env @ [(''RCLONE_CONFIG_REMOTE_SERVICE_ACCOUNT_FILE'', rc_gcsServiceAccountFile config),
                    (''RCLONE_CONFIG_REMOTE_BUCKET_POLICY_ONLY'', ''true'')])"

text \<open>The strings handed to the child: those of this process, then ours.\<close>

definition child_environment :: "string list \<Rightarrow> (string \<times> string) list \<Rightarrow> string list" where
  "child_environment environ env = environ @ map (\<lambda>(key, val). key @ ''='' @ val) env"

section \<open>Progress lines\<close>

text \<open>The regular expression at one position.  Each of its parts ends where the next must begin, so
  there is nothing to try again: white space before a digit or a dot, a number before a blank, a word
  before a blank or before a comma and a blank, digits before a percent sign.\<close>

definition match_some :: "(char \<Rightarrow> bool) \<Rightarrow> string \<Rightarrow> string option" where
  "match_some P s = (if s \<noteq> [] \<and> P (hd s) then Some (dropWhile P s) else None)"

definition match_text :: "string \<Rightarrow> string \<Rightarrow> string option" where
  "match_text t s = (if prefix t s then Some (drop (length t) s) else None)"

definition num_char :: "char \<Rightarrow> bool" where
  "num_char c \<longleftrightarrow> is_digit c \<or> c = CHR ''.''"

text \<open>\<open>\S+, \<close>: a word of at least two characters, the last a comma, then a blank.\<close>

definition match_word_comma :: "string \<Rightarrow> string option" where
  "match_word_comma s =
     (let w = takeWhile (\<lambda>c. \<not> is_space c) s
      in if length w \<ge> 2 \<and> last w = CHR '','' then match_text '' '' (drop (length w) s) else None)"

definition match_progress :: "string \<Rightarrow> string option" where
  "match_progress s =
     Option.bind (match_text ''Transferred:'' s) (\<lambda>s.
     Option.bind (match_some is_space s) (\<lambda>s.
     Option.bind (match_some num_char s) (\<lambda>s.
     Option.bind (match_text '' '' s) (\<lambda>s.
     Option.bind (match_some (\<lambda>c. \<not> is_space c) s) (\<lambda>s.
     Option.bind (match_text '' / '' s) (\<lambda>s.
     Option.bind (match_some num_char s) (\<lambda>s.
     Option.bind (match_text '' '' s) (\<lambda>s.
     Option.bind (match_word_comma s) (\<lambda>s.
     let digits = takeWhile is_digit s
     in if digits \<noteq> [] \<and> prefix ''%'' (drop (length digits) s) then Some digits else None)))))))))"

text \<open>The leftmost match.\<close>

fun regex_search :: "string \<Rightarrow> string option" where
  "regex_search [] = match_progress []"
| "regex_search (c # cs) = (case match_progress (c # cs) of None \<Rightarrow> regex_search cs | Some d \<Rightarrow> Some d)"

text \<open>\<open>std::stoul\<close> throws above 64 bits, which is caught; the cast to \<open>uint32_t\<close> comes after it.\<close>

definition parseProgressLine :: "string \<Rightarrow> u32 option" where
  "parseProgressLine line =
     (case regex_search line of
        None \<Rightarrow> None
      | Some digits \<Rightarrow>
          (case stoull digits of
             None \<Rightarrow> None
           | Some v \<Rightarrow> let value = ucast v :: u32 in if value \<le> 100 then Some value else None))"

section \<open>Running the process\<close>

record rclone_result =
  rr_exitCode :: int
  rr_stdout :: string
  rr_stderr :: string
  rr_timedOut :: bool

datatype read_result = Data string | Eof | Read_error

text \<open>One \<open>poll\<close>: nothing in time, interrupted, another error, or what reading gives on the two
  descriptors that are ready.\<close>

datatype poll_result = Poll_timeout | Poll_interrupted | Poll_error | Poll_ready "read_result option" "read_result option"

record exec_state =
  ex_stdout :: string
  ex_stderr :: string
  ex_line :: string
  ex_out_open :: bool
  ex_err_open :: bool
  ex_openFds :: nat

text \<open>The inner loops over the complete lines of the buffer, for one end of line.\<close>

function take_lines :: "char \<Rightarrow> string \<Rightarrow> u32 list \<Rightarrow> string \<times> u32 list" where
  "take_lines eol lineBuffer percents =
     (case str_find lineBuffer [eol] 0 of
        None \<Rightarrow> (lineBuffer, percents)
      | Some pos \<Rightarrow>
          take_lines eol (drop (pos + 1) lineBuffer)
            (case parseProgressLine (take pos lineBuffer) of None \<Rightarrow> percents | Some p \<Rightarrow> percents @ [p]))"
  by pat_completeness auto
termination
proof (relation "measure (\<lambda>(eol, lineBuffer, percents). length lineBuffer)", goal_cases)
  case (2 eol lineBuffer percents pos)
  then show ?case using str_find_Some(2) [of lineBuffer "[eol]" 0 pos] by simp
qed simp

declare take_lines.simps [simp del]

definition read_stdout :: "bool \<Rightarrow> read_result \<Rightarrow> exec_state \<Rightarrow> exec_state \<times> u32 list" where
  "read_stdout callback r st =
     (case r of
        Data d \<Rightarrow>
          let st = st\<lparr>ex_stdout := ex_stdout st @ d\<rparr>
          in if callback
             then (case take_lines (CHR 0x0A) (ex_line st @ d) [] of (line, ps) \<Rightarrow>
                     case take_lines (CHR 0x0D) line ps of (line, ps) \<Rightarrow> (st\<lparr>ex_line := line\<rparr>, ps))
             else (st, [])
      | Eof \<Rightarrow> (st\<lparr>ex_out_open := False, ex_openFds := ex_openFds st - 1\<rparr>, [])
      | Read_error \<Rightarrow> (st, []))"

definition read_stderr :: "read_result \<Rightarrow> exec_state \<Rightarrow> exec_state" where
  "read_stderr r st =
     (case r of
        Data d \<Rightarrow> st\<lparr>ex_stderr := ex_stderr st @ d\<rparr>
      | Eof \<Rightarrow> st\<lparr>ex_err_open := False, ex_openFds := ex_openFds st - 1\<rparr>
      | Read_error \<Rightarrow> st)"

text \<open>The loop over the results of \<open>poll\<close>, with the percentages reported and whether it ended by a
  timeout.  A closed descriptor is not reported.  \<open>None\<close>: still running after the given results.\<close>

fun exec_loop :: "bool \<Rightarrow> poll_result list \<Rightarrow> exec_state \<Rightarrow> (exec_state \<times> u32 list \<times> bool) option" where
  "exec_loop callback [] st = (if ex_openFds st > 0 then None else Some (st, [], False))"
| "exec_loop callback (p # ps) st =
     (if \<not> ex_openFds st > 0 then Some (st, [], False)
      else case p of
        Poll_timeout \<Rightarrow> Some (st, [], True)
      | Poll_interrupted \<Rightarrow> exec_loop callback ps st
      | Poll_error \<Rightarrow> Some (st, [], False)
      | Poll_ready out err \<Rightarrow>
          let (st, qs) = (if ex_out_open st then (case out of None \<Rightarrow> (st, []) | Some r \<Rightarrow> read_stdout callback r st) else (st, []));
              st = (if ex_err_open st then (case err of None \<Rightarrow> st | Some r \<Rightarrow> read_stderr r st) else st)
          in map_option (\<lambda>(st', qs', t). (st', qs @ qs', t)) (exec_loop callback ps st))"

text \<open>The time \<open>poll\<close> waits, in \<open>int\<close> arithmetic.\<close>

definition poll_timeout :: "u64 \<Rightarrow> int" where
  "poll_timeout timeoutSeconds =
     (let timeoutMs = sint ((ucast timeoutSeconds :: u32) * 1000) in if timeoutMs \<le> 0 then 300000 else timeoutMs)"

text \<open>The operating system: the environment, the errors of \<open>pipe\<close> and of \<open>posix_spawn\<close> for an
  argument vector and an environment, the polls for a timeout, the exit status (\<open>None\<close> for a child
  ended by a signal).\<close>

record rclone_os =
  os_environ :: "string list"
  os_pipe_error :: "string option"
  os_spawn_error :: "string list \<Rightarrow> string list \<Rightarrow> string option"
  os_polls :: "int \<Rightarrow> poll_result list"
  os_exit :: "int option"

text \<open>What is returned once the loop has ended; after a timeout the child was killed and its status is not
  used.\<close>

definition exec_result :: "rclone_os \<Rightarrow> exec_state \<Rightarrow> bool \<Rightarrow> rclone_result" where
  "exec_result os st timedOut =
     (if \<not> timedOut
      then \<lparr>rr_exitCode = (case os_exit os of Some code \<Rightarrow> code | None \<Rightarrow> -1), rr_stdout = ex_stdout st,
            rr_stderr = ex_stderr st, rr_timedOut = False\<rparr>
      else \<lparr>rr_exitCode = -1, rr_stdout = ex_stdout st, rr_stderr = ex_stderr st, rr_timedOut = True\<rparr>)"

definition forkAndExec ::
  "rclone_os \<Rightarrow> string list \<Rightarrow> (string \<times> string) list \<Rightarrow> u64 \<Rightarrow> bool \<Rightarrow> (rclone_result \<times> u32 list) option" where
  "forkAndExec os args env timeoutSeconds callback =
     (if args = [] then Some (\<lparr>rr_exitCode = -1, rr_stdout = [], rr_stderr = ''empty command'', rr_timedOut = False\<rparr>, [])
      else case os_pipe_error os of
        Some msg \<Rightarrow> Some (\<lparr>rr_exitCode = -1, rr_stdout = [], rr_stderr = ''pipe() failed: '' @ msg, rr_timedOut = False\<rparr>, [])
      | None \<Rightarrow>
          (case os_spawn_error os args (child_environment (os_environ os) env) of
             Some msg \<Rightarrow> Some (\<lparr>rr_exitCode = -1, rr_stdout = [], rr_stderr = ''posix_spawn failed: '' @ msg, rr_timedOut = False\<rparr>, [])
           | None \<Rightarrow>
               map_option (\<lambda>(st, percents, timedOut). (exec_result os st timedOut, percents))
                 (exec_loop callback (os_polls os (poll_timeout timeoutSeconds))
                    \<lparr>ex_stdout = [], ex_stderr = [], ex_line = [], ex_out_open = True, ex_err_open = True, ex_openFds = 2\<rparr>)))"

definition execute :: "rclone_os \<Rightarrow> rclone_config \<Rightarrow> string \<Rightarrow> bool \<Rightarrow> (rclone_result \<times> u32 list) option" where
  "execute os config localPath callback =
     forkAndExec os (buildCommand config localPath) (buildEnvironment config) (rc_timeoutSeconds config) callback"


section \<open>The feature\<close>

record rclone_feature =
  rf_executable :: string
  rf_provider :: string
  rf_endpoint :: string
  rf_bucket :: string
  rf_pathPrefix :: string
  rf_region :: string
  rf_timeoutSeconds :: u64
  rf_transfers :: u64
  rf_retries :: u64
  rf_config :: "rclone_config option"
  rf_configured :: bool
  rf_validationError :: string

definition RCloneFeature :: rclone_feature where
  "RCloneFeature = \<lparr>rf_executable = ''rclone'', rf_provider = [], rf_endpoint = [], rf_bucket = [], rf_pathPrefix = [],
     rf_region = [], rf_timeoutSeconds = 300, rf_transfers = 4, rf_retries = 3, rf_config = None, rf_configured = False,
     rf_validationError = []\<rparr>"

definition rf_collectOptions :: "string list" where
  "rf_collectOptions = [''--rclone-executable'', ''--rclone-provider'', ''--rclone-endpoint'', ''--rclone-bucket'',
     ''--rclone-path-prefix'', ''--rclone-region'', ''--rclone-timeout'', ''--rclone-transfers'', ''--rclone-retries'']"

definition readEnv :: "(string \<Rightarrow> string option) \<Rightarrow> string \<Rightarrow> string" where
  "readEnv getenv name = (case getenv name of Some v \<Rightarrow> v | None \<Rightarrow> [])"

definition rf_validateOptions :: "(string \<Rightarrow> string option) \<Rightarrow> rclone_feature \<Rightarrow> rclone_feature" where
  "rf_validateOptions getenv f =
     (if rf_provider f = []
      then f\<lparr>rf_validationError := ''cloud provider not specified (set --rclone-provider)'', rf_configured := False\<rparr>
      else case parseCloudProvider (rf_provider f) of
        None \<Rightarrow> f\<lparr>rf_validationError := ''unsupported cloud provider '' @ [CHR 0x27] @ rf_provider f @ [CHR 0x27] @ '' (valid: s3, azure, gcs)'',
                  rf_configured := False\<rparr>
      | Some p \<Rightarrow>
          let cfg = \<lparr>rc_provider = p, rc_endpoint = rf_endpoint f, rc_bucket = rf_bucket f, rc_pathPrefix = rf_pathPrefix f,
                rc_region = rf_region f, rc_binaryPath = rf_executable f, rc_timeoutSeconds = rf_timeoutSeconds f,
                rc_transfers = ucast (rf_transfers f), rc_retries = ucast (rf_retries f),
                rc_accessKeyId = [], rc_secretAccessKey = [], rc_azureAccount = [], rc_azureKey = [], rc_gcsServiceAccountFile = []\<rparr>;
              cfg = (case p of
                S3 \<Rightarrow> cfg\<lparr>rc_accessKeyId := readEnv getenv ''ARANGO_RCLONE_S3_ACCESS_KEY_ID'',
                          rc_secretAccessKey := readEnv getenv ''ARANGO_RCLONE_S3_SECRET_ACCESS_KEY''\<rparr>
              | AzureBlob \<Rightarrow> cfg\<lparr>rc_azureAccount := readEnv getenv ''ARANGO_RCLONE_AZURE_ACCOUNT'',
                                 rc_azureKey := readEnv getenv ''ARANGO_RCLONE_AZURE_KEY''\<rparr>
              | GCS \<Rightarrow> cfg\<lparr>rc_gcsServiceAccountFile := readEnv getenv ''ARANGO_RCLONE_GCS_SERVICE_ACCOUNT_FILE''\<rparr>);
              error = rclone_validate cfg
          in if error \<noteq> [] then f\<lparr>rf_validationError := error, rf_configured := False\<rparr>
             else f\<lparr>rf_config := Some cfg, rf_configured := True, rf_validationError := []\<rparr>)"

definition rf_prepare :: "(string \<Rightarrow> bool) \<Rightarrow> rclone_feature \<Rightarrow> rclone_feature" where
  "rf_prepare exists_file f =
     (if \<not> rf_configured f then f
      else case rf_config f of
        None \<Rightarrow> f
      | Some c \<Rightarrow>
          if \<not> exists_file (rc_binaryPath c)
          then f\<lparr>rf_validationError := ''rclone binary not found at '' @ [CHR 0x27] @ rc_binaryPath c @ [CHR 0x27] @ '' (set --rclone-executable)'',
                 rf_configured := False\<rparr>
          else f)"

definition uploadBackup :: "rclone_os \<Rightarrow> rclone_feature \<Rightarrow> string \<Rightarrow> bool \<Rightarrow> (rclone_result \<times> u32 list) option" where
  "uploadBackup os f localBackupPath callback =
     (case (rf_configured f, rf_config f) of
        (True, Some c) \<Rightarrow> execute os c localBackupPath callback
      | _ \<Rightarrow> Some (\<lparr>rr_exitCode = -1, rr_stdout = [], rr_stderr = ''RClone feature is not configured'', rr_timedOut = False\<rparr>, []))"

definition isConfigured :: "rclone_feature \<Rightarrow> bool" where
  "isConfigured f = rf_configured f"

section \<open>Credentials\<close>

text \<open>The configuration without its credentials.\<close>

definition without_credentials :: "rclone_config \<Rightarrow> rclone_config" where
  "without_credentials c = c\<lparr>rc_accessKeyId := [], rc_secretAccessKey := [], rc_azureAccount := [], rc_azureKey := [],
     rc_gcsServiceAccountFile := []\<rparr>"

text \<open>What a program that reads its environment from the front sees.\<close>

definition getenv_of :: "string list \<Rightarrow> string \<Rightarrow> string option" where
  "getenv_of env key =
     map_option (drop (length key + 1)) (List.find (\<lambda>s. prefix (key @ ''='') s) env)"

lemma getenv_skip:
  "list_all (\<lambda>s. \<not> prefix (key @ ''='') s) env \<Longrightarrow> getenv_of (env @ env') key = getenv_of env' key"
  by (induction env) (auto simp: getenv_of_def)

lemma prefix_key_eq:
  "CHR ''='' \<notin> set k \<Longrightarrow> CHR ''='' \<notin> set k' \<Longrightarrow> prefix (k @ ''='') (k' @ CHR ''='' # v) \<longleftrightarrow> k = k'"
proof (induction k arbitrary: k')
  case Nil
  then show ?case by (cases k') auto
next
  case (Cons c k)
  then show ?case by (cases k') auto
qed

lemma getenv_overlay:
  assumes "list_all (\<lambda>(k, v). CHR ''='' \<notin> set k) env" and "CHR ''='' \<notin> set key"
  shows "getenv_of (map (\<lambda>(k, v). k @ ''='' @ v) env) key = map_of env key"
  using assms(1)
proof (induction env)
  case (Cons p env)
  obtain k v where p: "p = (k, v)" by fastforce
  show ?case
  proof (cases "k = key")
    case True
    then show ?thesis using prefix_key_eq [of key key v] assms(2) by (simp add: p getenv_of_def)
  next
    case False
    then have "\<not> prefix (key @ ''='') (k @ CHR ''='' # v)" using prefix_key_eq [of key k v] assms(2) Cons.prems p by auto
    then show ?thesis using Cons p False by (simp add: getenv_of_def)
  qed
qed (simp add: getenv_of_def)


lemma environment_keys: "list_all (\<lambda>(k, v). CHR ''='' \<notin> set k) (buildEnvironment c)"
  by (cases "rc_provider c") (simp_all add: buildEnvironment_def Let_def)

text \<open>A variable of this process hides ours.\<close>

lemma inherited_variable_wins:
  assumes "list_ex (\<lambda>s. prefix (key @ ''='') s) environ"
  shows "getenv_of (child_environment environ env) key = getenv_of environ key"
  using assms unfolding child_environment_def getenv_of_def by (induction environ) auto

text \<open>Credentials reach the upload only through its environment: the command line is the same
  whatever they are, and where this process has no variables of the names used, the child sees
  exactly the provider's variables, the configured credentials among them.
\<close>

theorem credentials_in_environment_only:
  assumes "\<forall>k \<in> fst ` set (buildEnvironment c). list_all (\<lambda>s. \<not> prefix (k @ ''='') s) environ"
  shows "buildCommand c path = buildCommand (without_credentials c) path \<and>
    (\<forall>k \<in> fst ` set (buildEnvironment c). getenv_of (child_environment environ (buildEnvironment c)) k = map_of (buildEnvironment c) k) \<and>
    (case rc_provider c of
       S3 \<Rightarrow> map_of (buildEnvironment c) ''RCLONE_CONFIG_REMOTE_ACCESS_KEY_ID'' = Some (rc_accessKeyId c) \<and>
             map_of (buildEnvironment c) ''RCLONE_CONFIG_REMOTE_SECRET_ACCESS_KEY'' = Some (rc_secretAccessKey c)
     | AzureBlob \<Rightarrow> map_of (buildEnvironment c) ''RCLONE_CONFIG_REMOTE_ACCOUNT'' = Some (rc_azureAccount c) \<and>
                    map_of (buildEnvironment c) ''RCLONE_CONFIG_REMOTE_KEY'' = Some (rc_azureKey c)
     | GCS \<Rightarrow> map_of (buildEnvironment c) ''RCLONE_CONFIG_REMOTE_SERVICE_ACCOUNT_FILE'' = Some (rc_gcsServiceAccountFile c))"
proof -
  have "buildCommand c path = buildCommand (without_credentials c) path"
    by (simp add: buildCommand_def without_credentials_def Let_def)
  moreover have "getenv_of (child_environment environ (buildEnvironment c)) k = map_of (buildEnvironment c) k"
    if "k \<in> fst ` set (buildEnvironment c)" for k
  proof -
    have "CHR ''='' \<notin> set k" using that environment_keys [of c] by (auto simp: list_all_iff)
    then show ?thesis
      using getenv_skip [of k environ] assms that getenv_overlay [OF environment_keys]
      by (auto simp: child_environment_def)
  qed
  moreover have "case rc_provider c of
       S3 \<Rightarrow> map_of (buildEnvironment c) ''RCLONE_CONFIG_REMOTE_ACCESS_KEY_ID'' = Some (rc_accessKeyId c) \<and>
             map_of (buildEnvironment c) ''RCLONE_CONFIG_REMOTE_SECRET_ACCESS_KEY'' = Some (rc_secretAccessKey c)
     | AzureBlob \<Rightarrow> map_of (buildEnvironment c) ''RCLONE_CONFIG_REMOTE_ACCOUNT'' = Some (rc_azureAccount c) \<and>
                    map_of (buildEnvironment c) ''RCLONE_CONFIG_REMOTE_KEY'' = Some (rc_azureKey c)
     | GCS \<Rightarrow> map_of (buildEnvironment c) ''RCLONE_CONFIG_REMOTE_SERVICE_ACCOUNT_FILE'' = Some (rc_gcsServiceAccountFile c)"
    by (cases "rc_provider c") (simp_all add: buildEnvironment_def Let_def)
  ultimately show ?thesis by blast
qed

definition sample_config :: rclone_config where
  "sample_config = \<lparr>rc_provider = AzureBlob, rc_endpoint = [], rc_bucket = ''b'', rc_pathPrefix = [], rc_region = [],
     rc_binaryPath = ''/r'', rc_timeoutSeconds = 300, rc_transfers = 4, rc_retries = 3, rc_accessKeyId = [],
     rc_secretAccessKey = [], rc_azureAccount = ''me'', rc_azureKey = ''secret'', rc_gcsServiceAccountFile = []\<rparr>"

theorem credentials_in_environment_only_witness:
  "getenv_of (child_environment [''HOME=/'', ''PATH=/bin''] (buildEnvironment sample_config)) ''RCLONE_CONFIG_REMOTE_KEY'' = Some ''secret''"
  using credentials_in_environment_only [of sample_config "[''HOME=/'', ''PATH=/bin'']"]
  by (simp add: buildEnvironment_def sample_config_def Let_def)

section \<open>The output of the process\<close>

lemma progress_le_100: "parseProgressLine line = Some p \<Longrightarrow> p \<le> 100"
  by (auto simp: parseProgressLine_def Let_def split: option.splits if_splits)

lemma take_lines_le_100:
  "\<forall>p \<in> set ps. p \<le> 100 \<Longrightarrow> take_lines eol buf ps = (buf', ps') \<Longrightarrow> \<forall>p \<in> set ps'. p \<le> 100"
proof (induction eol buf ps rule: take_lines.induct)
  case (1 eol buf ps)
  show ?case
  proof (cases "str_find buf [eol] 0")
    case None
    then show ?thesis using "1.prems" by (simp add: take_lines.simps)
  next
    case (Some pos)
    let ?ps = "case parseProgressLine (take pos buf) of None \<Rightarrow> ps | Some p \<Rightarrow> ps @ [p]"
    have "\<forall>p \<in> set ?ps. p \<le> 100"
      using "1.prems"(1) progress_le_100 [of "take pos buf"] by (cases "parseProgressLine (take pos buf)") auto
    moreover have "take_lines eol (drop (pos + 1) buf) ?ps = (buf', ps')"
      using "1.prems"(2) by (subst (asm) take_lines.simps) (simp add: Some)
    ultimately show ?thesis by (rule "1.IH" [OF Some])
  qed
qed

text \<open>What a stream delivers up to its end.\<close>

fun stream_text :: "read_result option list \<Rightarrow> string" where
  "stream_text [] = []"
| "stream_text (None # rs) = stream_text rs"
| "stream_text (Some (Data d) # rs) = d @ stream_text rs"
| "stream_text (Some Eof # rs) = []"
| "stream_text (Some Read_error # rs) = stream_text rs"

definition stdout_of :: "poll_result list \<Rightarrow> read_result option list" where
  "stdout_of ps = map (\<lambda>p. case p of Poll_ready out err \<Rightarrow> out | _ \<Rightarrow> None) ps"

definition stderr_of :: "poll_result list \<Rightarrow> read_result option list" where
  "stderr_of ps = map (\<lambda>p. case p of Poll_ready out err \<Rightarrow> err | _ \<Rightarrow> None) ps"

definition fds_ok :: "exec_state \<Rightarrow> bool" where
  "fds_ok st \<longleftrightarrow> ex_openFds st = of_bool (ex_out_open st) + of_bool (ex_err_open st)"

lemma read_stdout_effect:
  assumes "read_stdout cb r st = (st', qs)" and "ex_out_open st" and "fds_ok st"
  shows "fds_ok st'" and "ex_err_open st' = ex_err_open st" and "ex_stderr st' = ex_stderr st"
    and "ex_out_open st' = (r \<noteq> Eof)" and "ex_stdout st' = ex_stdout st @ (case r of Data d \<Rightarrow> d | _ \<Rightarrow> [])"
    and "\<forall>p \<in> set qs. p \<le> 100"
proof -
  have all: "fds_ok st' \<and> ex_err_open st' = ex_err_open st \<and> ex_stderr st' = ex_stderr st \<and> ex_out_open st' = (r \<noteq> Eof) \<and>
      ex_stdout st' = ex_stdout st @ (case r of Data d \<Rightarrow> d | _ \<Rightarrow> []) \<and> (\<forall>p \<in> set qs. p \<le> 100)"
  proof (cases r)
    case (Data d)
    show ?thesis
    proof (cases cb)
      case True
      obtain l1 p1 where 1: "take_lines (CHR 0x0A) (ex_line st @ d) [] = (l1, p1)" by fastforce
      obtain l2 p2 where 2: "take_lines (CHR 0x0D) l1 p1 = (l2, p2)" by fastforce
      have "\<forall>p \<in> set p1. p \<le> 100" using take_lines_le_100 [OF _ 1] by simp
      then have "\<forall>p \<in> set p2. p \<le> 100" using take_lines_le_100 [OF _ 2] by simp
      then show ?thesis using assms Data True 1 2 by (auto simp: read_stdout_def fds_ok_def Let_def)
    next
      case False
      then show ?thesis using assms Data by (auto simp: read_stdout_def fds_ok_def Let_def)
    qed
  next
    case Eof
    then show ?thesis using assms by (auto simp: read_stdout_def fds_ok_def)
  next
    case Read_error
    then show ?thesis using assms by (auto simp: read_stdout_def fds_ok_def)
  qed
  then show "fds_ok st'" "ex_err_open st' = ex_err_open st" "ex_stderr st' = ex_stderr st" "ex_out_open st' = (r \<noteq> Eof)"
    "ex_stdout st' = ex_stdout st @ (case r of Data d \<Rightarrow> d | _ \<Rightarrow> [])" "\<forall>p \<in> set qs. p \<le> 100" by blast+
qed

lemma read_stderr_effect:
  assumes "ex_err_open st" and "fds_ok st"
  shows "fds_ok (read_stderr r st)" and "ex_out_open (read_stderr r st) = ex_out_open st"
    and "ex_stdout (read_stderr r st) = ex_stdout st" and "ex_err_open (read_stderr r st) = (r \<noteq> Eof)"
    and "ex_stderr (read_stderr r st) = ex_stderr st @ (case r of Data d \<Rightarrow> d | _ \<Rightarrow> [])"
  using assms by (auto simp: read_stderr_def fds_ok_def split: read_result.splits)


lemma exec_loop_collects:
  assumes "fds_ok st" and "Poll_timeout \<notin> set ps" and "Poll_error \<notin> set ps"
    and "ex_out_open st \<Longrightarrow> Some Eof \<in> set (stdout_of ps)" and "ex_err_open st \<Longrightarrow> Some Eof \<in> set (stderr_of ps)"
  shows "\<exists>st' qs. exec_loop cb ps st = Some (st', qs, False) \<and>
    ex_stdout st' = ex_stdout st @ (if ex_out_open st then stream_text (stdout_of ps) else []) \<and>
    ex_stderr st' = ex_stderr st @ (if ex_err_open st then stream_text (stderr_of ps) else []) \<and> (\<forall>q \<in> set qs. q \<le> 100)"
  using assms
proof (induction ps arbitrary: st)
  case Nil
  then show ?case by (auto simp: stdout_of_def stderr_of_def fds_ok_def)
next
  case (Cons p ps)
  show ?case
  proof (cases "ex_openFds st > 0")
    case False
    then show ?thesis using Cons.prems(1) by (auto simp: fds_ok_def of_bool_def split: if_splits)
  next
    case True
    show ?thesis
    proof (cases p)
      case Poll_interrupted
      have heads: "stdout_of (p # ps) = None # stdout_of ps" "stderr_of (p # ps) = None # stderr_of ps"
        by (simp_all add: stdout_of_def stderr_of_def Poll_interrupted)
      have "exec_loop cb (p # ps) st = exec_loop cb ps st" using True by (simp add: Poll_interrupted)
      then show ?thesis using Cons.IH [of st] Cons.prems unfolding heads by auto
    next
      case (Poll_ready out err)
      obtain st1 qs1 where 1: "(if ex_out_open st then (case out of None \<Rightarrow> (st, []) | Some r \<Rightarrow> read_stdout cb r st) else (st, [])) = (st1, qs1)"
        by fastforce
      define st2 where "st2 = (if ex_err_open st1 then (case err of None \<Rightarrow> st1 | Some r \<Rightarrow> read_stderr r st1) else st1)"
      have s1: "fds_ok st1 \<and> ex_err_open st1 = ex_err_open st \<and> ex_stderr st1 = ex_stderr st \<and>
          ex_out_open st1 = (ex_out_open st \<and> out \<noteq> Some Eof) \<and>
          ex_stdout st1 = ex_stdout st @ (case out of Some (Data d) \<Rightarrow> if ex_out_open st then d else [] | _ \<Rightarrow> []) \<and> (\<forall>q \<in> set qs1. q \<le> 100)"
      proof (cases "ex_out_open st \<and> out \<noteq> None")
        case True
        then obtain r where r: "out = Some r" by blast
        have "read_stdout cb r st = (st1, qs1)" using 1 True r by simp
        from read_stdout_effect [OF this] True Cons.prems(1) show ?thesis by (simp add: r split: read_result.split)
      next
        case False
        then show ?thesis using 1 Cons.prems(1) by (auto split: if_splits option.splits read_result.splits)
      qed
      have s2: "fds_ok st2 \<and> ex_out_open st2 = ex_out_open st1 \<and> ex_stdout st2 = ex_stdout st1 \<and>
          ex_err_open st2 = (ex_err_open st1 \<and> err \<noteq> Some Eof) \<and>
          ex_stderr st2 = ex_stderr st1 @ (case err of Some (Data d) \<Rightarrow> if ex_err_open st1 then d else [] | _ \<Rightarrow> [])"
        using s1 read_stderr_effect [of st1] by (auto simp: st2_def split: option.split read_result.split)
      have out': "Some Eof \<in> set (stdout_of ps)" if "ex_out_open st2"
        using Cons.prems(4) that s1 s2 by (auto simp: stdout_of_def Poll_ready)
      have err': "Some Eof \<in> set (stderr_of ps)" if "ex_err_open st2"
        using Cons.prems(5) that s1 s2 by (auto simp: stderr_of_def Poll_ready)
      have step: "exec_loop cb (p # ps) st = map_option (\<lambda>(st', qs', t). (st', qs1 @ qs', t)) (exec_loop cb ps st2)"
        using True 1 by (simp add: Poll_ready st2_def Let_def)
      obtain st' qs where rec: "exec_loop cb ps st2 = Some (st', qs, False)"
          "ex_stdout st' = ex_stdout st2 @ (if ex_out_open st2 then stream_text (stdout_of ps) else [])"
          "ex_stderr st' = ex_stderr st2 @ (if ex_err_open st2 then stream_text (stderr_of ps) else [])" "\<forall>q \<in> set qs. q \<le> 100"
        using Cons.IH [of st2] s2 Cons.prems(2,3) out' err' by auto
      have outs: "stream_text (stdout_of (p # ps)) = (case out of Some (Data d) \<Rightarrow> d | _ \<Rightarrow> []) @ (if out = Some Eof then [] else stream_text (stdout_of ps))"
        by (auto simp: stdout_of_def Poll_ready split: option.split read_result.split)
      have errs: "stream_text (stderr_of (p # ps)) = (case err of Some (Data d) \<Rightarrow> d | _ \<Rightarrow> []) @ (if err = Some Eof then [] else stream_text (stderr_of ps))"
        by (auto simp: stderr_of_def Poll_ready split: option.split read_result.split)
      have "ex_stdout st' = ex_stdout st @ (if ex_out_open st then stream_text (stdout_of (p # ps)) else [])"
      proof (cases "ex_out_open st")
        case True
        then show ?thesis using s1 s2 rec(2) unfolding outs by (cases out) (auto split: read_result.split)
      next
        case False
        then show ?thesis using s1 s2 rec(2) by (simp split: option.split read_result.split)
      qed
      moreover have "ex_stderr st' = ex_stderr st @ (if ex_err_open st then stream_text (stderr_of (p # ps)) else [])"
      proof (cases "ex_err_open st")
        case True
        then show ?thesis using s1 s2 rec(3) unfolding errs by (cases err) (auto split: read_result.split)
      next
        case False
        then show ?thesis using s1 s2 rec(3) by (simp split: option.split read_result.split)
      qed
      moreover have "\<forall>q \<in> set (qs1 @ qs). q \<le> 100" using s1 rec(4) by auto
      moreover have "exec_loop cb (p # ps) st = Some (st', qs1 @ qs, False)" by (simp only: step rec(1)) simp
      ultimately show ?thesis by blast
    qed (use Cons.prems in auto)
  qed
qed


text \<open>C40. When the pipes and the process could be created, no wait ran out and the child closed both
  of its streams, the call returns, with the exit status of the child and everything it wrote to
  each stream, whatever the interleaving, and reports only percentages.
\<close>

theorem execute_collects_output:
  assumes "os_pipe_error os = None"
    and "os_spawn_error os (buildCommand c path) (child_environment (os_environ os) (buildEnvironment c)) = None"
    and "ps = os_polls os (poll_timeout (rc_timeoutSeconds c))" and "Poll_timeout \<notin> set ps" and "Poll_error \<notin> set ps"
    and "Some Eof \<in> set (stdout_of ps)" and "Some Eof \<in> set (stderr_of ps)"
  shows "\<exists>percents. execute os c path callback =
    Some (\<lparr>rr_exitCode = (case os_exit os of Some code \<Rightarrow> code | None \<Rightarrow> -1), rr_stdout = stream_text (stdout_of ps),
           rr_stderr = stream_text (stderr_of ps), rr_timedOut = False\<rparr>, percents) \<and> (\<forall>q \<in> set percents. q \<le> 100)"
proof -
  let ?st = "\<lparr>ex_stdout = [], ex_stderr = [], ex_line = [], ex_out_open = True, ex_err_open = True, ex_openFds = 2\<rparr>"
  have "fds_ok ?st" by (simp add: fds_ok_def)
  from exec_loop_collects [OF this assms(4,5), where cb = callback] assms(6,7)
  obtain st' qs where "exec_loop callback ps ?st = Some (st', qs, False)" "ex_stdout st' = stream_text (stdout_of ps)"
    "ex_stderr st' = stream_text (stderr_of ps)" "\<forall>q \<in> set qs. q \<le> 100" by auto
  moreover have "buildCommand c path \<noteq> []" by (simp add: buildCommand_def Let_def)
  ultimately show ?thesis using assms(1-3) by (auto simp: execute_def forkAndExec_def exec_result_def)
qed

definition progress_line :: string where
  "progress_line = ''Transferred:   1.5 MiB / 3.0 MiB, 50%, 1 MiB/s''"

definition sample_os :: rclone_os where
  "sample_os = \<lparr>os_environ = [''HOME=/''], os_pipe_error = None, os_spawn_error = (\<lambda>_ _. None),
     os_polls = (\<lambda>_. [Poll_ready (Some (Data (progress_line @ [CHR 0x0A]))) None, Poll_interrupted,
                     Poll_ready (Some Eof) (Some (Data ''warning'')), Poll_ready None (Some Eof)]),
     os_exit = Some 0\<rparr>"

theorem execute_collects_output_witness:
  "\<exists>percents. execute sample_os sample_config ''/b'' True =
    Some (\<lparr>rr_exitCode = 0, rr_stdout = progress_line @ [CHR 0x0A], rr_stderr = ''warning'', rr_timedOut = False\<rparr>, percents) \<and>
    (\<forall>q \<in> set percents. q \<le> 100)"
  using execute_collects_output [of sample_os sample_config "''/b''" "os_polls sample_os 0" True]
  by (simp add: sample_os_def stdout_of_def stderr_of_def)

lemma progress_line_matches: "match_progress progress_line = Some ''50''"
  by (simp add: progress_line_def match_progress_def match_text_def match_some_def match_word_comma_def num_char_def
      is_digit_def is_space_def Let_def)

lemma progress_line_read: "parseProgressLine progress_line = Some 50"
proof -
  have "regex_search progress_line = Some ''50''"
    using progress_line_matches by (simp add: progress_line_def)
  then show ?thesis by (simp add: parseProgressLine_def stoull_def undec_def)
qed

text \<open>A timeout keeps what was read and reports no exit status.\<close>

lemma timeout_result:
  assumes "os_pipe_error os = None" and "os_spawn_error os args (child_environment (os_environ os) env) = None" and "args \<noteq> []"
    and "os_polls os (poll_timeout t) = [Poll_ready (Some (Data d)) None, Poll_timeout]"
  shows "forkAndExec os args env t False = Some (\<lparr>rr_exitCode = -1, rr_stdout = d, rr_stderr = [], rr_timedOut = True\<rparr>, [])"
  using assms by (simp add: forkAndExec_def exec_result_def read_stdout_def Let_def)

text \<open>The time waited for large timeouts is another one: 4294968 seconds are 704 milliseconds.\<close>

lemma timeout_wraps: "poll_timeout 4294968 = 704"
  by (simp add: poll_timeout_def Let_def)

text \<open>A child that writes without end is never timed out, and a descriptor in error is polled forever.\<close>

lemma descriptor_error_spins:
  "exec_loop cb (replicate n (Poll_ready None None)) \<lparr>ex_stdout = [], ex_stderr = [], ex_line = [], ex_out_open = True, ex_err_open = True, ex_openFds = 2\<rparr> = None"
  by (induction n) (simp_all add: Let_def)

section \<open>The feature's state\<close>

text \<open>A configured feature holds a configuration that validates.\<close>

definition rf_wf :: "rclone_feature \<Rightarrow> bool" where
  "rf_wf f \<longleftrightarrow> (rf_configured f \<longrightarrow> (case rf_config f of Some c \<Rightarrow> rclone_validate c = [] | None \<Rightarrow> False))"

lemma rf_wf_initial: "rf_wf RCloneFeature"
  by (simp add: rf_wf_def RCloneFeature_def)

lemma rf_wf_validateOptions: "rf_wf (rf_validateOptions getenv f)"
  by (simp add: rf_validateOptions_def rf_wf_def Let_def split: option.split)

lemma rf_wf_prepare: "rf_wf f \<Longrightarrow> rf_wf (rf_prepare exists_file f)"
  by (cases "rf_config f") (simp_all add: rf_prepare_def rf_wf_def)

text \<open>After start-up the feature is configured exactly when the provider named is known, its
  configuration (options, and credentials from the environment only) validates and the binary
  exists; every other upload is refused without a process.
\<close>

theorem upload_only_when_configured:
  assumes "f = rf_prepare exists_file (rf_validateOptions getenv f0)"
  shows "(\<not> isConfigured f \<longrightarrow> uploadBackup os f path callback =
      Some (\<lparr>rr_exitCode = -1, rr_stdout = [], rr_stderr = ''RClone feature is not configured'', rr_timedOut = False\<rparr>, [])) \<and>
    (isConfigured f \<longrightarrow> (\<exists>c p. rf_config f = Some c \<and> rclone_validate c = [] \<and> exists_file (rc_binaryPath c) \<and>
      parseCloudProvider (rf_provider f0) = Some p \<and> rc_provider c = p \<and> uploadBackup os f path callback = execute os c path callback))"
proof -
  have "rf_configured f \<Longrightarrow> \<exists>c p. rf_config f = Some c \<and> rclone_validate c = [] \<and> exists_file (rc_binaryPath c) \<and>
      parseCloudProvider (rf_provider f0) = Some p \<and> rc_provider c = p"
    unfolding assms
    by (cases "parseCloudProvider (rf_provider f0)"; cases "the (parseCloudProvider (rf_provider f0))")
       (auto simp: rf_prepare_def rf_validateOptions_def Let_def split: if_splits)
  then show ?thesis by (auto simp: isConfigured_def uploadBackup_def split: option.split)
qed

theorem upload_only_when_configured_witness:
  "uploadBackup sample_os (rf_prepare (\<lambda>_. False) (rf_validateOptions (\<lambda>_. None) RCloneFeature)) ''/b'' False =
     Some (\<lparr>rr_exitCode = -1, rr_stdout = [], rr_stderr = ''RClone feature is not configured'', rr_timedOut = False\<rparr>, [])"
  using upload_only_when_configured [OF refl, of "\<lambda>_. False" "\<lambda>_. None" RCloneFeature sample_os "''/b''" False]
  by (simp add: isConfigured_def rf_prepare_def rf_validateOptions_def RCloneFeature_def)

end
