(* ===== verification/Local_Nodes.thy ===== *)
theory Local_Nodes
  imports Prelude
begin

text \<open>
  Local graph nodes of the query planner (\<^verbatim>\<open>Enterprise/Aql/LocalGraphNode.h\<close>,
  \<^verbatim>\<open>LocalTraversalNode.h/.cpp\<close>): the flags of the mixin, the data a node is serialised to, the three
  classes of nodes and the factory.  The estimates of memory are left out: they depend on the sizes
  and capacities the library gives its objects.
\<close>

section \<open>The state of a node\<close>

datatype graph_node_type = TRAVERSAL | SHORTEST_PATH | ENUMERATE_PATHS | Other_node_type int

record local_node_data =
  nd_nodeType :: graph_node_type
  nd_isLocalGraphNode :: bool
  nd_isUsedAsSatellite :: bool
  nd_clusterOneShardRuleEnabled :: bool
  nd_isSmart :: bool
  nd_isDisjoint :: bool
  nd_graphName :: string
  nd_collectionToShard :: "string \<rightharpoonup> string"
  nd_minDepth :: u64
  nd_maxDepth :: u64

record local_graph_node =
  ln_isLocalGraphNode :: bool
  ln_isUsedAsSatellite :: bool
  ln_clusterOneShardRuleEnabled :: bool
  ln_data :: local_node_data

text \<open>A node made without data; its type has no initialiser and is whatever the memory held.\<close>

definition default_node :: "graph_node_type \<Rightarrow> local_graph_node" where
  "default_node uninitialised =
     \<lparr>ln_isLocalGraphNode = True, ln_isUsedAsSatellite = False, ln_clusterOneShardRuleEnabled = False,
      ln_data = \<lparr>nd_nodeType = uninitialised, nd_isLocalGraphNode = True, nd_isUsedAsSatellite = False,
        nd_clusterOneShardRuleEnabled = False, nd_isSmart = False, nd_isDisjoint = False, nd_graphName = [],
        nd_collectionToShard = Map.empty, nd_minDepth = 1, nd_maxDepth = 1\<rparr>\<rparr>"

definition node_of_data :: "local_node_data \<Rightarrow> local_graph_node" where
  "node_of_data data =
     \<lparr>ln_isLocalGraphNode = True, ln_isUsedAsSatellite = False, ln_clusterOneShardRuleEnabled = False, ln_data = data\<rparr>"

definition setLocalGraphNode :: "bool \<Rightarrow> local_graph_node \<Rightarrow> local_graph_node" where
  "setLocalGraphNode v n = n\<lparr>ln_isLocalGraphNode := v\<rparr>"

definition setUsedAsSatellite :: "bool \<Rightarrow> local_graph_node \<Rightarrow> local_graph_node" where
  "setUsedAsSatellite v n = n\<lparr>ln_isUsedAsSatellite := v\<rparr>"

definition enableClusterOneShardRule :: "bool \<Rightarrow> local_graph_node \<Rightarrow> local_graph_node" where
  "enableClusterOneShardRule v n = n\<lparr>ln_clusterOneShardRuleEnabled := v\<rparr>"

definition setDepth :: "u64 \<Rightarrow> u64 \<Rightarrow> local_graph_node \<Rightarrow> local_graph_node" where
  "setDepth mn mx n = n\<lparr>ln_data := (ln_data n)\<lparr>nd_minDepth := mn, nd_maxDepth := mx\<rparr>\<rparr>"

definition setGraphName :: "string \<Rightarrow> local_graph_node \<Rightarrow> local_graph_node" where
  "setGraphName name n = n\<lparr>ln_data := (ln_data n)\<lparr>nd_graphName := name\<rparr>\<rparr>"

definition setSmart :: "bool \<Rightarrow> local_graph_node \<Rightarrow> local_graph_node" where
  "setSmart v n = n\<lparr>ln_data := (ln_data n)\<lparr>nd_isSmart := v\<rparr>\<rparr>"

definition setDisjoint :: "bool \<Rightarrow> local_graph_node \<Rightarrow> local_graph_node" where
  "setDisjoint v n = n\<lparr>ln_data := (ln_data n)\<lparr>nd_isDisjoint := v\<rparr>\<rparr>"

definition addCollectionToShard :: "string \<Rightarrow> string \<Rightarrow> local_graph_node \<Rightarrow> local_graph_node" where
  "addCollectionToShard collection shard n =
     n\<lparr>ln_data := (ln_data n)\<lparr>nd_collectionToShard := (nd_collectionToShard (ln_data n))(collection \<mapsto> shard)\<rparr>\<rparr>"

section \<open>Serialising\<close>

definition traversal_toData :: "local_graph_node \<Rightarrow> local_node_data" where
  "traversal_toData n = (ln_data n)\<lparr>nd_nodeType := TRAVERSAL, nd_isLocalGraphNode := True,
     nd_isUsedAsSatellite := ln_isUsedAsSatellite n, nd_clusterOneShardRuleEnabled := ln_clusterOneShardRuleEnabled n\<rparr>"

definition traversal_fromData :: "local_node_data \<Rightarrow> local_graph_node" where
  "traversal_fromData data = enableClusterOneShardRule (nd_clusterOneShardRuleEnabled data)
     (setUsedAsSatellite (nd_isUsedAsSatellite data) (node_of_data data))"

definition traversal_clone :: "local_graph_node \<Rightarrow> local_graph_node" where
  "traversal_clone n = traversal_fromData (traversal_toData n)"

definition paths_toData :: "local_graph_node \<Rightarrow> local_node_data" where
  "paths_toData n = (ln_data n)\<lparr>nd_nodeType := ENUMERATE_PATHS, nd_isLocalGraphNode := True,
     nd_isUsedAsSatellite := ln_isUsedAsSatellite n, nd_clusterOneShardRuleEnabled := ln_clusterOneShardRuleEnabled n\<rparr>"

definition paths_fromData :: "local_node_data \<Rightarrow> local_graph_node" where
  "paths_fromData data = enableClusterOneShardRule (nd_clusterOneShardRuleEnabled data)
     (setUsedAsSatellite (nd_isUsedAsSatellite data) (node_of_data data))"

definition paths_clone :: "local_graph_node \<Rightarrow> local_graph_node" where
  "paths_clone n = paths_fromData (paths_toData n)"

definition shortest_toData :: "local_graph_node \<Rightarrow> local_node_data" where
  "shortest_toData n = (ln_data n)\<lparr>nd_nodeType := SHORTEST_PATH, nd_isLocalGraphNode := True,
     nd_isUsedAsSatellite := ln_isUsedAsSatellite n, nd_clusterOneShardRuleEnabled := ln_clusterOneShardRuleEnabled n\<rparr>"

definition shortest_fromData :: "local_node_data \<Rightarrow> local_graph_node" where
  "shortest_fromData data = enableClusterOneShardRule (nd_clusterOneShardRuleEnabled data)
     (setUsedAsSatellite (nd_isUsedAsSatellite data) (node_of_data data))"

definition shortest_clone :: "local_graph_node \<Rightarrow> local_graph_node" where
  "shortest_clone n = shortest_fromData (shortest_toData n)"

section \<open>The factory\<close>

datatype create_result = TraversalNode | EnumeratePathsNode | ShortestPathNode | Create_error

record node_variant =
  nv_type :: create_result
  nv_traversal :: local_graph_node
  nv_enumeratePaths :: local_graph_node
  nv_shortestPath :: local_graph_node

definition createLocalGraphNode :: "graph_node_type \<Rightarrow> local_node_data \<Rightarrow> node_variant" where
  "createLocalGraphNode uninitialised data =
     (let result = \<lparr>nv_type = Create_error, nv_traversal = default_node uninitialised,
            nv_enumeratePaths = default_node uninitialised, nv_shortestPath = default_node uninitialised\<rparr>
      in case nd_nodeType data of
           TRAVERSAL \<Rightarrow> result\<lparr>nv_type := TraversalNode, nv_traversal := traversal_fromData data\<rparr>
         | ENUMERATE_PATHS \<Rightarrow> result\<lparr>nv_type := EnumeratePathsNode, nv_enumeratePaths := paths_fromData data\<rparr>
         | SHORTEST_PATH \<Rightarrow> result\<lparr>nv_type := ShortestPathNode, nv_shortestPath := shortest_fromData data\<rparr>
         | Other_node_type _ \<Rightarrow> result\<lparr>nv_type := Create_error\<rparr>)"

section \<open>What the three classes share\<close>

lemmas node_defs = node_of_data_def setUsedAsSatellite_def enableClusterOneShardRule_def setLocalGraphNode_def setDepth_def
  setGraphName_def setSmart_def setDisjoint_def addCollectionToShard_def

text \<open>Nodes that look the same through every accessor of the class.\<close>

definition same_node :: "local_graph_node \<Rightarrow> local_graph_node \<Rightarrow> bool" where
  "same_node n n' \<longleftrightarrow> ln_isUsedAsSatellite n = ln_isUsedAsSatellite n' \<and> ln_clusterOneShardRuleEnabled n = ln_clusterOneShardRuleEnabled n' \<and>
     nd_graphName (ln_data n) = nd_graphName (ln_data n') \<and> nd_isSmart (ln_data n) = nd_isSmart (ln_data n') \<and>
     nd_isDisjoint (ln_data n) = nd_isDisjoint (ln_data n') \<and> nd_collectionToShard (ln_data n) = nd_collectionToShard (ln_data n') \<and>
     nd_minDepth (ln_data n) = nd_minDepth (ln_data n') \<and> nd_maxDepth (ln_data n) = nd_maxDepth (ln_data n')"

locale local_node_class =
  fixes kind :: graph_node_type
    and to_data :: "local_graph_node \<Rightarrow> local_node_data"
    and from_data :: "local_node_data \<Rightarrow> local_graph_node"
  assumes kind_data: "nd_nodeType (to_data n) = kind"
    and local_data: "nd_isLocalGraphNode (to_data n)"
    and local_node: "ln_isLocalGraphNode (from_data d)"
    and data_node_data: "nd_nodeType d = kind \<Longrightarrow> to_data (from_data d) = d\<lparr>nd_isLocalGraphNode := True\<rparr>"
    and node_data_node: "same_node (from_data (to_data n)) n"
begin

lemma clone_clone: "to_data (from_data (to_data n)) = to_data n"
  using data_node_data [OF kind_data [of n]] local_data [of n] by (cases "to_data n") simp

lemma clone_same: "same_node (from_data (to_data n)) n \<and> ln_isLocalGraphNode (from_data (to_data n))"
  using node_data_node local_node by simp

end

interpretation traversal_node: local_node_class TRAVERSAL traversal_toData traversal_fromData
  by unfold_locales (simp_all add: traversal_toData_def traversal_fromData_def node_defs same_node_def)

interpretation paths_node: local_node_class ENUMERATE_PATHS paths_toData paths_fromData
  by unfold_locales (simp_all add: paths_toData_def paths_fromData_def node_defs same_node_def)

interpretation shortest_node: local_node_class SHORTEST_PATH shortest_toData shortest_fromData
  by unfold_locales (simp_all add: shortest_toData_def shortest_fromData_def node_defs same_node_def)

section \<open>Properties\<close>

text \<open>The node a variant carries, serialised by its own class.\<close>

definition variant_data :: "node_variant \<Rightarrow> local_node_data option" where
  "variant_data v = (case nv_type v of
     TraversalNode \<Rightarrow> Some (traversal_toData (nv_traversal v))
   | EnumeratePathsNode \<Rightarrow> Some (paths_toData (nv_enumeratePaths v))
   | ShortestPathNode \<Rightarrow> Some (shortest_toData (nv_shortestPath v))
   | Create_error \<Rightarrow> None)"

text \<open>Nothing of a serialised node is lost by the factory: for each of the three types the node it
  makes serialises, through its own class, to the data it was made from, marked local, and any other
  type is refused.
\<close>

theorem factory_round_trip:
  "variant_data (createLocalGraphNode u d) =
     (if nd_nodeType d \<in> {TRAVERSAL, ENUMERATE_PATHS, SHORTEST_PATH} then Some (d\<lparr>nd_isLocalGraphNode := True\<rparr>) else None)"
  by (cases "nd_nodeType d")
     (simp_all add: createLocalGraphNode_def variant_data_def Let_def traversal_node.data_node_data
       paths_node.data_node_data shortest_node.data_node_data)

text \<open>The flag that says a node is local is not serialised: switched off it comes back on.\<close>

lemma clone_is_local_again:
  "ln_isLocalGraphNode (traversal_clone (setLocalGraphNode False n)) \<and> \<not> ln_isLocalGraphNode (setLocalGraphNode False n)"
  by (simp add: traversal_clone_def traversal_fromData_def node_defs)

end
