(* ===== verification/Access_Bypass.thy ===== *)
theory Access_Bypass
  imports Prelude
begin

text \<open>
  Three small parts of the server: the transaction and the write methods of the replication context
  (\<^verbatim>\<open>Enterprise/Transaction\<close>), the license (\<^verbatim>\<open>Enterprise/License\<close>), and the TLS options (\<^verbatim>\<open>Enterprise/Ssl\<close>), whose base class is a
  parameter.
\<close>

section \<open>Transactions (IgnoreNoAccessAqlTransaction)\<close>

text \<open>A transaction object is its flag \<open>_active\<close>.\<close>

type_synonym txn = bool

definition checkAccess :: "txn \<Rightarrow> string \<Rightarrow> int \<Rightarrow> int" where
  "checkAccess active collectionName accessMode = 0"

definition txn_begin :: "txn \<Rightarrow> txn \<times> int" where
  "txn_begin active = (if active then (active, 1) else (True, 0))"

definition txn_commit :: "txn \<Rightarrow> txn \<times> int" where
  "txn_commit active = (if \<not> active then (active, 1) else (False, 0))"

definition txn_abort :: "txn \<Rightarrow> txn \<times> int" where
  "txn_abort active = (False, 0)"

definition txn_destroy :: "txn \<Rightarrow> txn" where
  "txn_destroy active = (if active then fst (txn_abort active) else active)"

text \<open>The moved-to object and the moved-from one.\<close>

definition txn_move :: "txn \<Rightarrow> txn \<times> txn" where
  "txn_move other = (other, False)"

definition txn_move_assign :: "txn \<Rightarrow> txn \<Rightarrow> txn \<times> txn" where
  "txn_move_assign this other = (let this = (if this then fst (txn_abort this) else this) in (other, False))"

text \<open>Any use of any number of objects, each with its index; \<open>None\<close> is an object that is gone.\<close>

datatype txn_op = Construct | Begin nat | Commit nat | Abort nat | Move nat | Move_assign nat nat | Destroy nat

fun txn_step :: "txn option list \<Rightarrow> txn_op \<Rightarrow> (txn option list \<times> int) option" where
  "txn_step ts Construct = Some (ts @ [Some False], 0)"
| "txn_step ts (Begin i) = (if i < length ts then map_option (\<lambda>t. (ts[i := Some (fst (txn_begin t))], snd (txn_begin t))) (ts ! i) else None)"
| "txn_step ts (Commit i) = (if i < length ts then map_option (\<lambda>t. (ts[i := Some (fst (txn_commit t))], snd (txn_commit t))) (ts ! i) else None)"
| "txn_step ts (Abort i) = (if i < length ts then map_option (\<lambda>t. (ts[i := Some (fst (txn_abort t))], snd (txn_abort t))) (ts ! i) else None)"
| "txn_step ts (Move i) =
     (if i < length ts then map_option (\<lambda>t. (ts[i := Some (snd (txn_move t))] @ [Some (fst (txn_move t))], 0)) (ts ! i) else None)"
| "txn_step ts (Move_assign i j) =
     (if i < length ts \<and> j < length ts
      then (case (ts ! i, ts ! j) of
              (Some a, Some b) \<Rightarrow>
                if i = j then Some (ts, 0)
                else Some (ts[i := Some (fst (txn_move_assign a b)), j := Some (snd (txn_move_assign a b))], 0)
            | _ \<Rightarrow> None)
      else None)"
| "txn_step ts (Destroy i) = (if i < length ts then map_option (\<lambda>t. (ts[i := None], 0)) (ts ! i) else None)"

text \<open>What a step does to the number of open transactions: one more, or one committed, or one rolled back.\<close>

definition opened :: "txn option list \<Rightarrow> txn_op \<Rightarrow> nat" where
  "opened ts op' = (case op' of Begin i \<Rightarrow> of_bool (ts ! i = Some False) | _ \<Rightarrow> 0)"

definition committed :: "txn option list \<Rightarrow> txn_op \<Rightarrow> nat" where
  "committed ts op' = (case op' of Commit i \<Rightarrow> of_bool (ts ! i = Some True) | _ \<Rightarrow> 0)"

definition rolled_back :: "txn option list \<Rightarrow> txn_op \<Rightarrow> nat" where
  "rolled_back ts op' = (case op' of
     Abort i \<Rightarrow> of_bool (ts ! i = Some True)
   | Destroy i \<Rightarrow> of_bool (ts ! i = Some True)
   | Move_assign i j \<Rightarrow> of_bool (i \<noteq> j \<and> ts ! i = Some True)
   | _ \<Rightarrow> 0)"

fun txn_run :: "txn option list \<Rightarrow> txn_op list \<Rightarrow> (txn option list \<times> nat \<times> nat \<times> nat) option" where
  "txn_run ts [] = Some (ts, 0, 0, 0)"
| "txn_run ts (x # xs) =
     (case txn_step ts x of
        None \<Rightarrow> None
      | Some (ts', rc) \<Rightarrow>
          map_option (\<lambda>(ts'', b, c, a). (ts'', opened ts x + b, committed ts x + c, rolled_back ts x + a)) (txn_run ts' xs))"

abbreviation active_count :: "txn option list \<Rightarrow> nat" where
  "active_count ts \<equiv> count_list ts (Some True)"

lemma count_list_update:
  "i < length xs \<Longrightarrow> count_list (xs[i := y]) x + of_bool (xs ! i = x) = count_list xs x + of_bool (y = x)"
proof (induction xs arbitrary: i)
  case (Cons a xs)
  then show ?case by (cases i) auto
qed simp

lemma txn_step_count:
  assumes "txn_step ts x = Some (ts', rc)"
  shows "active_count ts' + committed ts x + rolled_back ts x = active_count ts + opened ts x"
proof (cases x)
  case (Move_assign i j)
  show ?thesis
  proof (cases "i = j")
    case True
    then show ?thesis using assms by (auto simp: Move_assign opened_def committed_def rolled_back_def split: if_splits option.splits)
  next
    case False
    then obtain a b where ij: "i < length ts" "j < length ts" "ts ! i = Some a" "ts ! j = Some b"
        and ts': "ts' = ts[i := Some b, j := Some False]"
      using assms by (auto simp: Move_assign txn_move_assign_def split: if_splits option.splits)
    show ?thesis
      using count_list_update [of i ts "Some b" "Some True"] count_list_update [of j "ts[i := Some b]" "Some False" "Some True"] ij False
      by (simp add: Move_assign opened_def committed_def rolled_back_def ts')
  qed
next
  case (Move i)
  then obtain a where i: "i < length ts" "ts ! i = Some a" and ts': "ts' = ts[i := Some False] @ [Some a]"
    using assms by (auto simp: txn_move_def split: if_splits)
  show ?thesis
    using count_list_update [of i ts "Some False" "Some True"] i by (cases a) (simp_all add: Move opened_def committed_def rolled_back_def ts')
next
  case (Begin i)
  then obtain a where i: "i < length ts" "ts ! i = Some a" "ts' = ts[i := Some True]"
    using assms by (auto simp: txn_begin_def split: if_splits)
  show ?thesis
    using count_list_update [of i ts "Some True" "Some True"] i by (auto simp: Begin opened_def committed_def rolled_back_def)
next
  case (Commit i)
  then obtain a where i: "i < length ts" "ts ! i = Some a" "ts' = ts[i := Some False]"
    using assms by (auto simp: txn_commit_def split: if_splits)
  show ?thesis
    using count_list_update [of i ts "Some False" "Some True"] i by (auto simp: Commit opened_def committed_def rolled_back_def)
next
  case (Abort i)
  then obtain a where i: "i < length ts" "ts ! i = Some a" "ts' = ts[i := Some False]"
    using assms by (auto simp: txn_abort_def split: if_splits)
  show ?thesis
    using count_list_update [of i ts "Some False" "Some True"] i by (auto simp: Abort opened_def committed_def rolled_back_def)
next
  case (Destroy i)
  then obtain a where i: "i < length ts" "ts ! i = Some a" "ts' = ts[i := None]"
    using assms by (auto split: if_splits)
  show ?thesis
    using count_list_update [of i ts None "Some True"] i by (auto simp: Destroy opened_def committed_def rolled_back_def)
qed (use assms in \<open>auto simp: opened_def committed_def rolled_back_def\<close>)

text \<open>However objects are made, moved, assigned and destroyed, no open transaction is lost or
  duplicated: those begun are those committed, those rolled back and those some object still holds.
\<close>

theorem transactions_accounted:
  assumes "txn_run [] ops = Some (ts, begun, ended, undone)"
  shows "begun = ended + undone + active_count ts"
proof -
  have "active_count ts + ended + undone = active_count ts0 + begun" if "txn_run ts0 ops = Some (ts, begun, ended, undone)" for ts0 begun ended undone
    using that
  proof (induction ops arbitrary: ts0 begun ended undone)
    case (Cons x xs)
    then obtain ts' rc where step: "txn_step ts0 x = Some (ts', rc)" by (auto split: option.splits)
    obtain b c a where run: "txn_run ts' xs = Some (ts, b, c, a)"
        and sums: "begun = opened ts0 x + b" "ended = committed ts0 x + c" "undone = rolled_back ts0 x + a"
      using Cons.prems by (auto simp: step)
    show ?case using Cons.IH [OF run] txn_step_count [OF step] sums by simp
  qed simp
  from this [OF assms] show ?thesis by simp
qed

theorem transactions_accounted_witness:
  "txn_run [] [Construct, Begin 0, Construct, Begin 1, Move_assign 1 0, Commit 0, Move 1, Commit 2] =
     Some ([Some False, Some False, Some False], 2, 1, 1) \<and> (2::nat) = 1 + 1 + active_count [Some False, Some False, Some False]"
  using transactions_accounted [of "[Construct, Begin 0, Construct, Begin 1, Move_assign 1 0, Commit 0, Move 1, Commit 2]"
    "[Some False, Some False, Some False]" 2 1 1]
  by (simp add: txn_begin_def txn_commit_def txn_move_def txn_move_assign_def opened_def committed_def rolled_back_def)

section \<open>Writes without access checks (IgnoreNoAccessMethods)\<close>

type_synonym methods = u64

definition executeBypass :: "methods \<Rightarrow> string \<Rightarrow> string \<Rightarrow> bytes \<Rightarrow> methods \<times> int" where
  "executeBypass operationCount collectionName operationType data =
     (if collectionName = [] then (operationCount, 1) else (operationCount + 1, 0))"

definition methods_insert :: "methods \<Rightarrow> string \<Rightarrow> bytes \<Rightarrow> methods \<times> int" where
  "methods_insert n collectionName documentData = executeBypass n collectionName ''insert'' documentData"

definition methods_update :: "methods \<Rightarrow> string \<Rightarrow> bytes \<Rightarrow> methods \<times> int" where
  "methods_update n collectionName documentData = executeBypass n collectionName ''update'' documentData"

definition methods_remove :: "methods \<Rightarrow> string \<Rightarrow> string \<Rightarrow> methods \<times> int" where
  "methods_remove n collectionName documentKey = executeBypass n collectionName ''remove'' (map of_char documentKey)"

definition methods_truncate :: "methods \<Rightarrow> string \<Rightarrow> methods \<times> int" where
  "methods_truncate n collectionName = executeBypass n collectionName ''truncate'' []"

definition methods_move :: "methods \<Rightarrow> methods \<times> methods" where
  "methods_move other = (other, 0)"

text \<open>Assignment from another object; from itself it does nothing.\<close>

definition methods_move_assign :: "methods \<Rightarrow> methods \<Rightarrow> methods \<times> methods" where
  "methods_move_assign this other = (other, 0)"

lemma methods_count:
  "foldl (\<lambda>n (c, op', d). fst (executeBypass n c op' d)) n calls = n + of_nat (length (filter (\<lambda>(c, op', d). c \<noteq> []) calls))"
  by (induction calls arbitrary: n) (auto simp: executeBypass_def)

section \<open>The license (LicenseFeature)\<close>

text \<open>The feature has no state, and its life-cycle methods are empty.\<close>

definition onlySuperUser :: bool where
  "onlySuperUser = False"

definition isEnterprise :: bool where
  "isEnterprise = True"

section \<open>TLS options (SslServerFeatureEE)\<close>

record ssl_feature =
  ssl_requireClientCert :: bool
  ssl_minTlsVersion :: string
  ssl_allowedCipherSuites :: string

definition SslServerFeatureEE :: ssl_feature where
  "SslServerFeatureEE = \<lparr>ssl_requireClientCert = False, ssl_minTlsVersion = ''1.2'', ssl_allowedCipherSuites = []\<rparr>"

definition ssl_collectOptions :: "string list" where
  "ssl_collectOptions = [''--ssl.require-client-cert'', ''--ssl.min-tls-version'', ''--ssl.enterprise-cipher-suites'']"

text \<open>\<open>Inl\<close>: the message of the exception.  The base class is a parameter, run first.\<close>

definition ssl_validateOptions :: "(unit \<Rightarrow> string + unit) \<Rightarrow> ssl_feature \<Rightarrow> string + unit" where
  "ssl_validateOptions base_validateOptions f =
     (case base_validateOptions () of
        Inl e \<Rightarrow> Inl e
      | Inr _ \<Rightarrow>
          if ssl_minTlsVersion f \<noteq> ''1.2'' \<and> ssl_minTlsVersion f \<noteq> ''1.3''
          then Inl (''--ssl.min-tls-version must be '' @ [CHR 0x27] @ ''1.2'' @ [CHR 0x27] @ '' or '' @ [CHR 0x27] @ ''1.3'' @
                    [CHR 0x27] @ '', got: '' @ ssl_minTlsVersion f)
          else Inr ())"

definition verifySslOptions :: "(unit \<Rightarrow> string + unit) \<Rightarrow> ssl_feature \<Rightarrow> string + unit" where
  "verifySslOptions base_verifySslOptions f =
     (case base_verifySslOptions () of
        Inl e \<Rightarrow> Inl e
      | Inr _ \<Rightarrow>
          if ssl_minTlsVersion f \<noteq> ''1.2'' \<and> ssl_minTlsVersion f \<noteq> ''1.3''
          then Inl ''TLS version below minimum: must be at least TLS 1.2''
          else Inr ())"

definition createSslContexts :: "(unit \<Rightarrow> 'contexts) \<Rightarrow> ssl_feature \<Rightarrow> 'contexts" where
  "createSslContexts base_createSslContexts f = (let contexts = base_createSslContexts () in contexts)"

definition dumpTLSData :: "ssl_feature \<Rightarrow> 'builder \<Rightarrow> 'builder \<times> bool" where
  "dumpTLSData f builder = (builder, True)"

lemma verified_after_validated:
  "ssl_validateOptions b f = Inr () \<Longrightarrow> verifySslOptions b' f = b' ()"
  by (auto simp: ssl_validateOptions_def verifySslOptions_def split: sum.splits if_splits)

text \<open>None of the three options changes what is negotiated.\<close>

lemma options_without_effect: "createSslContexts base f = createSslContexts base f'"
  by (simp add: createSslContexts_def)

end
