(* ===== verification/Applier_Threads.thy ===== *)
theory Applier_Threads
  imports Replication_Applier
begin

text \<open>
  The applier under threads (\<^verbatim>\<open>Enterprise/Replication/ReplicationApplier.cpp\<close>): any number of
  threads call \<open>applyMessage\<close> and \<open>applyBatch\<close>, which hold \<open>_mutex\<close> to their end, and,
  when \<open>unlocked\<close> is set, \<open>drainBuffered\<close>, which is public and takes no lock.  One step is
  what a thread does between two points where others can intervene.  Accesses of two threads to
  one map at a time have no meaning in C++; here each access is atomic, which favours the code.
\<close>

section \<open>Threads\<close>

datatype applier_call = Call_message apply_message | Call_batch "apply_message list"

text \<open>Where a thread is: outside; waiting for the mutex; inside \<open>applyMessage\<close>; in the loop of
  \<open>applyBatch\<close> with the messages left and \<open>appliedBefore\<close>; in the loop of an external drain;
  there after the callback has written the message of a number.\<close>

datatype applier_pc =
    Outside
  | Blocked applier_call
  | In_message apply_message
  | In_batch "apply_message list" u64
  | Draining string
  | Drain_wrote string u64

text \<open>\<open>th_order\<close> is the history of the messages processed under the mutex, \<open>th_returned\<close> of the
  counts that \<open>applyBatch\<close> returned, \<open>th_single\<close> counts the writes made by \<open>applyMessage\<close>.\<close>

record 'w applier_threads =
  th_applier :: "'w applier"
  th_mutex :: "nat option"
  th_pc :: "nat \<Rightarrow> applier_pc"
  th_order :: "apply_message list"
  th_returned :: "u64 list"
  th_single :: u64

definition threads_init :: "'w \<Rightarrow> 'w applier_threads" where
  "threads_init w = \<lparr>th_applier = applier_init w, th_mutex = None, th_pc = (\<lambda>_. Outside), th_order = [],
     th_returned = [], th_single = 0\<rparr>"

abbreviation goto :: "nat \<Rightarrow> applier_pc \<Rightarrow> 'w applier_threads \<Rightarrow> 'w applier_threads" where
  "goto t pc \<sigma> \<equiv> \<sigma>\<lparr>th_pc := (th_pc \<sigma>)(t := pc)\<rparr>"

text \<open>What one round of the drain's loop looks up.\<close>

definition drain_next :: "'w applier \<Rightarrow> string \<Rightarrow> apply_message option" where
  "drain_next st s =
     Option.bind (map_of (ap_buffer st) s) (\<lambda>buf. map_of buf (applier_lastAppliedSequence st s + 1))"

definition drain_record :: "string \<Rightarrow> u64 \<Rightarrow> 'w applier \<Rightarrow> 'w applier" where
  "drain_record s n st = st\<lparr>ap_lastApplied := (ap_lastApplied st)(s \<mapsto> n), ap_totalApplied := ap_totalApplied st + 1,
     ap_buffer := (case map_of (ap_buffer st) s of
        None \<Rightarrow> ap_buffer st
      | Some buf \<Rightarrow> AList.update s (AList.delete n buf) (ap_buffer st))\<rparr>"

text \<open>The end of \<open>drainBuffered\<close> removes the shard's buffer when it is empty; after a failed write it is
  not, the message is still there.\<close>

definition drain_close :: "string \<Rightarrow> 'w applier \<Rightarrow> 'w applier" where
  "drain_close s st =
     (if map_of (ap_buffer st) s = Some [] then st\<lparr>ap_buffer := AList.delete s (ap_buffer st)\<rparr> else st)"

inductive applier_tstep ::
  "bool \<Rightarrow> 'w write_callback \<Rightarrow> (string \<Rightarrow> bool) \<Rightarrow> 'w applier_threads \<Rightarrow> 'w applier_threads \<Rightarrow> bool"
  for unlocked wcb sat where
  call: "th_pc \<sigma> t = Outside \<Longrightarrow> applier_tstep unlocked wcb sat \<sigma> (goto t (Blocked c) \<sigma>)"
| lock_message: "th_pc \<sigma> t = Blocked (Call_message m) \<Longrightarrow> th_mutex \<sigma> = None \<Longrightarrow>
    applier_tstep unlocked wcb sat \<sigma> (goto t (In_message m) \<sigma>\<lparr>th_mutex := Some t\<rparr>)"
| apply_one: "th_pc \<sigma> t = In_message m \<Longrightarrow> applyLocked wcb sat (th_applier \<sigma>) m = (rc, st) \<Longrightarrow>
    applier_tstep unlocked wcb sat \<sigma> (goto t Outside \<sigma>\<lparr>th_applier := st, th_mutex := None, th_order := th_order \<sigma> @ [m],
      th_single := th_single \<sigma> + (ap_totalApplied st - ap_totalApplied (th_applier \<sigma>))\<rparr>)"
| lock_batch: "th_pc \<sigma> t = Blocked (Call_batch ms) \<Longrightarrow> th_mutex \<sigma> = None \<Longrightarrow>
    applier_tstep unlocked wcb sat \<sigma> (goto t (In_batch ms (ap_totalApplied (th_applier \<sigma>))) \<sigma>\<lparr>th_mutex := Some t\<rparr>)"
| batch_next: "th_pc \<sigma> t = In_batch (m # ms) b \<Longrightarrow> applyLocked wcb sat (th_applier \<sigma>) m = (rc, st) \<Longrightarrow>
    applier_tstep unlocked wcb sat \<sigma> (goto t (In_batch (if rc \<noteq> 0 then [] else ms) b) \<sigma>\<lparr>th_applier := st,
      th_order := th_order \<sigma> @ [m]\<rparr>)"
| batch_return: "th_pc \<sigma> t = In_batch [] b \<Longrightarrow>
    applier_tstep unlocked wcb sat \<sigma> (goto t Outside \<sigma>\<lparr>th_mutex := None,
      th_returned := th_returned \<sigma> @ [ap_totalApplied (th_applier \<sigma>) - b]\<rparr>)"
| drain_call: "unlocked \<Longrightarrow> th_pc \<sigma> t = Outside \<Longrightarrow> applier_tstep unlocked wcb sat \<sigma> (goto t (Draining s) \<sigma>)"
| drain_write: "th_pc \<sigma> t = Draining s \<Longrightarrow> drain_next (th_applier \<sigma>) s = Some m \<Longrightarrow>
    call_write wcb (th_applier \<sigma>) m = (rc, st) \<Longrightarrow>
    applier_tstep unlocked wcb sat \<sigma> (goto t (if rc = 0 then Drain_wrote s (applier_lastAppliedSequence (th_applier \<sigma>) s + 1)
      else Outside) \<sigma>\<lparr>th_applier := st\<rparr>)"
| drain_recorded: "th_pc \<sigma> t = Drain_wrote s n \<Longrightarrow>
    applier_tstep unlocked wcb sat \<sigma> (goto t (Draining s) \<sigma>\<lparr>th_applier := drain_record s n (th_applier \<sigma>)\<rparr>)"
| drain_done: "th_pc \<sigma> t = Draining s \<Longrightarrow> drain_next (th_applier \<sigma>) s = None \<Longrightarrow>
    applier_tstep unlocked wcb sat \<sigma> (goto t Outside \<sigma>\<lparr>th_applier := drain_close s (th_applier \<sigma>)\<rparr>)"

abbreviation applier_reaches ::
  "bool \<Rightarrow> 'w write_callback \<Rightarrow> (string \<Rightarrow> bool) \<Rightarrow> 'w applier_threads \<Rightarrow> 'w applier_threads \<Rightarrow> bool" where
  "applier_reaches unlocked wcb sat \<equiv> (applier_tstep unlocked wcb sat)\<^sup>*\<^sup>*"

section \<open>The mutex makes the calls sequential\<close>

fun holds_mutex :: "applier_pc \<Rightarrow> bool" where
  "holds_mutex (In_message m) = True"
| "holds_mutex (In_batch ms b) = True"
| "holds_mutex _ = False"

fun drains :: "applier_pc \<Rightarrow> bool" where
  "drains (Draining s) = True"
| "drains (Drain_wrote s n) = True"
| "drains _ = False"

definition locked_ok :: "'w applier_threads \<Rightarrow> bool" where
  "locked_ok \<sigma> \<longleftrightarrow> (\<forall>t. holds_mutex (th_pc \<sigma> t) \<longleftrightarrow> th_mutex \<sigma> = Some t) \<and> (\<forall>t. \<not> drains (th_pc \<sigma> t))"

text \<open>The writes that a call in progress will account for.\<close>

definition in_progress :: "'w applier_threads \<Rightarrow> u64" where
  "in_progress \<sigma> = (case th_mutex \<sigma> of
     None \<Rightarrow> 0
   | Some t \<Rightarrow> (case th_pc \<sigma> t of In_batch ms b \<Rightarrow> ap_totalApplied (th_applier \<sigma>) - b | _ \<Rightarrow> 0))"

definition threads_inv :: "'w write_callback \<Rightarrow> (string \<Rightarrow> bool) \<Rightarrow> 'w \<Rightarrow> 'w applier_threads \<Rightarrow> bool" where
  "threads_inv wcb sat w \<sigma> \<longleftrightarrow> locked_ok \<sigma> \<and>
     th_applier \<sigma> = applier_run wcb sat (applier_init w) (map ApplyOne (th_order \<sigma>)) \<and>
     ap_totalApplied (th_applier \<sigma>) = sum_list (th_returned \<sigma>) + th_single \<sigma> + in_progress \<sigma>"

lemma applier_run_snoc:
  "applier_run wcb sat st (map ApplyOne ms @ [ApplyOne m]) = snd (applyLocked wcb sat (applier_run wcb sat st (map ApplyOne ms)) m)"
  by (simp add: applier_run_def applyMessage_def)

lemma threads_inv_init: "threads_inv wcb sat w (threads_init w)"
  by (simp add: threads_inv_def threads_init_def locked_ok_def applier_run_def applier_init_def in_progress_def)

lemma threads_inv_step:
  assumes "applier_tstep False wcb sat \<sigma> \<sigma>'" and "threads_inv wcb sat w \<sigma>"
  shows "threads_inv wcb sat w \<sigma>'"
proof -
  note inv = assms(2) [unfolded threads_inv_def locked_ok_def]
  show ?thesis using assms(1)
  proof (cases rule: applier_tstep.cases)
    case (call t c)
    have free: "th_mutex \<sigma> \<noteq> Some t" using inv call(2) by (metis holds_mutex.simps(3))
    then have "in_progress \<sigma>' = in_progress \<sigma>"
      by (auto simp: call(1) in_progress_def split: option.split applier_pc.split)
    then show ?thesis using inv call free by (auto simp: threads_inv_def locked_ok_def)
  next
    case (lock_message t m)
    then show ?thesis using inv by (auto simp: threads_inv_def locked_ok_def in_progress_def)
  next
    case (apply_one t m rc st)
    have "th_mutex \<sigma> = Some t" using inv apply_one(2) by (metis holds_mutex.simps(1))
    then show ?thesis
      using inv apply_one by (auto simp: threads_inv_def locked_ok_def in_progress_def applier_run_snoc)
  next
    case (lock_batch t ms)
    then show ?thesis using inv by (auto simp: threads_inv_def locked_ok_def in_progress_def)
  next
    case (batch_next t m ms b rc st)
    have "th_mutex \<sigma> = Some t" using inv batch_next(2) by (metis holds_mutex.simps(2))
    then show ?thesis
      using inv batch_next by (auto simp: threads_inv_def locked_ok_def in_progress_def applier_run_snoc)
  next
    case (batch_return t b)
    have "th_mutex \<sigma> = Some t" using inv batch_return(2) by (metis holds_mutex.simps(2))
    then show ?thesis
      using inv batch_return by (auto simp: threads_inv_def locked_ok_def in_progress_def)
  qed (use inv in \<open>metis drains.simps\<close>)+
qed

lemma threads_inv_reach:
  assumes "applier_reaches False wcb sat (threads_init w) \<sigma>" shows "threads_inv wcb sat w \<sigma>"
  using assms by (induction rule: rtranclp_induct) (auto intro: threads_inv_init threads_inv_step)

section \<open>Properties\<close>

text \<open>C5. The mutex makes the calls atomic: in every state that any number of threads reach with
  \<open>applyMessage\<close> and \<open>applyBatch\<close>, in any interleaving, the applier is as after one
  sequential run over the messages in the order in which they were processed; so each shard was
  written exactly once per number and in order, and when no call is inside, the counts returned by
  \<open>applyBatch\<close> and the writes of \<open>applyMessage\<close> account for every write.\<close>

theorem applier_calls_atomic:
  assumes "applier_reaches False wcb sat (threads_init w) \<sigma>"
  shows "th_applier \<sigma> = applier_run wcb sat (applier_init w) (map ApplyOne (th_order \<sigma>)) \<and>
    written_seqs (th_applier \<sigma>) s = count_up (unat (applier_lastAppliedSequence (th_applier \<sigma>) s)) \<and>
    (th_mutex \<sigma> = None \<longrightarrow> ap_totalApplied (th_applier \<sigma>) = sum_list (th_returned \<sigma>) + th_single \<sigma>)"
proof -
  note inv = threads_inv_reach [OF assms, unfolded threads_inv_def]
  have "written_seqs (th_applier \<sigma>) s = count_up (unat (applier_lastAppliedSequence (th_applier \<sigma>) s))"
    using inv applier_run_inv [OF applier_init_inv, of wcb sat w "map ApplyOne (th_order \<sigma>)"]
    by (simp add: applier_inv_def progress_ok_def)
  then show ?thesis using inv by (auto simp: in_progress_def)
qed

text \<open>One step at a time, for concrete runs.\<close>

lemma step_first: "applier_tstep u wcb sat \<sigma> \<sigma>1 \<Longrightarrow> applier_reaches u wcb sat \<sigma>1 \<sigma>' \<Longrightarrow> applier_reaches u wcb sat \<sigma> \<sigma>'"
  by (rule converse_rtranclp_into_rtranclp)

lemma step_message:
  assumes "th_pc \<sigma> t = Outside" and "th_mutex \<sigma> = None" and "applyLocked wcb sat (th_applier \<sigma>) m = (rc, st)"
  shows "applier_reaches u wcb sat \<sigma> (goto t Outside \<sigma>\<lparr>th_applier := st, th_mutex := None, th_order := th_order \<sigma> @ [m],
      th_single := th_single \<sigma> + (ap_totalApplied st - ap_totalApplied (th_applier \<sigma>))\<rparr>)"
proof -
  let ?\<sigma>1 = "goto t (Blocked (Call_message m)) \<sigma>"
  let ?\<sigma>2 = "goto t (In_message m) ?\<sigma>1\<lparr>th_mutex := Some t\<rparr>"
  have 1: "applier_tstep u wcb sat \<sigma> ?\<sigma>1" by (rule applier_tstep.call [OF assms(1)])
  have 2: "applier_tstep u wcb sat ?\<sigma>1 ?\<sigma>2" by (rule applier_tstep.lock_message) (simp_all add: assms)
  have "applier_tstep u wcb sat ?\<sigma>2 (goto t Outside ?\<sigma>2\<lparr>th_applier := st, th_mutex := None, th_order := th_order ?\<sigma>2 @ [m],
      th_single := th_single ?\<sigma>2 + (ap_totalApplied st - ap_totalApplied (th_applier ?\<sigma>2))\<rparr>)"
    by (rule applier_tstep.apply_one) (simp_all add: assms)
  then show ?thesis using 1 2 by (auto intro!: step_first)
qed


definition ok_callback :: "unit write_callback" where
  "ok_callback w s opn p k = (0, w)"

lemmas applier_eval = applyLocked_def applier_lastAppliedSequence_def call_write_def drainBuffered_def drain_loop.simps
  Let_def word_le_nat_alt

definition early_state :: "unit applier" where
  "early_state = (applier_init ())\<lparr>ap_buffer := [(''s'', [(2, sample_message 2)])]\<rparr>"

definition both_state :: "unit applier" where
  "both_state = (applier_init ())\<lparr>ap_lastApplied := [''s'' \<mapsto> 2], ap_totalApplied := 2,
     ap_written := [sample_message 1, sample_message 2]\<rparr>"

lemma early_run:
  "applyLocked ok_callback (\<lambda>_. False) (applier_init ()) (sample_message 2) = (0, early_state)"
  by (simp add: applier_eval applier_init_def sample_message_def early_state_def)

lemma both_run:
  "applyLocked ok_callback (\<lambda>_. False) early_state (sample_message 1) = (0, both_state)"
  by (simp add: applier_eval applier_init_def sample_message_def early_state_def both_state_def ok_callback_def)

lemma applier_calls_atomic_witness:
  "\<exists>\<sigma>. applier_reaches False ok_callback (\<lambda>_. False) (threads_init ()) \<sigma> \<and>
     th_order \<sigma> = [sample_message 2, sample_message 1] \<and> written_seqs (th_applier \<sigma>) ''s'' = [1, 2]"
proof -
  let ?sat = "\<lambda>_. False" and ?s0 = "threads_init ()"
  let ?s1 = "goto 0 Outside ?s0\<lparr>th_applier := early_state, th_mutex := None, th_order := th_order ?s0 @ [sample_message 2],
      th_single := th_single ?s0 + (ap_totalApplied early_state - ap_totalApplied (th_applier ?s0))\<rparr>"
  let ?s2 = "goto 7 Outside ?s1\<lparr>th_applier := both_state, th_mutex := None, th_order := th_order ?s1 @ [sample_message 1],
      th_single := th_single ?s1 + (ap_totalApplied both_state - ap_totalApplied (th_applier ?s1))\<rparr>"
  have r1: "applier_reaches False ok_callback ?sat ?s0 ?s1"
    by (rule step_message) (simp_all add: threads_init_def early_run)
  have "applier_reaches False ok_callback ?sat ?s1 ?s2"
    by (rule step_message) (simp_all add: threads_init_def both_run)
  with r1 have r: "applier_reaches False ok_callback ?sat ?s0 ?s2" by (rule rtranclp_trans)
  have "applier_lastAppliedSequence (th_applier ?s2) ''s'' = 2"
    by (simp add: both_state_def applier_lastAppliedSequence_def)
  then have "written_seqs (th_applier ?s2) ''s'' = count_up 2"
    using applier_calls_atomic [OF r, of "''s''"] by simp
  moreover have "count_up 2 = [1, 2]" by (simp add: count_up_def upt_rec)
  ultimately show ?thesis using r by (intro exI [of _ ?s2]) (simp add: threads_init_def)
qed

text \<open>An external drain races with the calls.  A write of message 2 failed once, so it is still in
  the buffer; a thread that drains writes it and, before it has recorded that, another thread's
  \<open>applyMessage\<close> finds 1 as the last number and writes message 2 again.\<close>

definition flaky_callback :: "nat write_callback" where
  "flaky_callback n s opn p k = (if n = 1 then 7 else 0, Suc n)"

definition stuck_state :: "nat applier" where
  "stuck_state = (applier_init 2)\<lparr>ap_lastApplied := [''s'' \<mapsto> 1], ap_totalApplied := 1,
     ap_buffer := [(''s'', [(2, sample_message 2)])], ap_written := [sample_message 1]\<rparr>"

lemma stuck_reached:
  "applier_run flaky_callback (\<lambda>_. False) (applier_init 0) [ApplyOne (sample_message 2), ApplyOne (sample_message 1)] = stuck_state"
  by (simp add: applier_run_def applyMessage_def applier_eval applier_init_def sample_message_def flaky_callback_def stuck_state_def)

lemma external_drain_writes_twice:
  "\<exists>\<sigma>. applier_reaches True flaky_callback (\<lambda>_. False) ((threads_init 0)\<lparr>th_applier := stuck_state\<rparr>) \<sigma> \<and>
     written_seqs (th_applier \<sigma>) ''s'' = [1, 2, 2]"
proof -
  let ?s0 = "(threads_init 0)\<lparr>th_applier := stuck_state\<rparr>" and ?sat = "\<lambda>_. False"
  let ?s1 = "goto 0 (Draining ''s'') ?s0"
  let ?st2 = "stuck_state\<lparr>ap_world := 3, ap_written := [sample_message 1, sample_message 2]\<rparr>"
  let ?s2 = "goto 0 (Drain_wrote ''s'' 2) ?s1\<lparr>th_applier := ?st2\<rparr>"
  have 1: "applier_tstep True flaky_callback ?sat ?s0 ?s1"
    by (rule applier_tstep.drain_call) (simp_all add: threads_init_def)
  have look: "drain_next stuck_state ''s'' = Some (sample_message 2)" "applier_lastAppliedSequence stuck_state ''s'' = 1"
    by (simp_all add: drain_next_def stuck_state_def applier_lastAppliedSequence_def)
  have "call_write flaky_callback stuck_state (sample_message 2) = (0, ?st2)"
    by (simp add: call_write_def flaky_callback_def stuck_state_def applier_init_def)
  then have "applier_tstep True flaky_callback ?sat ?s1
      (goto 0 (if (0::int) = 0 then Drain_wrote ''s'' (applier_lastAppliedSequence (th_applier ?s1) ''s'' + 1) else Outside) ?s1\<lparr>th_applier := ?st2\<rparr>)"
    by (intro applier_tstep.drain_write) (simp_all add: look)
  then have 2: "applier_tstep True flaky_callback ?sat ?s1 ?s2" by (simp add: look)
  obtain rc st3 where 3: "applyLocked flaky_callback ?sat ?st2 (sample_message 2) = (rc, st3)" by fastforce
  have w: "written_seqs st3 ''s'' = [1, 2, 2]"
  proof -
    have "written_seqs (snd (applyLocked flaky_callback ?sat ?st2 (sample_message 2))) ''s'' = [1, 2, 2]"
      by (simp add: applier_eval applier_init_def sample_message_def flaky_callback_def stuck_state_def written_seqs_def)
    then show ?thesis by (simp add: 3)
  qed
  let ?s3 = "goto 1 Outside ?s2\<lparr>th_applier := st3, th_mutex := None,
      th_order := th_order ?s2 @ [sample_message 2],
      th_single := th_single ?s2 + (ap_totalApplied st3 - ap_totalApplied (th_applier ?s2))\<rparr>"
  have r: "applier_reaches True flaky_callback ?sat ?s2 ?s3"
    by (rule step_message [where t = 1]) (simp_all add: threads_init_def 3)
  have "applier_reaches True flaky_callback ?sat ?s0 ?s3" by (rule step_first [OF 1 step_first [OF 2 r]])
  moreover have "written_seqs (th_applier ?s3) ''s'' = [1, 2, 2]" by (simp add: w)
  ultimately show ?thesis by blast
qed

end
