(* ===== verification/Replay_Threads.thy ===== *)
theory Replay_Threads
  imports Sequence_Numbers
begin

text \<open>
  The documented use of the duplicate check by several threads over one tracker
  (\<^verbatim>\<open>Enterprise/Replication/IdempotencyChecker.h/.cpp\<close>, \<^verbatim>\<open>SequenceNumberTracker.h\<close>: "thread-safe
  for concurrent shard application").  Every call of the tracker is atomic, but checking makes two
  of them, and the message is applied and recorded after that, in steps that other threads can
  separate.  The tracker is a parameter, with the contract of the locale \<open>sequence_tracker\<close>.
\<close>

section \<open>Threads\<close>

text \<open>Idle; past the first call of \<open>check\<close>, which found no duplicate; with a result that lets
  the message through; with the message applied and not yet recorded.\<close>

datatype replay_pc = Replay_idle | Replay_checking direct_message | Replay_passed direct_message | Replay_applied direct_message

record 't replay_sys =
  ry_tracker :: 't
  ry_pc :: "nat \<Rightarrow> replay_pc"
  ry_log :: "direct_message list"

abbreviation replay_goto :: "nat \<Rightarrow> replay_pc \<Rightarrow> 't replay_sys \<Rightarrow> 't replay_sys" where
  "replay_goto t pc \<sigma> \<equiv> \<sigma>\<lparr>ry_pc := (ry_pc \<sigma>)(t := pc)\<rparr>"

definition replay_init :: "'t \<Rightarrow> 't replay_sys" where
  "replay_init tr = \<lparr>ry_tracker = tr, ry_pc = (\<lambda>_. Replay_idle), ry_log = []\<rparr>"

text \<open>\<open>may t s\<close>: thread \<open>t\<close> is given messages of shard \<open>s\<close>.  The second call only tells
  \<open>Accept\<close> from \<open>OutOfOrder\<close>, and the usage applies the message on both.\<close>

inductive replay_tstep ::
  "('t \<Rightarrow> string \<Rightarrow> u64 \<Rightarrow> bool) \<Rightarrow> ('t \<Rightarrow> string \<Rightarrow> u64) \<Rightarrow> ('t \<Rightarrow> string \<Rightarrow> u64 \<Rightarrow> 't) \<Rightarrow> (nat \<Rightarrow> string \<Rightarrow> bool) \<Rightarrow>
     't replay_sys \<Rightarrow> 't replay_sys \<Rightarrow> bool"
  for applied lastSeq mark may where
  duplicate: "ry_pc \<sigma> t = Replay_idle \<Longrightarrow> may t (shard_id m) \<Longrightarrow> 0 < msg_sequence (m :: direct_message) \<Longrightarrow>
    applied (ry_tracker \<sigma>) (shard_id m) (msg_sequence m) \<Longrightarrow> replay_tstep applied lastSeq mark may \<sigma> \<sigma>"
| look: "ry_pc \<sigma> t = Replay_idle \<Longrightarrow> may t (shard_id m) \<Longrightarrow> 0 < msg_sequence m \<Longrightarrow>
    \<not> applied (ry_tracker \<sigma>) (shard_id m) (msg_sequence m) \<Longrightarrow>
    replay_tstep applied lastSeq mark may \<sigma> (replay_goto t (Replay_checking m) \<sigma>)"
| decide: "ry_pc \<sigma> t = Replay_checking m \<Longrightarrow>
    r = (if msg_sequence m > lastSeq (ry_tracker \<sigma>) (shard_id m) + 1 then OutOfOrder else Accept) \<Longrightarrow>
    replay_tstep applied lastSeq mark may \<sigma>
      (replay_goto t (if r = Accept \<or> r = OutOfOrder then Replay_passed m else Replay_idle) \<sigma>)"
| apply_message: "ry_pc \<sigma> t = Replay_passed m \<Longrightarrow>
    replay_tstep applied lastSeq mark may \<sigma> (replay_goto t (Replay_applied m) \<sigma>\<lparr>ry_log := ry_log \<sigma> @ [m]\<rparr>)"
| record_message: "ry_pc \<sigma> t = Replay_applied m \<Longrightarrow>
    replay_tstep applied lastSeq mark may \<sigma>
      (replay_goto t Replay_idle \<sigma>\<lparr>ry_tracker := accept_with mark (ry_tracker \<sigma>) m\<rparr>)"

abbreviation replay_reaches where
  "replay_reaches applied lastSeq mark may \<equiv> (replay_tstep applied lastSeq mark may)\<^sup>*\<^sup>*"

definition log_seqs :: "'t replay_sys \<Rightarrow> string \<Rightarrow> u64 list" where
  "log_seqs \<sigma> s = [msg_sequence m. m \<leftarrow> ry_log \<sigma>, shard_id m = s]"

text \<open>The message a thread has in hand.\<close>

fun in_hand :: "replay_pc \<Rightarrow> direct_message option" where
  "in_hand Replay_idle = None"
| "in_hand (Replay_checking m) = Some m"
| "in_hand (Replay_passed m) = Some m"
| "in_hand (Replay_applied m) = Some m"

text \<open>The largest number applied to a shard, for its recorded one and what its owner does.\<close>

fun pending :: "replay_pc \<Rightarrow> string \<Rightarrow> u64 \<Rightarrow> u64" where
  "pending (Replay_applied m) s l = (if shard_id m = s then msg_sequence m else l)"
| "pending _ s l = l"

section \<open>One thread for each shard\<close>

locale shard_owners = sequence_tracker applied lastSeq mark
  for applied :: "'t \<Rightarrow> string \<Rightarrow> u64 \<Rightarrow> bool" and lastSeq :: "'t \<Rightarrow> string \<Rightarrow> u64"
    and mark :: "'t \<Rightarrow> string \<Rightarrow> u64 \<Rightarrow> 't" +
  fixes owner :: "string \<Rightarrow> nat"
begin

abbreviation steps where
  "steps \<equiv> replay_reaches applied lastSeq mark (\<lambda>t s. t = owner s)"

text \<open>The numbers applied to a shard rise, up to the recorded one or the one its owner has still to
  record; and what the owner has in hand is new.\<close>

definition shard_ok :: "u64 \<Rightarrow> 't replay_sys \<Rightarrow> string \<Rightarrow> bool" where
  "shard_ok l0 \<sigma> s \<longleftrightarrow> sorted_wrt (<) (l0 # log_seqs \<sigma> s) \<and>
     (\<forall>q \<in> set (l0 # log_seqs \<sigma> s). q \<le> pending (ry_pc \<sigma> (owner s)) s (lastSeq (ry_tracker \<sigma>) s)) \<and>
     (\<forall>m. in_hand (ry_pc \<sigma> (owner s)) = Some m \<longrightarrow> shard_id m = s \<longrightarrow> lastSeq (ry_tracker \<sigma>) s < msg_sequence m)"

definition owners_inv :: "'t \<Rightarrow> 't replay_sys \<Rightarrow> bool" where
  "owners_inv tr \<sigma> \<longleftrightarrow> (\<forall>t m. in_hand (ry_pc \<sigma> t) = Some m \<longrightarrow> t = owner (shard_id m)) \<and>
     (\<forall>s. shard_ok (lastSeq tr s) \<sigma> s)"

lemma owners_inv_init: "owners_inv tr (replay_init tr)"
  by (simp add: owners_inv_def replay_init_def shard_ok_def log_seqs_def)

lemma ok_hand: "shard_ok l0 \<sigma> s \<Longrightarrow> in_hand (ry_pc \<sigma> (owner s)) = Some m \<Longrightarrow> shard_id m = s \<Longrightarrow>
    lastSeq (ry_tracker \<sigma>) s < msg_sequence m"
  by (simp add: shard_ok_def)

lemma ok_below: "shard_ok l0 \<sigma> s \<Longrightarrow> q \<in> set (l0 # log_seqs \<sigma> s) \<Longrightarrow>
    q \<le> pending (ry_pc \<sigma> (owner s)) s (lastSeq (ry_tracker \<sigma>) s)"
  by (simp only: shard_ok_def)

lemma shard_ok_pc:
  assumes "shard_ok l0 \<sigma> s" and "log_seqs \<sigma>' s = log_seqs \<sigma> s"
    and "lastSeq (ry_tracker \<sigma>') s = lastSeq (ry_tracker \<sigma>) s"
    and "\<And>l. pending (ry_pc \<sigma>' (owner s)) s l = pending (ry_pc \<sigma> (owner s)) s l"
    and "\<And>m. in_hand (ry_pc \<sigma>' (owner s)) = Some m \<Longrightarrow> shard_id m = s \<Longrightarrow> lastSeq (ry_tracker \<sigma>) s < msg_sequence m"
  shows "shard_ok l0 \<sigma>' s"
  using assms by (simp add: shard_ok_def)

lemma log_seqs_snoc: "ry_log \<sigma>' = ry_log \<sigma> @ [m] \<Longrightarrow>
    log_seqs \<sigma>' s = log_seqs \<sigma> s @ (if shard_id m = s then [msg_sequence m] else [])"
  by (simp add: log_seqs_def)

lemma owners_inv_step:
  assumes "replay_tstep applied lastSeq mark (\<lambda>t s. t = owner s) \<sigma> \<sigma>'" and "owners_inv tr \<sigma>"
  shows "owners_inv tr \<sigma>'"
proof -
  note inv = assms(2) [unfolded owners_inv_def]
  have ok: "shard_ok (lastSeq tr s) \<sigma> s" for s using inv by blast
  have mine: "in_hand (ry_pc \<sigma> t) = Some m \<Longrightarrow> t = owner (shard_id m)" for t m using inv by blast
  have owns: "t = owner (shard_id m)" if hand: "in_hand (ry_pc \<sigma>' t) = Some m" for t m
    using assms(1)
  proof (cases rule: replay_tstep.cases)
    case (duplicate u n)
    then show ?thesis using hand mine by blast
  next
    case (look u n)
    show ?thesis by (cases "t = u") (use hand mine [of t m] look(1,3) in simp_all)
  next
    case (decide u n r)
    show ?thesis by (cases "t = u") (use hand mine [of t m] decide(1,2) in \<open>simp_all split: if_splits\<close>)
  next
    case (apply_message u n)
    show ?thesis by (cases "t = u") (use hand mine [of t m] apply_message in simp_all)
  next
    case (record_message u n)
    show ?thesis by (cases "t = u") (use hand mine [of t m] record_message in simp_all)
  qed
  have "shard_ok (lastSeq tr s) \<sigma>' s" for s
    using assms(1)
  proof (cases rule: replay_tstep.cases)
    case (duplicate t m)
    then show ?thesis using ok by simp
  next
    case (look t m)
    have new: "lastSeq (ry_tracker \<sigma>) (shard_id m) < msg_sequence m"
      using look(4,5) applied_iff [of "msg_sequence m"] by (simp add: not_le)
    show ?thesis
      by (rule shard_ok_pc [OF ok])
         (use look(1,2) new ok_hand [OF ok] in \<open>simp_all add: log_seqs_def split: if_splits\<close>)
  next
    case (decide t m r)
    show ?thesis
      by (rule shard_ok_pc [OF ok])
         (use decide(1,2) ok_hand [OF ok] in \<open>simp_all add: log_seqs_def split: if_splits\<close>)
  next
    case (apply_message t m)
    have own: "t = owner (shard_id m)" using mine apply_message(2) by simp
    have log: "log_seqs \<sigma>' s = log_seqs \<sigma> s @ (if shard_id m = s then [msg_sequence m] else [])"
      by (rule log_seqs_snoc) (simp add: apply_message(1))
    show ?thesis
    proof (cases "shard_id m = s")
      case True
      then have pc: "ry_pc \<sigma> (owner s) = Replay_passed m" "ry_pc \<sigma>' (owner s) = Replay_applied m"
        using own apply_message by simp_all
      have last: "lastSeq (ry_tracker \<sigma>) s < msg_sequence m" using ok_hand [OF ok] pc True by simp
      have below: "\<forall>q \<in> set (lastSeq tr s # log_seqs \<sigma> s). q < msg_sequence m"
    proof
      fix q assume "q \<in> set (lastSeq tr s # log_seqs \<sigma> s)"
      from ok_below [OF ok this] have "q \<le> lastSeq (ry_tracker \<sigma>) s" by (simp only: pc pending.simps)
      then show "q < msg_sequence m" using last by (rule le_less_trans)
    qed
      then have "sorted_wrt (<) (lastSeq tr s # log_seqs \<sigma>' s)"
        using ok [of s] True by (simp add: shard_ok_def log sorted_wrt_append)
      moreover have "\<forall>q \<in> set (lastSeq tr s # log_seqs \<sigma>' s). q \<le> msg_sequence m"
        using below True by (auto simp: log less_imp_le)
      moreover have "ry_tracker \<sigma>' = ry_tracker \<sigma>" by (simp add: apply_message(1))
      ultimately show ?thesis
        using last True by (simp add: shard_ok_def pc del: sorted_wrt.simps)
    next
      case False
      have "log_seqs \<sigma>' s = log_seqs \<sigma> s" using log False by simp
      then show ?thesis
        by (rule shard_ok_pc [OF ok])
           (use apply_message(1,2) ok_hand [OF ok] False in \<open>simp_all split: if_splits\<close>)
    qed
  next
    case (record_message t m)
    have own: "t = owner (shard_id m)" using mine record_message(2) by simp
    have log: "log_seqs \<sigma>' s = log_seqs \<sigma> s" by (simp add: log_seqs_def record_message(1))
    show ?thesis
    proof (cases "shard_id m = s")
      case True
      then have pc: "ry_pc \<sigma> (owner s) = Replay_applied m" "ry_pc \<sigma>' (owner s) = Replay_idle"
        using own record_message by simp_all
      have "lastSeq (ry_tracker \<sigma>) s < msg_sequence m" using ok_hand [OF ok] pc True by simp
      moreover have "lastSeq (ry_tracker \<sigma>') s = max (lastSeq (ry_tracker \<sigma>) s) (msg_sequence m)"
        using True by (simp add: last_accept record_message(1))
      ultimately show ?thesis
        using ok [of s] pc True by (simp add: shard_ok_def log max_absorb2 less_imp_le)
    next
      case False
      with log show ?thesis
        by (intro shard_ok_pc [OF ok])
           (use record_message(1,2) ok_hand [OF ok] False in \<open>simp_all add: last_accept split: if_splits\<close>)
    qed
  qed
  then show ?thesis using owns by (simp add: owners_inv_def)
qed

lemma owners_inv_reach: "steps (replay_init tr) \<sigma> \<Longrightarrow> owners_inv tr \<sigma>"
  by (induction rule: rtranclp_induct) (auto intro: owners_inv_init owners_inv_step)

lemma log_increasing: "steps (replay_init tr) \<sigma> \<Longrightarrow> sorted_wrt (<) (lastSeq tr s # log_seqs \<sigma> s)"
  using owners_inv_reach by (fastforce simp: owners_inv_def shard_ok_def)

lemma log_recorded:
  "steps (replay_init tr) \<sigma> \<Longrightarrow> ry_pc \<sigma> (owner s) = Replay_idle \<Longrightarrow> \<forall>q \<in> set (log_seqs \<sigma> s). q \<le> lastSeq (ry_tracker \<sigma>) s"
proof -
  assume steps: "steps (replay_init tr) \<sigma>" and pc: "ry_pc \<sigma> (owner s) = Replay_idle"
  have "shard_ok (lastSeq tr s) \<sigma> s" using owners_inv_reach [OF steps] by (simp only: owners_inv_def)
  from ok_below [OF this] show ?thesis by (simp add: pc)
qed

end


section \<open>The tracker of the code\<close>

interpretation owned: shard_owners isAlreadyApplied lastAppliedSequence markApplied owner for owner
  by unfold_locales

abbreviation replay_threads_reach where
  "replay_threads_reach \<equiv> replay_reaches isAlreadyApplied lastAppliedSequence markApplied"

text \<open>C18. When every shard has one thread that checks, applies and records its messages, then in any
  interleaving with the threads of other shards the numbers applied to a shard are strictly
  increasing above the one that the tracker started with, whatever arrives; and once the thread of a
  shard is between two messages, all that was applied to the shard is known to the tracker.\<close>

theorem owned_replay_increasing:
  assumes "replay_threads_reach (\<lambda>t s. t = owner s) (replay_init tr) \<sigma>"
  shows "sorted_wrt (<) (lastAppliedSequence tr s # log_seqs \<sigma> s) \<and>
    (ry_pc \<sigma> (owner s) = Replay_idle \<longrightarrow> (\<forall>q \<in> set (log_seqs \<sigma> s). isAlreadyApplied (ry_tracker \<sigma>) s q))"
proof -
  have up: "sorted_wrt (<) (lastAppliedSequence tr s # log_seqs \<sigma> s)" by (rule owned.log_increasing [OF assms])
  have pos: "0 < q" if "q \<in> set (log_seqs \<sigma> s)" for q
  proof -
    have "lastAppliedSequence tr s < q" using up that by simp
    then show ?thesis using word_zero_le [of "lastAppliedSequence tr s"] by (metis le_less_trans)
  qed
  have "isAlreadyApplied (ry_tracker \<sigma>) s q"
    if "ry_pc \<sigma> (owner s) = Replay_idle" "q \<in> set (log_seqs \<sigma> s)" for q
    using owned.log_recorded [OF assms that(1)] that(2) pos [OF that(2)] by (simp add: tracker.applied_iff)
  with up show ?thesis by blast
qed

text \<open>What a thread has applied and not yet recorded passes the check again: a tracker saved at this
  moment, and a delivery after the restart, apply the message a second time.\<close>

lemma applied_unrecorded_passes:
  assumes "replay_threads_reach (\<lambda>t s. t = owner s) (replay_init tr) \<sigma>" and "ry_pc \<sigma> t = Replay_applied m"
  shows "IdempotencyChecker_check (ry_tracker \<sigma>) m \<noteq> Reject"
proof -
  note inv = owned.owners_inv_reach [OF assms(1)]
  have t: "t = owner (shard_id m)" using inv assms(2) by (simp add: owned.owners_inv_def)
  have "lastAppliedSequence (ry_tracker \<sigma>) (shard_id m) < msg_sequence m"
    using inv assms(2) by (auto simp: owned.owners_inv_def owned.shard_ok_def t)
  moreover from this have "0 < msg_sequence m" using word_zero_le by (metis le_less_trans)
  ultimately show ?thesis by (simp add: checker_defs tracker.check_cases not_le)
qed

subsection \<open>Runs\<close>

definition shard_message :: "string \<Rightarrow> u64 \<Rightarrow> direct_message" where
  "shard_message s q = \<lparr>shard_id = s, msg_sequence = q, msg_operation = Insert, msg_payload = []\<rparr>"

text \<open>Runs on the real tracker: a thread lets a message through, applies it, records it.\<close>

abbreviation tracker_step where
  "tracker_step \<equiv> replay_tstep isAlreadyApplied lastAppliedSequence markApplied"

lemma tracker_step_first: "tracker_step may \<sigma> \<sigma>1 \<Longrightarrow> replay_threads_reach may \<sigma>1 \<sigma>' \<Longrightarrow> replay_threads_reach may \<sigma> \<sigma>'"
  by (rule converse_rtranclp_into_rtranclp)

lemma run_trans: "replay_threads_reach may \<sigma> \<sigma>1 \<Longrightarrow> replay_threads_reach may \<sigma>1 \<sigma>' \<Longrightarrow> replay_threads_reach may \<sigma> \<sigma>'"
  by (rule rtranclp_trans)

lemma run_check:
  assumes "ry_pc \<sigma> t = Replay_idle" and "may t (shard_id m)" and "0 < msg_sequence m"
    and "\<not> isAlreadyApplied (ry_tracker \<sigma>) (shard_id m) (msg_sequence m)"
  shows "replay_threads_reach may \<sigma> (replay_goto t (Replay_passed m) \<sigma>)"
proof -
  let ?\<sigma>1 = "replay_goto t (Replay_checking m) \<sigma>"
  let ?r = "if msg_sequence m > lastAppliedSequence (ry_tracker ?\<sigma>1) (shard_id m) + 1 then OutOfOrder else Accept"
  have "tracker_step may \<sigma> ?\<sigma>1" by (rule replay_tstep.look) (rule assms)+
  moreover have "tracker_step may ?\<sigma>1
      (replay_goto t (if ?r = Accept \<or> ?r = OutOfOrder then Replay_passed m else Replay_idle) ?\<sigma>1)"
    by (rule replay_tstep.decide [where r = ?r]) simp_all
  then have "tracker_step may ?\<sigma>1 (replay_goto t (Replay_passed m) \<sigma>)"
    by (simp split: if_splits)
  ultimately show ?thesis by (meson tracker_step_first rtranclp.rtrancl_refl)
qed

lemma run_apply:
  assumes "ry_pc \<sigma> t = Replay_passed m"
  shows "replay_threads_reach may \<sigma> (replay_goto t (Replay_applied m) \<sigma>\<lparr>ry_log := ry_log \<sigma> @ [m]\<rparr>)"
  using replay_tstep.apply_message [OF assms] by (rule r_into_rtranclp)

lemma run_record:
  assumes "ry_pc \<sigma> t = Replay_applied m"
  shows "replay_threads_reach may \<sigma>
    (replay_goto t Replay_idle \<sigma>\<lparr>ry_tracker := IdempotencyChecker_accept (ry_tracker \<sigma>) m\<rparr>)"
  using replay_tstep.record_message [OF assms] unfolding checker_defs by (rule r_into_rtranclp)

text \<open>The owner of \<open>''s''\<close> has applied 2 and recorded it while the owner of \<open>''u''\<close> is between its check
  and its write.\<close>

definition owned_state :: "tracker replay_sys" where
  "owned_state = \<lparr>ry_tracker = [(''s'', 2)], ry_pc = (\<lambda>_. Replay_idle)(1 := Replay_applied (shard_message ''u'' 7)),
     ry_log = [shard_message ''s'' 2, shard_message ''u'' 7]\<rparr>"

lemma owned_run:
  "replay_threads_reach (\<lambda>t s. t = (if s = ''s'' then 0 else 1)) (replay_init []) owned_state"
proof -
  let ?may = "\<lambda>t s. t = (if s = ''s'' then 0 else 1 :: nat)" and ?m = "shard_message ''s'' 2" and ?n = "shard_message ''u'' 7"
  let ?s0 = "replay_init [] :: tracker replay_sys"
  let ?s1 = "replay_goto 1 (Replay_passed ?n) ?s0"
  let ?s2 = "replay_goto 0 (Replay_passed ?m) ?s1"
  let ?s3 = "replay_goto 0 (Replay_applied ?m) ?s2\<lparr>ry_log := ry_log ?s2 @ [?m]\<rparr>"
  let ?s4 = "replay_goto 0 Replay_idle ?s3\<lparr>ry_tracker := IdempotencyChecker_accept (ry_tracker ?s3) ?m\<rparr>"
  let ?s5 = "replay_goto 1 (Replay_applied ?n) ?s4\<lparr>ry_log := ry_log ?s4 @ [?n]\<rparr>"
  have 1: "replay_threads_reach ?may ?s0 ?s1"
    by (rule run_check) (simp_all add: replay_init_def shard_message_def isAlreadyApplied_def)
  have 2: "replay_threads_reach ?may ?s1 ?s2"
    by (rule run_check) (simp_all add: replay_init_def shard_message_def isAlreadyApplied_def)
  have 3: "replay_threads_reach ?may ?s2 ?s3" by (rule run_apply) simp
  have 4: "replay_threads_reach ?may ?s3 ?s4" by (rule run_record) simp
  have 5: "replay_threads_reach ?may ?s4 ?s5" by (rule run_apply) simp
  have "replay_threads_reach ?may ?s0 ?s5"
    by (rule run_trans [OF run_trans [OF run_trans [OF run_trans [OF 1 2] 3] 4] 5])
  moreover have "?s5 = owned_state"
    by (auto simp: owned_state_def replay_init_def checker_defs accept_with_def markApplied_def shard_message_def)
  ultimately show ?thesis by (simp only:)
qed

lemma owned_replay_increasing_witness:
  "log_seqs owned_state ''s'' = [2] \<and> isAlreadyApplied (ry_tracker owned_state) ''s'' 2"
  using owned_replay_increasing [OF owned_run, of "''s''"]
  by (simp add: owned_state_def log_seqs_def shard_message_def)

text \<open>Two threads with messages of the same shard: both pass the check before either records, and the
  message is applied twice.  The tracker's lock makes each call atomic, not the sequence of them.\<close>

lemma shared_shard_applies_twice:
  "\<exists>\<sigma>. replay_threads_reach (\<lambda>_ _. True) (replay_init []) \<sigma> \<and> log_seqs \<sigma> ''s'' = [1, 1]"
proof -
  let ?may = "\<lambda>_ _. True" and ?m = "shard_message ''s'' 1"
  let ?s0 = "replay_init [] :: tracker replay_sys"
  let ?s1 = "replay_goto 0 (Replay_passed ?m) ?s0"
  let ?s2 = "replay_goto 1 (Replay_passed ?m) ?s1"
  let ?s3 = "replay_goto 0 (Replay_applied ?m) ?s2\<lparr>ry_log := ry_log ?s2 @ [?m]\<rparr>"
  let ?s4 = "replay_goto 1 (Replay_applied ?m) ?s3\<lparr>ry_log := ry_log ?s3 @ [?m]\<rparr>"
  have 1: "replay_threads_reach ?may ?s0 ?s1"
    by (rule run_check) (simp_all add: replay_init_def shard_message_def isAlreadyApplied_def)
  have 2: "replay_threads_reach ?may ?s1 ?s2"
    by (rule run_check) (simp_all add: replay_init_def shard_message_def isAlreadyApplied_def)
  have 3: "replay_threads_reach ?may ?s2 ?s3" by (rule run_apply) simp
  have 4: "replay_threads_reach ?may ?s3 ?s4" by (rule run_apply) simp
  have "replay_threads_reach ?may ?s0 ?s4" by (rule run_trans [OF run_trans [OF run_trans [OF 1 2] 3] 4])
  moreover have "log_seqs ?s4 ''s'' = [1, 1]" by (simp add: log_seqs_def replay_init_def shard_message_def)
  ultimately show ?thesis by blast
qed

end
