(* ===== verification/Log_Delivery.thy ===== *)
theory Log_Delivery
  imports Dc2dc_Replicator Replication_Applier
begin

text \<open>
  The source as a whole: the tail threads of all shards over one log
  (\<^verbatim>\<open>Enterprise/Replication/DC2DCReplicator.cpp\<close>, \<^verbatim>\<open>ShardWALTailer.cpp\<close>, \<^verbatim>\<open>MessageBatcher.cpp\<close>), the
  numbers that their batches get from the generator (\<^verbatim>\<open>SequenceNumberGenerator.cpp\<close>), and what the
  target's applier (\<^verbatim>\<open>ReplicationApplier.cpp\<close>) makes of those numbers.
\<close>

section \<open>Invariants of a tail thread\<close>






section \<open>The numbers of the batches\<close>







section \<open>All threads together\<close>

lemma mset_parts:
  assumes "finite A" and "\<And>e. (\<exists>!i. i \<in> A \<and> P i e) \<longleftrightarrow> Q e" and "\<And>e i. P i e \<Longrightarrow> Q e"
  shows "(\<Sum>i \<in> A. mset (filter (P i) es)) = mset (filter Q es)"
proof (induction es)
  case (Cons e es)
  have "(\<Sum>i \<in> A. if P i e then {#e#} else {#}) = (if Q e then {#e#} else {#})"
  proof (cases "Q e")
    case True
    then obtain j where j: "j \<in> A" "P j e" "\<And>i. i \<in> A \<Longrightarrow> P i e \<Longrightarrow> i = j" using assms(2) by blast
    have "(if P i e then {#e#} else {#}) = (if i = j then {#e#} else {#})" if "i \<in> A" for i
      using j(2,3) that by metis
    then have "(\<Sum>i \<in> A. if P i e then {#e#} else {#}) = (\<Sum>i \<in> A. if i = j then {#e#} else {#})"
      by (rule sum.cong [OF refl])
    with j(1) True show ?thesis by (simp add: assms(1))
  next
    case False
    then have "\<not> P i e" for i using assms(3) by blast
    with False show ?thesis by simp
  qed
  moreover have "(\<Sum>i \<in> A. mset (filter (P i) (e # es))) =
      (\<Sum>i \<in> A. if P i e then {#e#} else {#}) + (\<Sum>i \<in> A. mset (filter (P i) es))"
    unfolding sum.distrib [symmetric] by (rule sum.cong) auto
  ultimately show ?case by (simp only: Cons) simp
qed simp


text \<open>A thread that polls often enough after the log has stopped growing.\<close>

lemma thread_delivers_log:
  assumes "0 < do_batchSize (rp_options r)" and "wals i @ concat gs = wal" and "length wal \<le> k"
  shows "\<exists>s. shardTailLoop mock_iterator (\<lambda>j. \<lparr>mk_entries = wals j, mk_pos = 0\<rparr>) res clock provider r i w
      (map appends (gs @ replicate k [])) = Some s \<and>
    concat (map mb_entries (ts_out s)) = filter (mine res i (rp_numberOfShards r)) wal"
proof -
  from tail_thread_delivers [of wals res clock provider r i w "gs @ replicate k []"] obtain s p where
    s: "shardTailLoop mock_iterator (\<lambda>j. \<lparr>mk_entries = wals j, mk_pos = 0\<rparr>) res clock provider r i w
      (map appends (gs @ replicate k [])) = Some s"
      "concat (map mb_entries (ts_out s)) = filter (mine res i (rp_numberOfShards r)) p"
      "p = wals i @ concat (gs @ replicate k [])"
    using assms by blast
  moreover have "p = wal" using s(3) assms(2) by simp
  ultimately show ?thesis by blast
qed




section \<open>Properties\<close>

text \<open>C4. The source loses nothing and sends nothing twice: one tail thread for each shard, each with
  its own view of how the log grows and its own clock, numbers and pace, and enough polls after the
  end.  Then every thread ends, its batches hold the entries of its shard in log order, and the
  batches of all threads together hold every entry of the log as often as the log does, less those
  of satellite collections.\<close>

theorem source_delivers_log:
  assumes "0 < rp_numberOfShards r" and "0 < do_batchSize (rp_options r)"
    and "\<forall>i < rp_numberOfShards r. wals i @ concat (gs i) = wal \<and> length wal \<le> k i"
  shows "\<exists>s. (\<forall>i < rp_numberOfShards r.
        shardTailLoop mock_iterator (\<lambda>j. \<lparr>mk_entries = wals j, mk_pos = 0\<rparr>) res clock provider r i (w i)
          (map appends (gs i @ replicate (k i) [])) = Some (s i) \<and>
        concat (map mb_entries (ts_out (s i))) = filter (mine res i (rp_numberOfShards r)) wal) \<and>
     (\<Sum>i | i < rp_numberOfShards r. mset (concat (map mb_entries (ts_out (s i))))) =
       mset (filter (\<lambda>e. \<not> satellite_collection res (we_collectionName e)) wal)"
proof -
  let ?n = "rp_numberOfShards r"
  let ?run = "\<lambda>i s. shardTailLoop mock_iterator (\<lambda>j. \<lparr>mk_entries = wals j, mk_pos = 0\<rparr>) res clock provider r i (w i)
      (map appends (gs i @ replicate (k i) [])) = Some s \<and>
    concat (map mb_entries (ts_out s)) = filter (mine res i ?n) wal"
  have one: "\<exists>s. ?run i s" if "i < ?n" for i
    by (rule thread_delivers_log [OF assms(2)]) (use assms(3) that in simp_all)
  define s where "s = (\<lambda>i. SOME s. ?run i s)"
  have s: "?run i (s i)" if "i < ?n" for i
    unfolding s_def by (rule someI_ex [OF one [OF that]])
  have "(\<Sum>i | i < ?n. mset (concat (map mb_entries (ts_out (s i))))) = (\<Sum>i | i < ?n. mset (filter (mine res i ?n) wal))"
    by (rule sum.cong [OF refl]) (simp only: mem_Collect_eq conjunct2 [OF s])
  also have "\<dots> = mset (filter (\<lambda>e. \<not> satellite_collection res (we_collectionName e)) wal)"
    by (rule mset_parts) (use mine_partition [OF assms(1)] in \<open>auto simp: mine_def\<close>)
  finally show ?thesis using s by (intro exI [of _ s]) blast
qed



subsection \<open>Runs\<close>

text \<open>Two shards; the keys \<open>''k''\<close> and \<open>''l''\<close> are of different ones, and the threads see the second
  entry at different times.\<close>

definition two_shards :: replicator where
  "two_shards = configureWALTailing (dc2dc_prepare (new_replicator dc2dc_defaults)) 2"

definition entry_k :: wal_entry where "entry_k = sample_entry 1"

definition entry_l :: wal_entry where "entry_l = (sample_entry 2)\<lparr>we_documentKey := ''l''\<rparr>"

lemma two_shards_simps [simp]: "rp_numberOfShards two_shards = 2" "do_batchSize (rp_options two_shards) = 1000"
  by (simp_all add: two_shards_def configureWALTailing_def dc2dc_prepare_def new_replicator_def dc2dc_defaults_def)

lemma below_two: "{i :: u32. i < 2} = {0, 1}"
  by (auto simp: word_less_nat_alt word_unat_eq_iff)

lemma source_delivers_log_witness:
  "\<exists>s0 s1. shardTailLoop mock_iterator (\<lambda>j. \<lparr>mk_entries = if j = 0 then [entry_k] else [entry_k, entry_l], mk_pos = 0\<rparr>)
       (\<lambda>_. None) (\<lambda>w. (0, w)) (\<lambda>w. (w, w + 1)) two_shards 0 1 (map appends ([[entry_l]] @ replicate 2 [])) = Some s0 \<and>
     shardTailLoop mock_iterator (\<lambda>j. \<lparr>mk_entries = if j = 0 then [entry_k] else [entry_k, entry_l], mk_pos = 0\<rparr>)
       (\<lambda>_. None) (\<lambda>w. (0, w)) (\<lambda>w. (w, w + 1)) two_shards 1 1 (map appends ([] @ replicate 2 [])) = Some s1 \<and>
     mset (concat (map mb_entries (ts_out s0))) + mset (concat (map mb_entries (ts_out s1))) = {#entry_k, entry_l#}"
proof -
  let ?wals = "\<lambda>j :: u32. if j = 0 then [entry_k] else [entry_k, entry_l]"
  let ?gs = "\<lambda>j :: u32. if j = 0 then [[entry_l]] else []"
  have n: "0 < rp_numberOfShards two_shards" "0 < do_batchSize (rp_options two_shards)" by simp_all
  have k: "\<forall>i < rp_numberOfShards two_shards. ?wals i @ concat (?gs i) = [entry_k, entry_l] \<and> length [entry_k, entry_l] \<le> 2"
    by simp
  from source_delivers_log [OF n k, of "\<lambda>_. None" "\<lambda>w. (0, w)" "\<lambda>w. (w, w + 1)" "\<lambda>_. 1"] obtain s where
    run: "\<And>i. i < 2 \<Longrightarrow> shardTailLoop mock_iterator (\<lambda>j. \<lparr>mk_entries = ?wals j, mk_pos = 0\<rparr>) (\<lambda>_. None) (\<lambda>w. (0, w))
        (\<lambda>w. (w, w + 1)) two_shards i 1 (map appends (?gs i @ replicate 2 [])) = Some (s i)"
    and sum: "(\<Sum>i \<in> {i. i < 2}. mset (concat (map mb_entries (ts_out (s i))))) =
      mset (filter (\<lambda>e. \<not> satellite_collection (\<lambda>_. None) (we_collectionName e)) [entry_k, entry_l])"
    by (simp only: two_shards_simps) blast
  have "mset (concat (map mb_entries (ts_out (s 0)))) + mset (concat (map mb_entries (ts_out (s 1)))) = {#entry_k, entry_l#}"
    using sum unfolding below_two by (simp add: satellite_collection_def)
  moreover note run [of 0] run [of 1]
  ultimately show ?thesis by (intro exI [of _ "s 0"] exI [of _ "s 1"]) simp
qed


section \<open>One provider for all shards\<close>

text \<open>\<open>configureWALTailing\<close> takes one provider, without a shard argument, and every thread gets a copy
  of it.  A provider that wraps the generator, as its comment says, keeps its state outside of the
  copies, so that all batchers draw from the same numbers.  Threads \<open>i\<close> that add entries in some
  order, each to its own batcher, over such a state:\<close>

fun interleaved ::
  "'w source \<Rightarrow> 'w source \<Rightarrow> (nat \<Rightarrow> batcher) \<Rightarrow> 'w \<Rightarrow> (nat \<times> wal_entry) list \<Rightarrow> message_batch list" where
  "interleaved clock provider bs w [] = []"
| "interleaved clock provider bs w ((i, e) # ops) =
     (let (m, b, w) = batcher_add clock provider (bs i) e w
      in emit m [] @ interleaved clock provider (bs(i := b)) w ops)"

definition numbers_of :: "string \<Rightarrow> message_batch list \<Rightarrow> u64 list" where
  "numbers_of s ms = [mb_sequenceNumber m. m \<leftarrow> ms, mb_shardId m = s]"

text \<open>Whatever such a provider does, there are two threads whose interleaving gives some shard other
  numbers than \<open>1, 2, \<dots>\<close>, which are the numbers that the applier of the target waits for.\<close>

lemma shared_provider_misnumbers:
  fixes clock provider :: "'w source"
  defines "bs \<equiv> \<lambda>i. new_batcher (if i = 0 then ''shard_0'' else ''shard_1'') 1"
  shows "\<exists>ops. \<exists>s \<in> {''shard_0'', ''shard_1''}.
    numbers_of s (interleaved clock provider bs w ops) \<noteq>
      count_up (length (numbers_of s (interleaved clock provider bs w ops)))"
proof (rule ccontr)
  assume "\<not> ?thesis"
  then have ok: "s \<in> {''shard_0'', ''shard_1''} \<Longrightarrow>
      numbers_of s (interleaved clock provider bs w ops) =
        count_up (length (numbers_of s (interleaved clock provider bs w ops)))" for s ops by blast
  let ?w1 = "snd (provider (snd (clock w)))"
  let ?v0 = "fst (provider (snd (clock w)))" and ?v1 = "fst (provider (snd (clock ?w1)))"
  let ?e = "sample_entry 1"
  have same: "numbers_of ''shard_0'' (interleaved clock provider bs w [(0, ?e), (0, ?e)]) = [?v0, ?v1]"
    and first: "numbers_of ''shard_0'' (interleaved clock provider bs w [(0, ?e), (1, ?e)]) = [?v0]"
    and other: "numbers_of ''shard_1'' (interleaved clock provider bs w [(0, ?e), (1, ?e)]) = [?v1]"
    by (simp_all add: bs_def new_batcher_def batcher_add_def seal_eq emit_def numbers_of_def Let_def)
  have "[?v0, ?v1] = count_up 2" and "[?v1] = count_up 1"
    using ok [of "''shard_0''" "[(0, ?e), (0, ?e)]"] ok [of "''shard_1''" "[(0, ?e), (1, ?e)]"]
    unfolding same other by (simp_all only: insert_iff simp_thms length_Cons list.size(3) numeral_2_eq_2 One_nat_def)
  then show False by (simp add: count_up_def numeral_2_eq_2)
qed

text \<open>A shard that is never given number 1 never writes: all its messages stay in the target's
  buffer.\<close>

lemma misnumbered_shard_stalls:
  assumes "1 \<notin> delivered ops s" and "reliable wcb" and "\<not> sat s"
  shows "written_seqs (applier_run wcb sat (applier_init w) ops) s = []"
proof -
  let ?st = "applier_run wcb sat (applier_init w) ops"
  have "\<not> 1 \<le> applier_lastAppliedSequence ?st s"
    using settled_prefix [OF run_settled [where sat = sat and s = s, OF assms(2,3), of ops w], of 1] assms(1) by auto
  then have "applier_lastAppliedSequence ?st s = 0"
    by (simp add: not_le word_less_nat_alt word_unat_eq_iff)
  moreover have "written_seqs ?st s = count_up (unat (applier_lastAppliedSequence ?st s))"
    using applier_run_inv [OF applier_init_inv, of wcb sat w ops] by (simp add: applier_inv_def progress_ok_def)
  ultimately show ?thesis by (simp add: count_up_def)
qed

end
