(* ===== verification/Backup_Store.thy ===== *)
theory Backup_Store
  imports Hot_Backup
begin

text \<open>
  The backup engine as a store (\<^verbatim>\<open>Enterprise/RocksDBEngine/RocksDBHotBackup.cpp\<close>): what a client was
  told of its calls is an abstract catalogue of manifests by id, and the directories of the file
  system refine it.
\<close>

section \<open>Operations and the catalogue\<close>







section \<open>What an id's directory decides\<close>




section \<open>What an operation does to the directories\<close>







section \<open>The directories refine the catalogue\<close>












section \<open>Property\<close>






end
