(* ===== verification/Smart_Traversal.thy ===== *)
theory Smart_Traversal
  imports Sharding_Graph
begin

text \<open>
  Traversals of a smart graph that a server runs on its own shard: the schema check of edges
  (\<^verbatim>\<open>VocBase/SmartGraphSchema.cpp\<close>), the placement of documents (\<^verbatim>\<open>Sharding/\<close>), the provider and the path
  validator (\<^verbatim>\<open>Graph/\<close>) together.  The repository has the data of an expansion and no code that expands a
  vertex; \<open>expansion\<close> is what an expansion has to contain.
\<close>

section \<open>Edges and expansions\<close>










section \<open>One step\<close>








section \<open>Traversals\<close>






text \<open>Satellites.  An edge to a satellite passes the schema check from any partition, so a path through
  a satellite leads from one partition to another; and the path validator refuses the satellite itself,
  whatever the options that name satellites and the one-shard rule say.\<close>

lemma satellite_joins_partitions:
  "vr_ok (validateEdge ''c/eu:a'' ''sat/x'' True {''sat''}) \<and> vr_ok (validateEdge ''sat/x'' ''c/us:b'' True {''sat''}) \<and>
   \<not> vr_ok (validateEdge ''c/eu:a'' ''c/us:b'' True {''sat''})"
  by (simp add: validateEdge_def extractPrefixFromKeyOrHandle_def extractSmartValue_def parseCollectionName_def str_find_def
      substr_def Let_def)

lemma satellite_vertex_refused:
  assumes "CHR '':'' \<notin> set k" and "pv_isDisjoint opts" and "extractSmartPrefix s \<noteq> k"
  shows "\<not> vr_ok (checkValidDisjointPath s k opts)"
proof -
  have "extractSmartPrefix k = k" using assms(1) by (auto simp: extractSmartPrefix_eq takeWhile_all)
  then show ?thesis using assms(2,3) by (simp add: checkValidDisjointPath_def Let_def)
qed

end
