(* ===== verification/Pool_Progress.thy ===== *)
theory Pool_Progress
  imports Index_Pool
begin

text \<open>
  The worker pool does its work: left to its own threads it comes to rest after a bounded number of steps,
  and then every accepted task is done.  The lost wakeup of \<open>shutdown_can_hang\<close> needs the flag of
  \<open>shutdown\<close>, which is set without the mutex; a task is pushed under it, so its notification cannot fall
  between a worker's test and its sleep.
\<close>

section \<open>The pool's own steps\<close>

text \<open>The steps of the workers and of pending notifications, without spurious wakeups: no call of
  \<open>submit\<close> or \<open>shutdown\<close> moves.\<close>

definition quiet_step :: "pool \<Rightarrow> pool \<Rightarrow> bool" where
  "quiet_step p p' \<longleftrightarrow> pool_step False p p' \<and> tp_phase p' = tp_phase p \<and> tp_checked p' = tp_checked p \<and>
     tp_rejected p' = tp_rejected p \<and> tp_accepted p' = tp_accepted p"

lemma quiet_stepE:
  assumes "quiet_step p p'"
  obtains (take) w t q where "w < length (tp_workers p)" "tp_workers p ! w = Looping" "tp_taskQueue p = t # q"
      "p' = set_worker w (Running t) p\<lparr>tp_taskQueue := q, tp_started := tp_started p @ [t]\<rparr>"
    | (leave) w where "w < length (tp_workers p)" "tp_workers p ! w = Looping" "tp_taskQueue p = []" "p' = set_worker w Exited p"
    | (park) w where "w < length (tp_workers p)" "tp_workers p ! w = Looping" "tp_taskQueue p = []" "p' = set_worker w Parking p"
    | (sleep) w where "w < length (tp_workers p)" "tp_workers p ! w = Parking" "p' = set_worker w Sleeping p"
    | (finish) w t where "w < length (tp_workers p)" "tp_workers p ! w = Running t"
      "p' = set_worker w Looping p\<lparr>tp_done := tp_done p @ [t]\<rparr>"
    | (unheard) t where "t \<in> tp_notifying p" "Sleeping \<notin> set (tp_workers p)" "p' = p\<lparr>tp_notifying := tp_notifying p - {t}\<rparr>"
    | (wake) t w where "t \<in> tp_notifying p" "w < length (tp_workers p)" "tp_workers p ! w = Sleeping"
      "p' = set_worker w Looping p\<lparr>tp_notifying := tp_notifying p - {t}\<rparr>"
proof -
  from assms have "pool_step False p p'" and same: "tp_phase p' = tp_phase p" "tp_checked p' = tp_checked p"
      "tp_rejected p' = tp_rejected p" "tp_accepted p' = tp_accepted p" by (simp_all add: quiet_step_def)
  then show ?thesis
  proof cases
    case (worker_take w t q)
    then show ?thesis by (intro take)
  next
    case (worker_exit w)
    then show ?thesis by (intro leave)
  next
    case (worker_park w)
    then show ?thesis by (intro park)
  next
    case (worker_sleep w)
    then show ?thesis by (intro sleep)
  next
    case (worker_done w t)
    then show ?thesis by (intro finish)
  next
    case (notify_none t)
    then show ?thesis by (intro unheard)
  next
    case (notify_one t w)
    then show ?thesis by (intro wake)
  qed (use same in \<open>auto simp: wake_all_def\<close>)
qed

section \<open>Bounded work\<close>

fun worker_cost :: "worker \<Rightarrow> nat" where
  "worker_cost (Running t) = 3"
| "worker_cost Looping = 2"
| "worker_cost Parking = 1"
| "worker_cost Sleeping = 0"
| "worker_cost Exited = 0"

definition pool_work :: "pool \<Rightarrow> nat" where
  "pool_work p = sum_list (map worker_cost (tp_workers p)) + 2 * length (tp_taskQueue p) + 3 * card (tp_notifying p)"

lemma cost_set_worker:
  "w < length (tp_workers p) \<Longrightarrow>
   sum_list (map worker_cost ((tp_workers p)[w := st])) + worker_cost (tp_workers p ! w) =
     sum_list (map worker_cost (tp_workers p)) + worker_cost st"
proof -
  assume "w < length (tp_workers p)"
  then show ?thesis using member_le_sum_list [of "worker_cost (tp_workers p ! w)" "map worker_cost (tp_workers p)"]
    by (simp add: map_update sum_list_update)
qed

lemma quiet_step_decreases:
  assumes "quiet_step p p'" and "finite (tp_notifying p)"
  shows "pool_work p' < pool_work p"
  using assms(1)
proof (cases rule: quiet_stepE)
  case (take w t q)
  then show ?thesis using cost_set_worker [OF take(1), of "Running t"] by (simp add: pool_work_def set_worker_def)
next
  case (leave w)
  then show ?thesis using cost_set_worker [OF leave(1), of Exited] by (simp add: pool_work_def set_worker_def)
next
  case (park w)
  then show ?thesis using cost_set_worker [OF park(1), of Parking] by (simp add: pool_work_def set_worker_def)
next
  case (sleep w)
  then show ?thesis using cost_set_worker [OF sleep(1), of Sleeping] by (simp add: pool_work_def set_worker_def)
next
  case (finish w t)
  then show ?thesis using cost_set_worker [OF finish(1), of Looping] by (simp add: pool_work_def set_worker_def)
next
  case (unheard t)
  then have "card (tp_notifying p - {t}) < card (tp_notifying p)" using assms(2) by (intro card_Diff1_less)
  then show ?thesis by (simp add: pool_work_def unheard(3))
next
  case (wake t w)
  then have "card (tp_notifying p - {t}) < card (tp_notifying p)" using assms(2) by (intro card_Diff1_less)
  then show ?thesis using cost_set_worker [OF wake(2), of Looping] by (simp add: pool_work_def set_worker_def wake(3,4))
qed

section \<open>No task is forgotten\<close>

text \<open>A worker that tested the queue and still holds the mutex saw it empty, and it stays so; while there are
  tasks, a worker is awake or a notification is on its way.\<close>

definition attended :: "pool \<Rightarrow> bool" where
  "attended p \<longleftrightarrow> finite (tp_notifying p) \<and>
     (tp_taskQueue p \<noteq> [] \<longrightarrow> Parking \<notin> set (tp_workers p) \<and>
        (tp_notifying p \<noteq> {} \<or> Looping \<in> set (tp_workers p) \<or> (\<exists>t. Running t \<in> set (tp_workers p))))"

lemma set_worker_in: "w < length (tp_workers p) \<Longrightarrow> st \<in> set ((tp_workers p)[w := st])"
  by (rule set_update_memI)

lemma attended_step:
  assumes "pool_step b p p'" and "attended p" and "pool_inv p" and "tp_workers p \<noteq> []"
  shows "attended p'"
  using assms(1)
proof cases
  case (worker_take w t q)
  then show ?thesis using assms(2) set_worker_in [OF worker_take(2), of "Running t"]
    by (auto simp: attended_def set_worker_def dest: set_update_in)
next
  case (worker_sleep w)
  then have "tp_taskQueue p = []" using assms(2) by (auto simp: attended_def dest: nth_mem)
  then show ?thesis using assms(2) worker_sleep by (auto simp: attended_def set_worker_def)
next
  case (worker_done w t)
  then show ?thesis using assms(2) set_worker_in [OF worker_done(2), of Looping]
    by (auto simp: attended_def set_worker_def dest: set_update_in)
next
  case (notify_none t)
  have "Looping \<in> set (tp_workers p) \<or> (\<exists>t. Running t \<in> set (tp_workers p))" if "tp_taskQueue p \<noteq> []"
  proof -
    obtain w where w: "w \<in> set (tp_workers p)" using assms(4) by (cases "tp_workers p") auto
    have "w \<noteq> Parking" "w \<noteq> Exited" "w \<noteq> Sleeping"
      using w that assms(2,3) notify_none(3) by (auto simp: attended_def pool_inv_def)
    then show ?thesis using w by (cases w) auto
  qed
  then show ?thesis using assms(2) notify_none by (auto simp: attended_def)
next
  case (notify_one t w)
  then show ?thesis using assms(2) set_worker_in [OF notify_one(3), of Looping]
    by (auto simp: attended_def set_worker_def dest: set_update_in)
next
  case (spurious w)
  then show ?thesis using assms(2) set_worker_in [OF spurious(3), of Looping]
    by (auto simp: attended_def set_worker_def dest: set_update_in)
next
  case shutdown_notify
  then show ?thesis using assms(2) by (auto simp: attended_def wake_all_def image_iff split: if_splits)
qed (use assms(2) in \<open>auto simp: attended_def set_worker_def mutex_free_def dest: set_update_in\<close>)

lemma attended_reachable: "pool_reachable n p \<Longrightarrow> 0 < n \<Longrightarrow> attended p"
proof (induction rule: pool_reachable.induct)
  case init
  then show ?case by (simp add: attended_def IndexBuilderThreadPool_def)
next
  case (step p b p')
  then show ?case using pool_inv_reachable [OF step.hyps(1)] attended_step [OF step.hyps(2)] by fastforce
qed

section \<open>All accepted tasks are done\<close>

lemma quiet_reachable: "quiet_step\<^sup>*\<^sup>* p p' \<Longrightarrow> pool_reachable n p \<Longrightarrow> pool_reachable n p'"
  by (induction rule: rtranclp_induct) (auto simp: quiet_step_def intro: pool_reachable.step)

lemma quiet_run_bounded:
  "(quiet_step ^^ k) p p' \<Longrightarrow> pool_reachable n p \<Longrightarrow> 0 < n \<Longrightarrow> k + pool_work p' \<le> pool_work p"
proof (induction k arbitrary: p')
  case (Suc k)
  then obtain p1 where p1: "(quiet_step ^^ k) p p1" "quiet_step p1 p'" by auto
  have "pool_reachable n p1" using quiet_reachable p1(1) Suc.prems(2) by (metis rtranclp_power)
  then have "finite (tp_notifying p1)" using attended_reachable Suc.prems(3) by (auto simp: attended_def)
  with quiet_step_decreases [OF p1(2)] Suc.IH [OF p1(1) Suc.prems(2,3)] show ?case by simp
qed simp

text \<open>A pool at rest has nothing left to do.\<close>

lemma at_rest_worker:
  assumes "\<nexists>p'. quiet_step p p'"
  shows "Running t \<notin> set (tp_workers p)" and "Parking \<notin> set (tp_workers p)"
proof -
  show "Running t \<notin> set (tp_workers p)"
  proof
    assume "Running t \<in> set (tp_workers p)"
    then obtain w where "w < length (tp_workers p)" "tp_workers p ! w = Running t" by (auto simp: in_set_conv_nth)
    then have "quiet_step p (set_worker w Looping p\<lparr>tp_done := tp_done p @ [t]\<rparr>)"
      by (simp add: quiet_step_def pool_step.worker_done) (simp add: set_worker_def)
    then show False using assms by blast
  qed
  show "Parking \<notin> set (tp_workers p)"
  proof
    assume "Parking \<in> set (tp_workers p)"
    then obtain w where "w < length (tp_workers p)" "tp_workers p ! w = Parking" by (auto simp: in_set_conv_nth)
    then have "quiet_step p (set_worker w Sleeping p)"
      by (simp add: quiet_step_def pool_step.worker_sleep) (simp add: set_worker_def)
    then show False using assms by blast
  qed
qed

lemma at_rest_notifying:
  assumes "\<nexists>p'. quiet_step p p'"
  shows "tp_notifying p = {}"
proof (rule ccontr)
  assume "tp_notifying p \<noteq> {}"
  then obtain t where t: "t \<in> tp_notifying p" by blast
  show False
  proof (cases "Sleeping \<in> set (tp_workers p)")
    case True
    then obtain w where "w < length (tp_workers p)" "tp_workers p ! w = Sleeping" by (auto simp: in_set_conv_nth)
    then have "quiet_step p (set_worker w Looping p\<lparr>tp_notifying := tp_notifying p - {t}\<rparr>)"
      using t by (simp add: quiet_step_def pool_step.notify_one) (simp add: set_worker_def)
    then show False using assms by blast
  next
    case False
    then have "quiet_step p (p\<lparr>tp_notifying := tp_notifying p - {t}\<rparr>)"
      using t by (simp add: quiet_step_def pool_step.notify_none)
    then show False using assms by blast
  qed
qed

lemma at_rest_done:
  assumes "pool_reachable n p" and "0 < n" and rest: "\<nexists>p'. quiet_step p p'"
  shows "mset (tp_done p) = mset (tp_accepted p)"
proof -
  have inv: "pool_inv p" "attended p" using pool_inv_reachable attended_reachable assms(1,2) by blast+
  note running = at_rest_worker(1) [OF rest]
  have "tp_taskQueue p = []"
  proof (rule ccontr)
    assume "tp_taskQueue p \<noteq> []"
    then obtain t q where q: "tp_taskQueue p = t # q" by (cases "tp_taskQueue p") auto
    then have "Looping \<in> set (tp_workers p)"
      using inv(2) at_rest_notifying [OF rest] running by (auto simp: attended_def)
    then obtain w where "mutex_free p" "w < length (tp_workers p)" "tp_workers p ! w = Looping"
      using at_rest_worker(2) [OF rest] by (auto simp: in_set_conv_nth mutex_free_def)
    then have "quiet_step p (set_worker w (Running t) p\<lparr>tp_taskQueue := q, tp_started := tp_started p @ [t]\<rparr>)"
      using q by (simp add: quiet_step_def pool_step.worker_take) (simp add: set_worker_def)
    then show False using rest by blast
  qed
  moreover have idle: "running_of w = []" if "w \<in> set (tp_workers p)" for w using running that by (cases w) auto
  then have "concat (map running_of (tp_workers p)) = []" by simp
  then have "mset (concat (map running_of (tp_workers p))) = {#}" by (simp only: mset.simps)
  ultimately show ?thesis using inv(1) unfolding pool_inv_def by (metis append.right_neutral add.right_neutral)
qed

text \<open>C14. However its threads are scheduled, the pool finishes its work: from any reachable state of a pool with
  workers, in whatever order workers move and notifications arrive, no run of the pool's own steps is
  longer than \<open>pool_work\<close>, and a run that cannot go on has done exactly the accepted tasks, whether
  \<open>shutdown\<close> was called or not.\<close>

theorem accepted_tasks_finish:
  assumes "pool_reachable n p" and "0 < n"
  shows "((quiet_step ^^ k) p p' \<longrightarrow> k \<le> pool_work p) \<and>
    (quiet_step\<^sup>*\<^sup>* p p' \<longrightarrow> (\<nexists>p''. quiet_step p' p'') \<longrightarrow> mset (tp_done p') = mset (tp_accepted p))"
proof (intro conjI impI)
  show "k \<le> pool_work p" if "(quiet_step ^^ k) p p'" using quiet_run_bounded [OF that assms] by simp
  assume run: "quiet_step\<^sup>*\<^sup>* p p'" and rest: "\<nexists>p''. quiet_step p' p''"
  from run have "tp_accepted p' = tp_accepted p" by (induction rule: rtranclp_induct) (auto simp: quiet_step_def)
  with at_rest_done [OF quiet_reachable [OF run assms(1)] assms(2) rest] show "mset (tp_done p') = mset (tp_accepted p)" by simp
qed

text \<open>One worker and one task: it is taken, its notification finds nobody asleep, it is done, and the worker
  goes to sleep.\<close>

theorem accepted_tasks_finish_witness:
  "\<exists>p p'. pool_reachable 1 p \<and> tp_taskQueue p = [7] \<and> (quiet_step ^^ 5) p p' \<and> (\<nexists>p''. quiet_step p' p'') \<and>
     5 \<le> pool_work p \<and> mset (tp_done p') = {#7#}"
proof -
  let ?p0 = "IndexBuilderThreadPool 1"
  let ?p1 = "?p0\<lparr>tp_checked := insert 7 (tp_checked ?p0)\<rparr>"
  let ?p2 = "?p1\<lparr>tp_checked := tp_checked ?p1 - {7}, tp_accepted := tp_accepted ?p1 @ [7],
      tp_taskQueue := tp_taskQueue ?p1 @ [7], tp_notifying := insert 7 (tp_notifying ?p1)\<rparr>"
  let ?p3 = "set_worker 0 (Running 7) ?p2\<lparr>tp_taskQueue := [], tp_started := tp_started ?p2 @ [7]\<rparr>"
  let ?p4 = "?p3\<lparr>tp_notifying := tp_notifying ?p3 - {7}\<rparr>"
  let ?p5 = "set_worker 0 Looping ?p4\<lparr>tp_done := tp_done ?p4 @ [7]\<rparr>"
  let ?p6 = "set_worker 0 Parking ?p5" and ?p7 = "set_worker 0 Sleeping (set_worker 0 Parking ?p5)"
  note simps = IndexBuilderThreadPool_def set_worker_def mutex_free_def
  have "pool_step False ?p0 ?p1" by (rule pool_step.submit_check) (simp_all add: simps)
  then have "pool_reachable 1 ?p1" by (rule pool_reachable.step [OF pool_reachable.init])
  moreover have "pool_step False ?p1 ?p2" by (rule pool_step.submit_push) (simp_all add: simps)
  ultimately have r: "pool_reachable 1 ?p2" by (rule pool_reachable.step)
  have "pool_step False ?p2 ?p3" by (rule pool_step.worker_take) (simp_all add: simps)
  then have 1: "quiet_step ?p2 ?p3" by (simp add: quiet_step_def) (simp add: simps)
  have "pool_step False ?p3 ?p4" by (rule pool_step.notify_none) (simp_all add: simps)
  then have 2: "quiet_step ?p3 ?p4" by (simp add: quiet_step_def)
  have "pool_step False ?p4 ?p5" by (rule pool_step.worker_done) (simp_all add: simps)
  then have 3: "quiet_step ?p4 ?p5" by (simp add: quiet_step_def) (simp add: simps)
  have "pool_step False ?p5 ?p6" by (rule pool_step.worker_park) (simp_all add: simps)
  then have 4: "quiet_step ?p5 ?p6" by (simp add: quiet_step_def) (simp add: simps)
  have "pool_step False ?p6 ?p7" by (rule pool_step.worker_sleep) (simp_all add: simps)
  then have 5: "quiet_step ?p6 ?p7" by (simp add: quiet_step_def) (simp add: simps)
  have five: "5 = Suc (Suc (Suc (Suc (Suc 0))))" by simp
  note next_step = relpowp_Suc_I [where P = quiet_step]
  have run: "(quiet_step ^^ 5) ?p2 ?p7" unfolding five
    by (rule next_step [OF _ 5], rule next_step [OF _ 4], rule next_step [OF _ 3], rule next_step [OF _ 2],
        rule next_step [OF relpowp_0_I 1])
  have rest: "\<nexists>p''. quiet_step ?p7 p''" by (auto elim!: quiet_stepE simp: simps)
  have star: "quiet_step\<^sup>*\<^sup>* ?p2 ?p7" using run by (rule relpowp_imp_rtranclp)
  have pos: "(0 :: nat) < 1" by simp
  have "5 \<le> pool_work ?p2" "mset (tp_done ?p7) = mset (tp_accepted ?p2)"
    using accepted_tasks_finish [OF r pos, of 5 ?p7] run star rest by blast+
  moreover have "tp_taskQueue ?p2 = [7]" "tp_accepted ?p2 = [7]" by (simp_all add: simps)
  ultimately show ?thesis using r run rest by (intro exI [of _ ?p2] exI [of _ ?p7]) simp
qed

end
