(* ===== verification/Pool_Fill.thy ===== *)
theory Pool_Fill
  imports Index_Builder Pool_Progress
begin

text \<open>
  A parallel fill on the worker pool: the thread that called \<open>fillIndexParallel\<close> submits the tasks one by
  one while the workers take them, and a task that runs is the scan of its range
  (\<^verbatim>\<open>Enterprise/RocksDBEngine/RocksDBBuilderIndexEE.cpp\<close> over \<^verbatim>\<open>IndexBuilderThreadPool.cpp\<close>).  The schedules
  of \<open>run_scans\<close> are what the pool's interleavings come down to.
\<close>

section \<open>The caller, the pool and the scans\<close>

record 'i fill_sys =
  fs_pool :: pool
  fs_scans :: "'i scan list"
  fs_store :: "(string \<times> string) list"

definition fill_start :: "nat \<Rightarrow> key_range list \<Rightarrow> 'i fill_sys" where
  "fill_start n parts = \<lparr>fs_pool = IndexBuilderThreadPool n, fs_scans = map Submitted parts, fs_store = []\<rparr>"

text \<open>What the caller does to the pool: it submits the tasks \<open>0\<close>, \<open>1\<close>, up to \<open>m\<close> in this order, each
  after the call for the one before has notified a worker, and nobody else submits or shuts down.\<close>

definition caller :: "nat \<Rightarrow> pool \<Rightarrow> bool" where
  "caller m p \<longleftrightarrow> tp_phase p = NotCalled \<and> tp_rejected p = {} \<and>
     length (tp_accepted p) \<le> m \<and> tp_accepted p = [0..<length (tp_accepted p)] \<and>
     tp_checked p \<subseteq> {length (tp_accepted p)} \<inter> {..<m} \<and> (tp_checked p = {} \<or> tp_notifying p = {})"

text \<open>A step of the pool, which ends a task only when its scan has ended, or a step of the scan of a running
  task.\<close>

inductive fill_step ::
  "'i index_iterator \<Rightarrow> (string \<Rightarrow> string \<Rightarrow> 'i option) \<Rightarrow> nat \<Rightarrow> 'i fill_sys \<Rightarrow> 'i fill_sys \<Rightarrow> bool" for ix fac m where
  pool_moves: "fill_step ix fac m \<sigma> (\<sigma>\<lparr>fs_pool := p'\<rparr>)"
  if "pool_step False (fs_pool \<sigma>) p'" "caller m p'"
    "\<forall>t \<in> set (tp_done p') - set (tp_done (fs_pool \<sigma>)). is_finished (fs_scans \<sigma> ! t)"
| scan_moves: "fill_step ix fac m \<sigma> (\<sigma>\<lparr>fs_scans := (fs_scans \<sigma>)[t := sc], fs_store := s'\<rparr>)"
  if "Running t \<in> set (tp_workers (fs_pool \<sigma>))" "t < length (fs_scans \<sigma>)" "\<not> is_finished (fs_scans \<sigma> ! t)"
    "scan_step ix fac collect (fs_scans \<sigma> ! t) (fs_store \<sigma>) = (sc, s')"

section \<open>Steps of the pool that a caller allows\<close>

text \<open>Besides the pool's own steps there are the two of a submission.\<close>

lemma caller_step:
  assumes "pool_step False p p'" and "caller m p" and "caller m p'"
  shows "quiet_step p p' \<or>
    (let k = length (tp_accepted p) in k < m \<and>
       (tp_checked p = {} \<and> p' = p\<lparr>tp_checked := {k}\<rparr> \<or>
        tp_checked p = {k} \<and> p' = p\<lparr>tp_checked := {}, tp_accepted := tp_accepted p @ [k],
          tp_taskQueue := tp_taskQueue p @ [k], tp_notifying := insert k (tp_notifying p)\<rparr>))"
  using assms(1)
proof cases
  case (submit_check t)
  have "insert t (tp_checked p) \<subseteq> {length (tp_accepted p)} \<inter> {..<m}"
    using assms(3) by (simp add: caller_def submit_check(1))
  then show ?thesis using submit_check by (auto simp: Let_def)
next
  case (submit_push t)
  have "tp_checked p \<subseteq> {length (tp_accepted p)} \<inter> {..<m}" using assms(2) by (simp add: caller_def)
  then have "t = length (tp_accepted p)" "tp_checked p = {length (tp_accepted p)}" "length (tp_accepted p) < m"
    using submit_push(2) by auto
  then show ?thesis using submit_push by (simp add: Let_def)
qed (use assms in \<open>auto simp: quiet_step_def caller_def set_worker_def\<close>)


lemma caller_accepted:
  assumes "caller m p"
  shows "set (tp_accepted p) = {..<length (tp_accepted p)}"
proof -
  have "tp_accepted p = [0..<length (tp_accepted p)]" using assms by (simp add: caller_def)
  from arg_cong [OF this, of set] show ?thesis by (simp add: atLeast0LessThan)
qed

lemma caller_quiet:
  assumes "quiet_step p p'" and "caller m p"
  shows "caller m p'"
proof -
  have "tp_phase p' = tp_phase p" "tp_checked p' = tp_checked p" "tp_rejected p' = tp_rejected p"
    "tp_accepted p' = tp_accepted p" using assms(1) by (simp_all add: quiet_step_def)
  moreover have "tp_notifying p' \<subseteq> tp_notifying p"
    using assms(1) by (cases rule: quiet_stepE) (auto simp: set_worker_def)
  ultimately show ?thesis using assms(2) by (auto simp: caller_def)
qed

section \<open>The invariant of a fill\<close>

abbreviation sorted_factory :: "(string \<times> string) list \<Rightarrow> string \<Rightarrow> string \<Rightarrow> map_iterator option" where
  "sorted_factory d \<equiv> map_iterator_create (sort_key fst d)"

abbreviation fill_moves :: "(string \<times> string) list \<Rightarrow> nat \<Rightarrow> map_iterator fill_sys \<Rightarrow> map_iterator fill_sys \<Rightarrow> bool" where
  "fill_moves d m \<equiv> fill_step map_iterator_ops (sorted_factory d) m"

definition fill_inv :: "(string \<times> string) list \<Rightarrow> nat \<Rightarrow> key_range list \<Rightarrow> map_iterator fill_sys \<Rightarrow> bool" where
  "fill_inv d n parts \<sigma> \<longleftrightarrow> pool_reachable n (fs_pool \<sigma>) \<and> caller (length parts) (fs_pool \<sigma>) \<and>
     (\<forall>t \<in> set (tp_done (fs_pool \<sigma>)). is_finished (fs_scans \<sigma> ! t)) \<and>
     (\<exists>sched. run_scans map_iterator_ops (sorted_factory d) collect sched (map Submitted parts, []) = (fs_scans \<sigma>, fs_store \<sigma>))"

lemma fill_inv_start: "fill_inv d n parts (fill_start n parts)"
proof -
  have "caller (length parts) (IndexBuilderThreadPool n)" "tp_done (IndexBuilderThreadPool n) = []"
    by (simp_all add: caller_def IndexBuilderThreadPool_def)
  moreover have "\<exists>sched. run_scans map_iterator_ops (sorted_factory d) collect sched (map Submitted parts, []) =
      (map Submitted parts, [])" by (rule exI [of _ "[]"]) simp
  ultimately show ?thesis by (simp add: fill_inv_def fill_start_def pool_reachable.init)
qed

lemma run_scans_snoc:
  "run_scans ix fac ins sched st = (scs, s) \<Longrightarrow> t < length scs \<Longrightarrow> scan_step ix fac ins (scs ! t) s = (sc, s') \<Longrightarrow>
   run_scans ix fac ins (sched @ [t]) st = (scs[t := sc], s')"
proof (induction sched arbitrary: st)
  case Nil
  then show ?case by (cases st) simp
next
  case (Cons x sched)
  obtain a b where "st = (a, b)" by (cases st)
  with Cons show ?case by simp
qed

lemma fill_inv_step:
  assumes "fill_moves d (length parts) \<sigma> \<sigma>'" and "fill_inv d n parts \<sigma>"
  shows "fill_inv d n parts \<sigma>'"
  using assms(1)
proof cases
  case (pool_moves p')
  then show ?thesis using assms(2) pool_reachable.step by (auto simp: fill_inv_def)
next
  case (scan_moves t sc s')
  obtain sched where "run_scans map_iterator_ops (sorted_factory d) collect sched (map Submitted parts, []) = (fs_scans \<sigma>, fs_store \<sigma>)"
    using assms(2) by (auto simp: fill_inv_def)
  from run_scans_snoc [OF this scan_moves(3,5)] have "\<exists>sched. run_scans map_iterator_ops (sorted_factory d) collect sched
      (map Submitted parts, []) = (fs_scans \<sigma>', fs_store \<sigma>')" by (auto simp: scan_moves(1))
  moreover have "(fs_scans \<sigma>)[t := sc] ! t' = fs_scans \<sigma> ! t'" if "t' \<in> set (tp_done (fs_pool \<sigma>))" for t'
    using that assms(2) scan_moves(4) by (intro nth_list_update_neq) (auto simp: fill_inv_def)
  ultimately show ?thesis using assms(2) by (auto simp: fill_inv_def scan_moves(1))
qed

lemma fill_inv_run: "(fill_moves d (length parts))\<^sup>*\<^sup>* \<sigma> \<sigma>' \<Longrightarrow> fill_inv d n parts \<sigma> \<Longrightarrow> fill_inv d n parts \<sigma>'"
  by (induction rule: rtranclp_induct) (auto dest: fill_inv_step)

section \<open>A fill comes to an end\<close>

definition fill_work :: "(string \<times> string) list \<Rightarrow> nat \<Rightarrow> map_iterator fill_sys \<Rightarrow> nat" where
  "fill_work d m \<sigma> = pool_work (fs_pool \<sigma>) + 7 * (m - length (tp_accepted (fs_pool \<sigma>))) - card (tp_checked (fs_pool \<sigma>)) +
     sum_list (map (map_snapshot.cost d) (fs_scans \<sigma>))"

lemma work_set_scan:
  assumes "t < length scs" and "\<not> is_finished (scs ! t)" and "map_snapshot.cost d sc \<le> map_snapshot.cost d (scs ! t) - 1"
  shows "sum_list (map (map_snapshot.cost d) (scs[t := sc])) < sum_list (map (map_snapshot.cost d) scs)"
proof -
  have "0 < map_snapshot.cost d (scs ! t)" using assms(2) by (cases "scs ! t") auto
  moreover have "map_snapshot.cost d (scs ! t) \<le> sum_list (map (map_snapshot.cost d) scs)"
    using member_le_sum_list [of "map_snapshot.cost d (scs ! t)" "map (map_snapshot.cost d) scs"] assms(1) by simp
  ultimately show ?thesis using assms(1,3) by (simp add: map_update sum_list_update)
qed


lemma fill_step_decreases:
  assumes "fill_moves d (length parts) \<sigma> \<sigma>'" and "fill_inv d n parts \<sigma>" and "0 < n"
  shows "fill_work d (length parts) \<sigma>' < fill_work d (length parts) \<sigma>"
  using assms(1)
proof cases
  case (pool_moves p')
  let ?p = "fs_pool \<sigma>" and ?k = "length (tp_accepted (fs_pool \<sigma>))" and ?m = "length parts"
  have c: "caller ?m ?p" and "finite (tp_notifying ?p)"
    using assms(2,3) attended_reachable by (auto simp: fill_inv_def attended_def)
  from caller_step [OF pool_moves(2) c pool_moves(3)] consider (quiet) "quiet_step ?p p'"
    | (check) "?k < ?m" "tp_checked ?p = {}" "p' = ?p\<lparr>tp_checked := {?k}\<rparr>"
    | (push) "?k < ?m" "tp_checked ?p = {?k}" "p' = ?p\<lparr>tp_checked := {}, tp_accepted := tp_accepted ?p @ [?k],
        tp_taskQueue := tp_taskQueue ?p @ [?k], tp_notifying := insert ?k (tp_notifying ?p)\<rparr>"
    by (auto simp: Let_def)
  then show ?thesis
  proof cases
    case quiet
    have "card (tp_checked ?p) \<le> card ({?k} \<inter> {..<?m})" using c by (intro card_mono) (auto simp: caller_def)
    also have "\<dots> \<le> 7 * (?m - ?k)" by (cases "?k < ?m") auto
    finally have "card (tp_checked ?p) \<le> 7 * (?m - ?k)" .
    moreover have "tp_accepted p' = tp_accepted ?p" "tp_checked p' = tp_checked ?p" using quiet by (simp_all add: quiet_step_def)
    moreover have "pool_work p' < pool_work ?p" using quiet_step_decreases [OF quiet \<open>finite (tp_notifying ?p)\<close>] .
    ultimately show ?thesis by (simp add: fill_work_def pool_moves(1))
  next
    case check
    then show ?thesis by (simp add: fill_work_def pool_moves(1) pool_work_def)
  next
    case push
    have "card (insert ?k (tp_notifying ?p)) \<le> Suc (card (tp_notifying ?p))" by (rule card_insert_le_m1) simp_all
    with push show ?thesis by (simp add: fill_work_def pool_moves(1) pool_work_def)
  qed
next
  case (scan_moves t sc s')
  have "map_snapshot.cost d sc \<le> map_snapshot.cost d (fs_scans \<sigma> ! t) - 1"
    using map_snapshot.scan_step_pending [OF scan_moves(5)] by blast
  from work_set_scan [OF scan_moves(3,4) this] show ?thesis by (simp add: fill_work_def scan_moves(1))
qed

lemma fill_run_bounded:
  "(fill_moves d (length parts) ^^ k) \<sigma> \<sigma>' \<Longrightarrow> fill_inv d n parts \<sigma> \<Longrightarrow> 0 < n \<Longrightarrow>
   k + fill_work d (length parts) \<sigma>' \<le> fill_work d (length parts) \<sigma>"
proof (induction k arbitrary: \<sigma>')
  case (Suc k)
  then obtain \<sigma>1 where \<sigma>1: "(fill_moves d (length parts) ^^ k) \<sigma> \<sigma>1" "fill_moves d (length parts) \<sigma>1 \<sigma>'" by auto
  then have "fill_inv d n parts \<sigma>1" using fill_inv_run Suc.prems(2) by (metis relpowp_imp_rtranclp)
  from fill_step_decreases [OF \<sigma>1(2) this] Suc.IH [OF \<sigma>1(1)] Suc.prems show ?case by simp
qed simp

lemma fill_work_start:
  "fill_work d (length parts) (fill_start n parts) = 2 * n + 7 * length parts + length parts * (length d + 2)"
  by (simp add: fill_work_def fill_start_def IndexBuilderThreadPool_def pool_work_def comp_def sum_list_replicate
      sum_list_triv)

section \<open>A fill at rest is complete\<close>

lemma running_accepted:
  assumes "pool_reachable n p" and "Running t \<in> set (tp_workers p)"
  shows "t \<in> set (tp_accepted p)"
proof -
  have i: "tp_started p @ tp_taskQueue p = tp_accepted p"
    "mset (tp_done p @ concat (map running_of (tp_workers p))) = mset (tp_started p)"
    using pool_inv_reachable [OF assms(1)] by (auto simp: pool_inv_def)
  have "t \<in> set (concat (map running_of (tp_workers p)))" using assms(2) by force
  then have "t \<in> set (tp_started p)" using mset_eq_setD [OF i(2)] by auto
  then show ?thesis using i(1) by (metis UnI1 set_append)
qed

lemma fill_at_rest:
  assumes inv: "fill_inv d n parts \<sigma>" and "0 < n" and rest: "\<nexists>\<sigma>'. fill_moves d (length parts) \<sigma> \<sigma>'"
  shows "mset (tp_done (fs_pool \<sigma>)) = mset [0..<length parts]"
proof -
  let ?p = "fs_pool \<sigma>" and ?k = "length (tp_accepted (fs_pool \<sigma>))" and ?m = "length parts"
  have r: "pool_reachable n ?p" and c: "caller ?m ?p" using inv by (auto simp: fill_inv_def)
  note still = rest [unfolded not_ex, rule_format]
  have "length (fs_scans \<sigma>) = ?m" using inv map_snapshot.run_scans_pending [of d _ "map Submitted parts"]
    by (fastforce simp: fill_inv_def)
  moreover have "?k \<le> ?m" "set (tp_accepted ?p) = {..<?k}" using c caller_accepted [OF c] by (simp_all add: caller_def)
  ultimately have t: "t < length (fs_scans \<sigma>)" if "Running t \<in> set (tp_workers ?p)" for t
    using running_accepted [OF r that] by simp
  have running: "is_finished (fs_scans \<sigma> ! t)" if "Running t \<in> set (tp_workers ?p)" for t
  proof (rule ccontr)
    assume "\<not> is_finished (fs_scans \<sigma> ! t)"
    from fill_step.scan_moves [OF that t [OF that] this] show False using still by (metis surj_pair)
  qed
  have quiet: "\<nexists>p'. quiet_step ?p p'"
  proof
    assume "\<exists>p'. quiet_step ?p p'"
    then obtain p' where q: "quiet_step ?p p'" by blast
    have "is_finished (fs_scans \<sigma> ! t)" if "t \<in> set (tp_done p') - set (tp_done ?p)" for t
      using q that by (cases rule: quiet_stepE) (auto simp: set_worker_def intro!: running intro: nth_mem dest: nth_mem)
    then have "\<forall>t \<in> set (tp_done p') - set (tp_done ?p). is_finished (fs_scans \<sigma> ! t)" by blast
    moreover have "pool_step False ?p p'" using q by (simp add: quiet_step_def)
    ultimately show False using still fill_step.pool_moves [of \<sigma> p' ?m] caller_quiet [OF q c] by blast
  qed
  have "?k = ?m"
  proof (rule ccontr)
    assume "?k \<noteq> ?m"
    moreover have "?k \<le> ?m" "tp_phase ?p = NotCalled" using c by (simp_all add: caller_def)
    ultimately have "?k < ?m" "\<not> tp_shutdown ?p" using pool_inv_reachable [OF r] by (simp_all add: pool_inv_def)
    have "mutex_free ?p" "tp_notifying ?p = {}"
      using at_rest_worker(2) [OF quiet] at_rest_notifying [OF quiet] by (simp_all add: mutex_free_def)
    show False
    proof (cases "tp_checked ?p = {}")
      case True
      let ?p' = "?p\<lparr>tp_checked := insert ?k (tp_checked ?p)\<rparr>"
      have "?k \<notin> set (tp_accepted ?p)" using caller_accepted [OF c] by simp
      moreover have "tp_rejected ?p = {}" using c by (simp add: caller_def)
      ultimately have "pool_step False ?p ?p'" using True \<open>\<not> tp_shutdown ?p\<close> by (intro pool_step.submit_check) simp_all
      moreover have "caller ?m ?p'" using c \<open>?k < ?m\<close> \<open>tp_notifying ?p = {}\<close> by (simp add: caller_def)
      ultimately show False using still fill_step.pool_moves by force
    next
      case False
      then have k: "tp_checked ?p = {?k}" using c by (auto simp: caller_def)
      let ?p' = "?p\<lparr>tp_checked := tp_checked ?p - {?k}, tp_accepted := tp_accepted ?p @ [?k],
          tp_taskQueue := tp_taskQueue ?p @ [?k], tp_notifying := insert ?k (tp_notifying ?p)\<rparr>"
      have "pool_step False ?p ?p'" using k \<open>\<not> tp_shutdown ?p\<close> \<open>mutex_free ?p\<close> by (intro pool_step.submit_push) auto
      moreover have "caller ?m ?p'" using c \<open>?k < ?m\<close> k by (simp add: caller_def)
      ultimately show False using still fill_step.pool_moves by force
    qed
  qed
  then show ?thesis using at_rest_done [OF r assms(2) quiet] c by (metis caller_def)
qed


section \<open>Properties\<close>

text \<open>C11. A parallel fill ends and indexes every entry of the key range exactly once, on the pool and under
  every interleaving: with at least one thread and over bounds that split into ascending ranges, no run of
  submissions, workers, notifications and scans is longer than \<open>n * (length d + 11)\<close> steps, and when nothing
  can move every task is done, the call returns true and leaves the builder in the building state, and what
  was inserted is a permutation of the snapshot's entries in the range.\<close>

theorem fill_on_pool:
  assumes "bi_state b = kIdle" and "bi_poolRunning b" and "bc_numThreads (bi_config b) \<noteq> 0"
    and "u = [] \<or> l < u \<and> bytes_ascend l u \<and> (length l \<le> 1 \<or> List.last l \<noteq> CHR 0x00)"
    and n: "n = unat (bc_numThreads (bi_config b))"
    and start: "\<sigma>0 = fill_start n (partition_keys l u (bc_numThreads (bi_config b)))"
  shows "((fill_moves d n ^^ k) \<sigma>0 \<sigma> \<longrightarrow> k \<le> n * (length d + 11)) \<and>
    ((fill_moves d n)\<^sup>*\<^sup>* \<sigma>0 \<sigma> \<longrightarrow> (\<nexists>\<sigma>'. fill_moves d n \<sigma> \<sigma>') \<longrightarrow>
       mset (tp_done (fs_pool \<sigma>)) = mset [0..<n] \<and>
       (\<exists>sched. fillIndexParallel map_iterator_ops (sorted_factory d) collect l u sched b [] =
          Some (True, b\<lparr>bi_state := kBuilding\<rparr>, fs_store \<sigma>)) \<and>
       mset (fs_store \<sigma>) = mset (filter (\<lambda>(k, v). l \<le> k \<and> (u = [] \<or> k < u)) d))"
proof -
  let ?ps = "partition_keys l u (bc_numThreads (bi_config b))"
  have len: "length ?ps = n" using partition_ranges [OF assms(3)] assms(4) n by blast
  have pos: "0 < n" using assms(3) n by (simp add: unat_gt_0)
  have inv0: "fill_inv d n ?ps \<sigma>0" unfolding start by (rule fill_inv_start)
  show ?thesis
  proof (intro conjI impI)
    assume "(fill_moves d n ^^ k) \<sigma>0 \<sigma>"
    with fill_run_bounded [where d = d and parts = ?ps and k = k and \<sigma> = \<sigma>0 and \<sigma>' = \<sigma> and n = n] inv0 pos have "k \<le> fill_work d n \<sigma>0" by (simp add: len)
    also have "\<dots> = n * (length d + 11)" using fill_work_start [of d ?ps n] by (simp add: start len algebra_simps)
    finally show "k \<le> n * (length d + 11)" .
  next
    assume "(fill_moves d n)\<^sup>*\<^sup>* \<sigma>0 \<sigma>" and rest: "\<nexists>\<sigma>'. fill_moves d n \<sigma> \<sigma>'"
    then have inv: "fill_inv d n ?ps \<sigma>" using fill_inv_run [where d = d and parts = ?ps and n = n] inv0 by (simp add: len)
    show fin: "mset (tp_done (fs_pool \<sigma>)) = mset [0..<n]" using fill_at_rest [OF inv pos] rest by (simp add: len)
    obtain sched where run: "run_scans map_iterator_ops (sorted_factory d) collect sched (map Submitted ?ps, []) =
        (fs_scans \<sigma>, fs_store \<sigma>)" using inv by (auto simp: fill_inv_def)
    have "length (fs_scans \<sigma>) = n" using map_snapshot.run_scans_pending [OF run] len by simp
    moreover have "set (tp_done (fs_pool \<sigma>)) = {0..<n}" using mset_eq_setD [OF fin] by simp
    ultimately have "list_all is_finished (fs_scans \<sigma>)" using inv by (simp add: fill_inv_def list_all_length)
    note r = finished_fill [OF assms(1-4) run this]
    then show "mset (fs_store \<sigma>) = mset (filter (\<lambda>(k, v). l \<le> k \<and> (u = [] \<or> k < u)) d)" by blast
    show "\<exists>sched. fillIndexParallel map_iterator_ops (sorted_factory d) collect l u sched b [] =
        Some (True, b\<lparr>bi_state := kBuilding\<rparr>, fs_store \<sigma>)" using r by blast
  qed
qed

text \<open>A relation whose runs are bounded has a run that cannot go on.\<close>

lemma bounded_run_ends:
  assumes "\<And>k y. (R ^^ k) x y \<Longrightarrow> k \<le> B"
  shows "\<exists>y. R\<^sup>*\<^sup>* x y \<and> (\<nexists>z. R y z)"
proof (rule ccontr)
  assume none: "\<not> ?thesis"
  have "\<exists>y. (R ^^ k) x y" for k
  proof (induction k)
    case (Suc k)
    then obtain y where "(R ^^ k) x y" by blast
    with none obtain z where "R y z" by (metis relpowp_imp_rtranclp)
    with \<open>(R ^^ k) x y\<close> show ?case by auto
  qed simp
  then obtain y where "(R ^^ Suc B) x y" by blast
  from assms [OF this] show False by simp
qed

text \<open>Two threads fill an index with two entries.\<close>

theorem fill_on_pool_witness:
  "\<exists>\<sigma>. (fill_moves [(''b'', ''1''), (''a'', ''2'')] 2)\<^sup>*\<^sup>* (fill_start 2 (partition_keys ''a'' [] 2)) \<sigma> \<and>
     (\<nexists>\<sigma>'. fill_moves [(''b'', ''1''), (''a'', ''2'')] 2 \<sigma> \<sigma>') \<and>
     mset (tp_done (fs_pool \<sigma>)) = {#0, 1#} \<and> mset (fs_store \<sigma>) = {#(''a'', ''2''), (''b'', ''1'')#}"
proof -
  let ?b = "RocksDBBuilderIndexEE (builder_config_init\<lparr>bc_numThreads := 2\<rparr>)" and ?d = "[(''b'', ''1''), (''a'', ''2'')]"
  let ?s = "fill_start 2 (partition_keys ''a'' [] 2)"
  have h: "bi_state ?b = kIdle" "bi_poolRunning ?b" "bc_numThreads (bi_config ?b) \<noteq> 0"
    "2 = unat (bc_numThreads (bi_config ?b))"
    "?s = fill_start 2 (partition_keys ''a'' [] (bc_numThreads (bi_config ?b)))"
    by (simp_all add: RocksDBBuilderIndexEE_def builder_config_init_def)
  note t = fill_on_pool [OF h(1-3) disjI1 [OF refl] h(4,5), where d = ?d]
  have "k \<le> 2 * (length ?d + 11)" if "(fill_moves ?d 2 ^^ k) ?s \<sigma>" for k \<sigma> using t that by blast
  then obtain \<sigma> where \<sigma>: "(fill_moves ?d 2)\<^sup>*\<^sup>* ?s \<sigma>" "\<nexists>\<sigma>'. fill_moves ?d 2 \<sigma> \<sigma>'"
    using bounded_run_ends [of "fill_moves ?d 2" ?s] by blast
  have "mset (tp_done (fs_pool \<sigma>)) = mset [0..<2]"
    "mset (fs_store \<sigma>) = mset (filter (\<lambda>(k, v). ''a'' \<le> k \<and> ([] = ([] :: string) \<or> k < [])) ?d)"
    using t \<sigma> by blast+
  moreover have "filter (\<lambda>(k, v). ''a'' \<le> k \<and> ([] = ([] :: string) \<or> k < [])) ?d = ?d" by (simp add: less_char_def)
  ultimately have "mset (tp_done (fs_pool \<sigma>)) = {#0, 1#}" "mset (fs_store \<sigma>) = {#(''a'', ''2''), (''b'', ''1'')#}"
    by (simp_all add: numeral_2_eq_2 add_mset_commute)
  with \<sigma> show ?thesis by blast
qed

end
